(* ===== verification/Prelude.thy ===== *)
theory Prelude
  imports
    "HOL-Library.Word"
    "HOL-Library.AList"
    "HOL-Library.Signed_Division"
begin

text \<open>
  The shared base of the development: the ways a C++ operation of the program can fail,
  the sequencing of fallible operations, 32-bit signed arithmetic, the little-endian
  object representation of integers that \<open>std::memcpy\<close> exposes, and the checked
  container accesses that the components use. The platform is the x64 configuration of
  \<open>SnekCpp.sln\<close>: \<open>int\<close> has 4 bytes, \<open>size_t\<close> has 8, integers are little-endian.
\<close>

section \<open>Failures and their sequencing\<close>

text \<open>
  One constructor per way an operation of the program can go wrong. \<open>Out_Of_Range\<close> and
  \<open>System_Error\<close> are exceptions, \<open>Terminate\<close> ends the process, \<open>Stack_Overflow\<close> is a call
  chain that outgrows every stack; every other constructor is undefined behaviour of C++.
\<close>

datatype err =
    Empty_Access       \<comment> \<open>front(), back(), pop or [0] of an empty container\<close>
  | Index_Error        \<comment> \<open>operator[] outside the bounds\<close>
  | Short_Body         \<comment> \<open>memcpy from before the start of a message body\<close>
  | Null_Deref         \<comment> \<open>member access through a null pointer\<close>
  | Signed_Overflow    \<comment> \<open>an int result outside 32 bits\<close>
  | Div_Zero           \<comment> \<open>% with a zero divisor\<close>
  | Bad_Range          \<comment> \<open>uniform_int_distribution(a, b) with a > b\<close>
  | Iterator_Invalid   \<comment> \<open>a range-for over a deque that was erased from\<close>
  | Stack_Overflow     \<comment> \<open>recursion deeper than the stack\<close>
  | Out_Of_Range       \<comment> \<open>std::out_of_range thrown by at()\<close>
  | Terminate          \<comment> \<open>std::terminate: assignment to a joinable std::thread\<close>
  | System_Error       \<comment> \<open>std::system_error thrown by remote_endpoint()\<close>

type_synonym 'a res = "err + 'a"

named_theorems res_simps \<open>equations of the sequencing operators\<close>
named_theorems codec \<open>lengths and round trips of object representations\<close>
named_theorems keeps \<open>fields that an operation leaves alone\<close>

definition ebind :: "'a res \<Rightarrow> ('a \<Rightarrow> 'b res) \<Rightarrow> 'b res" where
  "ebind m f = (case m of Inl e \<Rightarrow> Inl e | Inr x \<Rightarrow> f x)"

lemma ebind_Inl [simp, res_simps]: "ebind (Inl e) f = Inl e"
  by (simp add: ebind_def)

lemma ebind_Inr [simp, res_simps]: "ebind (Inr x) f = f x"
  by (simp add: ebind_def)

lemma ebind_Inr_iff: "ebind m f = Inr y \<longleftrightarrow> (\<exists>x. m = Inr x \<and> f x = Inr y)"
  by (cases m) simp_all

lemma ebind_InrE [elim!]:
  assumes "ebind m f = Inr y"
  obtains x where "m = Inr x" "f x = Inr y"
  using assms by (auto simp: ebind_Inr_iff)

lemma ebind_assoc: "ebind (ebind m f) g = ebind m (\<lambda>x. ebind (f x) g)"
  by (cases m) simp_all

lemma ebind_cong [fundef_cong]:
  "m = m' \<Longrightarrow> (\<And>x. m' = Inr x \<Longrightarrow> f x = f' x) \<Longrightarrow> ebind m f = ebind m' f'"
  by (cases m') simp_all

section \<open>Machine integers\<close>

type_synonym byte = "8 word"
type_synonym u32 = "32 word"     \<comment> \<open>uint32_t, ImU32 and the bits of an int\<close>
type_synonym u64 = "64 word"     \<comment> \<open>uint64_t and size_t\<close>
type_synonym cint = "32 word"    \<comment> \<open>int: read with sint\<close>

text \<open>Signed arithmetic: a result outside the 32-bit range is undefined.\<close>

definition c_int :: "int \<Rightarrow> cint res" where
  "c_int i = (if - (2 ^ 31) \<le> i \<and> i < 2 ^ 31 then Inr (word_of_int i) else Inl Signed_Overflow)"

definition c_add :: "cint \<Rightarrow> cint \<Rightarrow> cint res" where
  "c_add a b = c_int (sint a + sint b)"

definition c_sub :: "cint \<Rightarrow> cint \<Rightarrow> cint res" where
  "c_sub a b = c_int (sint a - sint b)"

definition c_mod :: "cint \<Rightarrow> cint \<Rightarrow> cint res" where
  "c_mod a b =
     (if b = 0 then Inl Div_Zero
      else if sint a = - (2 ^ 31) \<and> sint b = -1 then Inl Signed_Overflow
      else c_int (sint a smod sint b))"

definition c_mul :: "cint \<Rightarrow> cint \<Rightarrow> cint res" where
  "c_mul a b = c_int (sint a * sint b)"

definition c_div :: "cint \<Rightarrow> cint \<Rightarrow> cint res" where
  "c_div a b = (if b = 0 then Inl Div_Zero else c_int (sint a sdiv sint b))"

lemmas c_ops = c_add_def c_sub_def c_mul_def c_div_def c_mod_def

lemma sint_word_of_int_32:
  assumes "- (2 ^ 31) \<le> i" and "i < 2 ^ 31"
  shows "sint (word_of_int i :: cint) = i"
proof -
  have "sint (word_of_int i :: cint) = signed_take_bit 31 i"
    by (simp add: sint_sbintrunc')
  also have "\<dots> = i"
    using assms by (simp add: signed_take_bit_int_eq_self_iff)
  finally show ?thesis .
qed

lemma sint_word_small: "0 \<le> i \<Longrightarrow> i < 2 ^ 30 \<Longrightarrow> sint (word_of_int i :: cint) = i"
  by (rule sint_word_of_int_32) simp_all

lemma c_int_ok: "- (2 ^ 31) \<le> i \<Longrightarrow> i < 2 ^ 31 \<Longrightarrow> c_int i = Inr (word_of_int i)"
  by (simp add: c_int_def)

lemma c_int_sint: "c_int i = Inr w \<Longrightarrow> sint w = i"
  by (auto simp: c_int_def sint_word_of_int_32 split: if_splits)

lemma sint_bounds_32: "- (2 ^ 31) \<le> sint (w :: cint)" "sint (w :: cint) < 2 ^ 31"
  using sint_range_size [of w] by (simp_all add: word_size)

lemma unat_bound_32: "unat (w :: u32) < 4294967296"
proof -
  have "unat w < 2 ^ LENGTH(32)" by (rule unsigned_less)
  then show ?thesis by simp
qed

lemma unat_bound_64: "unat (w :: u64) < 18446744073709551616"
proof -
  have "unat w < 2 ^ LENGTH(64)" by (rule unsigned_less)
  then show ?thesis by simp
qed

text \<open>Remainder of a non-negative value by a positive one is the mathematical one.\<close>

lemma smod_nonneg: "0 \<le> a \<Longrightarrow> 0 < b \<Longrightarrow> (a :: int) smod b = a mod b"
  by (cases "a = 0") (simp_all add: signed_modulo_int_def sgn_if)

lemma c_mod_nonneg:
  assumes "0 \<le> sint a" and "0 < sint b"
  shows "c_mod a b = Inr (word_of_int (sint a mod sint b))"
proof -
  have "b \<noteq> 0" using assms(2) by auto
  have lo: "0 \<le> sint a mod sint b" using assms(2) by simp
  have "sint a mod sint b < 2 ^ 31"
    using assms(2) by (rule order.strict_trans [OF pos_mod_bound sint_bounds_32(2)])
  with lo have "c_int (sint a mod sint b) = Inr (word_of_int (sint a mod sint b))"
    by (intro c_int_ok) linarith+
  with \<open>b \<noteq> 0\<close> show ?thesis
    using assms by (simp add: c_mod_def smod_nonneg)
qed

section \<open>Little-endian object representations\<close>

fun le_bytes :: "nat \<Rightarrow> nat \<Rightarrow> byte list" where
  "le_bytes 0 n = []"
| "le_bytes (Suc k) n = word_of_nat (n mod 256) # le_bytes k (n div 256)"

fun le_val :: "byte list \<Rightarrow> nat" where
  "le_val [] = 0"
| "le_val (b # bs) = unat b + 256 * le_val bs"

lemma length_le_bytes [simp, codec]: "length (le_bytes k n) = k"
  by (induction k arbitrary: n) auto

lemma unat_byte_of_nat: "unat (word_of_nat (n mod 256) :: byte) = n mod 256"
  by (simp add: unat_of_nat)

lemma le_val_le_bytes [codec]: "le_val (le_bytes k n) = n mod 256 ^ k"
proof (induction k arbitrary: n)
  case 0
  then show ?case by simp
next
  case (Suc k)
  have "n mod (256 * 256 ^ k) = 256 * (n div 256 mod 256 ^ k) + n mod 256"
    by (rule mod_mult2_eq)
  then show ?case
    using Suc by (simp add: unat_byte_of_nat)
qed

lemma le_val_bound: "le_val bs < 256 ^ length bs"
proof (induction bs)
  case Nil
  then show ?case by simp
next
  case (Cons b bs)
  have "unat b < 256"
    using unsigned_less [of b] by simp
  then show ?case using Cons by simp
qed

lemma le_bytes_le_val [codec]: "length bs = k \<Longrightarrow> le_bytes k (le_val bs) = bs"
proof (induction bs arbitrary: k)
  case Nil
  then show ?case by simp
next
  case (Cons b bs)
  have "unat b < 256"
    using unsigned_less [of b] by simp
  then have "(unat b + 256 * le_val bs) mod 256 = unat b"
    and "(unat b + 256 * le_val bs) div 256 = le_val bs"
    by simp_all
  moreover obtain k' where "k = Suc k'" "length bs = k'"
    using Cons.prems by (cases k) auto
  ultimately show ?case
    using Cons.IH [of k'] by simp
qed

definition enc_u32 :: "u32 \<Rightarrow> byte list" where
  "enc_u32 w = le_bytes 4 (unat w)"

definition dec_u32 :: "byte list \<Rightarrow> u32" where
  "dec_u32 bs = word_of_nat (le_val bs)"

definition enc_u64 :: "u64 \<Rightarrow> byte list" where
  "enc_u64 w = le_bytes 8 (unat w)"

definition dec_u64 :: "byte list \<Rightarrow> u64" where
  "dec_u64 bs = word_of_nat (le_val bs)"

lemma length_enc_u32 [simp, codec]: "length (enc_u32 w) = 4"
  by (simp add: enc_u32_def)

lemma length_enc_u64 [simp, codec]: "length (enc_u64 w) = 8"
  by (simp add: enc_u64_def)

lemma dec_enc_u32 [simp, codec]: "dec_u32 (enc_u32 w) = w"
proof -
  have "unat w mod 256 ^ 4 = unat w"
    by (simp add: mod_less [OF unat_bound_32])
  then show ?thesis by (simp add: enc_u32_def dec_u32_def le_val_le_bytes)
qed

lemma dec_enc_u64 [simp, codec]: "dec_u64 (enc_u64 w) = w"
proof -
  have "unat w mod 256 ^ 8 = unat w"
    by (simp add: mod_less [OF unat_bound_64])
  then show ?thesis by (simp add: enc_u64_def dec_u64_def le_val_le_bytes)
qed

lemma enc_dec_u32 [codec]:
  assumes "length bs = 4"
  shows "enc_u32 (dec_u32 bs) = bs"
proof -
  have "unat (word_of_nat (le_val bs) :: u32) = le_val bs"
    using le_val_bound [of bs] assms by (simp add: unat_of_nat)
  then show ?thesis using assms by (simp add: enc_u32_def dec_u32_def le_bytes_le_val)
qed

lemma enc_dec_u64 [codec]:
  assumes "length bs = 8"
  shows "enc_u64 (dec_u64 bs) = bs"
proof -
  have "unat (word_of_nat (le_val bs) :: u64) = le_val bs"
    using le_val_bound [of bs] assms by (simp add: unat_of_nat)
  then show ?thesis using assms by (simp add: enc_u64_def dec_u64_def le_bytes_le_val)
qed

section \<open>Checked container accesses\<close>

text \<open>\<open>front\<close>, \<open>back\<close> and \<open>[0]\<close> of a vector or deque.\<close>

definition front_of :: "'a list \<Rightarrow> 'a res" where
  "front_of xs = (case xs of [] \<Rightarrow> Inl Empty_Access | x # _ \<Rightarrow> Inr x)"

definition back_of :: "'a list \<Rightarrow> 'a res" where
  "back_of xs = (if xs = [] then Inl Empty_Access else Inr (last xs))"

lemma front_of_simps [simp]: "front_of [] = Inl Empty_Access" "front_of (x # xs) = Inr x"
  by (simp_all add: front_of_def)

lemma back_of_simps [simp]: "back_of [] = Inl Empty_Access" "back_of (xs @ [x]) = Inr x"
  by (simp_all add: back_of_def)

lemma front_of_Inr: "front_of xs = Inr x \<longleftrightarrow> (\<exists>ys. xs = x # ys)"
  by (cases xs) auto

text \<open>Erasing the first element that satisfies a test, as the index loops with \<open>break\<close> do.\<close>

fun erase_first :: "('a \<Rightarrow> bool) \<Rightarrow> 'a list \<Rightarrow> 'a list" where
  "erase_first P [] = []"
| "erase_first P (x # xs) = (if P x then xs else x # erase_first P xs)"

lemma set_erase_first: "set (erase_first P xs) \<subseteq> set xs"
  by (induction xs) auto

lemma length_erase_first:
  "length (erase_first P xs) = (if \<exists>x\<in>set xs. P x then length xs - 1 else length xs)"
proof (induction xs)
  case Nil
  then show ?case by simp
next
  case (Cons x xs)
  then show ?case by (cases xs) auto
qed

lemma erase_first_none: "\<forall>x\<in>set xs. \<not> P x \<Longrightarrow> erase_first P xs = xs"
  by (induction xs) auto

lemma length_alist_update:
  "length (AList.update k v al) = (if k \<in> fst ` set al then length al else Suc (length al))"
  by (induction al) auto

lemma alist_update_other: "j \<noteq> k \<Longrightarrow> (j, v) \<in> set (AList.update k w al) \<longleftrightarrow> (j, v) \<in> set al"
  by (induction al) auto

end
