(* ===== verification/Common.thy ===== *)
theory Common
  imports Prelude
begin

text \<open>
  \<open>src/Snek/common.h\<close>: the constants client and server share and the message types.
  \<open>MessageTypes\<close> has a fixed underlying type, so a header that is copied from the socket
  can hold any 32-bit value: the values without an enumerator are \<open>OtherType w\<close>.
\<close>

definition IP :: string where "IP = ''127.0.0.1''"
definition PORT :: nat where "PORT = 8080"

definition GRIDWIDTH :: nat where "GRIDWIDTH = 40"
definition GRIDHEIGHT :: nat where "GRIDHEIGHT = 30"

lemmas grid_dims = GRIDWIDTH_def GRIDHEIGHT_def

datatype message_type =
    ServerValidation
  | NewPlayer
  | RemovePlayer
  | StartGame
  | UpdatePlayer
  | NewPowerup
  | PowerupEaten
  | KillPlayer
  | OtherType u32

fun type_code :: "message_type \<Rightarrow> u32" where
  "type_code ServerValidation = 0"
| "type_code NewPlayer = 1"
| "type_code RemovePlayer = 2"
| "type_code StartGame = 3"
| "type_code UpdatePlayer = 4"
| "type_code NewPowerup = 5"
| "type_code PowerupEaten = 6"
| "type_code KillPlayer = 7"
| "type_code (OtherType w) = w"

definition type_of_code :: "u32 \<Rightarrow> message_type" where
  "type_of_code w =
     (if w = 0 then ServerValidation else if w = 1 then NewPlayer
      else if w = 2 then RemovePlayer else if w = 3 then StartGame
      else if w = 4 then UpdatePlayer else if w = 5 then NewPowerup
      else if w = 6 then PowerupEaten else if w = 7 then KillPlayer else OtherType w)"

text \<open>The values a variable of the enumeration can hold, each represented once.\<close>

fun canonical_type :: "message_type \<Rightarrow> bool" where
  "canonical_type (OtherType w) = (7 < w)"
| "canonical_type _ = True"

lemma type_code_of_code [simp, codec]: "type_code (type_of_code w) = w"
  by (simp add: type_of_code_def)

lemma type_of_code_code [simp, codec]: "canonical_type t \<Longrightarrow> type_of_code (type_code t) = t"
  by (cases t) (auto simp: type_of_code_def)

lemma word_le7_cases:
  fixes w :: u32
  assumes "w \<le> 7"
  shows "w = 0 \<or> w = 1 \<or> w = 2 \<or> w = 3 \<or> w = 4 \<or> w = 5 \<or> w = 6 \<or> w = 7"
proof -
  have w: "w = word_of_nat (unat w)" "unat w \<le> 7"
    using assms by (simp_all add: word_le_nat_alt)
  define n where "n = unat w"
  have "n = 0 \<or> n = 1 \<or> n = 2 \<or> n = 3 \<or> n = 4 \<or> n = 5 \<or> n = 6 \<or> n = 7"
    using w(2) unfolding n_def by linarith
  with w(1) show ?thesis unfolding n_def [symmetric] by (elim disjE) simp_all
qed

lemma canonical_type_of_code [simp]: "canonical_type (type_of_code w)"
  using word_le7_cases [of w] by (auto simp: type_of_code_def not_less [symmetric])

end
