(* ===== verification/Message.thy ===== *)
theory Message
  imports Common
begin

text \<open>
  \<open>src/Networking/message.h\<close>. A message is a header and a body of bytes used as a stack:
  \<open>operator<<\<close> copies the object representation of a value onto the end of the body,
  \<open>operator>>\<close> copies it back from the end and shrinks the body; both refresh
  \<open>header.bodySize\<close>. The class template has one instance in the program,
  \<open>Message<MessageTypes>\<close>. The operator templates are \<open>put\<close> and \<open>get\<close>, parametrised by
  the object representation of their \<open>DataType\<close>; the locale \<open>wire_codec\<close> states what a
  standard-layout type promises, and the stack laws are proved once from it.
\<close>

section \<open>State and operations\<close>

record msg_header =
  msg_id :: message_type
  body_size :: u32

record message =
  header :: msg_header
  body :: "byte list"

text \<open>\<open>T id{}\<close> is the enumerator with value 0.\<close>

definition new_message :: message where
  "new_message = \<lparr>header = \<lparr>msg_id = ServerValidation, body_size = 0\<rparr>, body = []\<rparr>"

definition message_of :: "message_type \<Rightarrow> message" where
  "message_of t = new_message\<lparr>header := (header new_message)\<lparr>msg_id := t\<rparr>\<rparr>"

abbreviation msg_type :: "message \<Rightarrow> message_type" where
  "msg_type m \<equiv> msg_id (header m)"

text \<open>\<open>GetBodySize\<close>, narrowed to \<open>uint32_t\<close> at its two uses.\<close>

definition GetBodySize :: "message \<Rightarrow> nat" where
  "GetBodySize m = length (body m)"

definition update_size :: "message \<Rightarrow> message" where
  "update_size m = m\<lparr>header := (header m)\<lparr>body_size := word_of_nat (GetBodySize m)\<rparr>\<rparr>"

text \<open>The byte level of the two operators: resize and \<open>memcpy\<close>.\<close>

definition msg_push :: "byte list \<Rightarrow> message \<Rightarrow> message" where
  "msg_push bs m = update_size (m\<lparr>body := body m @ bs\<rparr>)"

definition msg_pop :: "nat \<Rightarrow> message \<Rightarrow> (byte list \<times> message) res" where
  "msg_pop n m =
     (if length (body m) < n then Inl Short_Body
      else let i = length (body m) - n
           in Inr (drop i (body m), update_size (m\<lparr>body := take i (body m)\<rparr>)))"

definition put :: "('a \<Rightarrow> byte list) \<Rightarrow> 'a \<Rightarrow> message \<Rightarrow> message" where
  "put enc x m = msg_push (enc x) m"

definition get :: "(byte list \<Rightarrow> 'a) \<Rightarrow> nat \<Rightarrow> message \<Rightarrow> ('a \<times> message) res" where
  "get dec sz m = ebind (msg_pop sz m) (\<lambda>(bs, m'). Inr (dec bs, m'))"

text \<open>The loops \<open>for (x : xs) msg << x\<close> and \<open>n\<close> times \<open>msg >> x; xs.push_front(x)\<close>.\<close>

definition put_all :: "('a \<Rightarrow> byte list) \<Rightarrow> 'a list \<Rightarrow> message \<Rightarrow> message" where
  "put_all enc xs m = fold (put enc) xs m"

primrec get_front :: "(byte list \<Rightarrow> 'a) \<Rightarrow> nat \<Rightarrow> nat \<Rightarrow> 'a list \<Rightarrow> message
    \<Rightarrow> ('a list \<times> message) res" where
  "get_front dec sz 0 acc m = Inr (acc, m)"
| "get_front dec sz (Suc n) acc m =
     ebind (get dec sz m) (\<lambda>(x, m'). get_front dec sz n (x # acc) m')"

text \<open>\<open>operator<<\<close> on an output stream; \<open>int(id)\<close> is printed signed.\<close>

fun dec_digits :: "nat \<Rightarrow> string" where
  "dec_digits n =
     (if n < 10 then [char_of (48 + n)] else dec_digits (n div 10) @ [char_of (48 + n mod 10)])"

declare dec_digits.simps [simp del]

definition show_int :: "cint \<Rightarrow> string" where
  "show_int w = (if sint w < 0 then ''-'' @ dec_digits (nat (- sint w)) else dec_digits (nat (sint w)))"

definition show_message :: "message \<Rightarrow> string" where
  "show_message m = ''ID: '' @ show_int (type_code (msg_type m)) @ ''SIZE: ''
     @ dec_digits (unat (body_size (header m)))"

text \<open>\<open>OwnedMessage\<close>: the connection is named by its address, \<open>None\<close> is \<open>nullptr\<close>.\<close>

record owned_message =
  remote :: "nat option"
  omsg :: message

definition show_owned :: "owned_message \<Rightarrow> string" where
  "show_owned o' = show_message (omsg o')"

section \<open>The header agrees with the body\<close>

definition synced :: "message \<Rightarrow> bool" where
  "synced m \<longleftrightarrow> body_size (header m) = word_of_nat (length (body m))"

lemma synced_update_size [simp]: "synced (update_size m)"
  by (simp add: synced_def update_size_def GetBodySize_def)

lemma update_size_synced: "synced m \<Longrightarrow> update_size m = m"
  by (simp add: synced_def update_size_def GetBodySize_def)

lemma update_size_idem [simp]: "update_size (update_size m) = update_size m"
  by (simp add: update_size_synced)

lemma body_update_size [simp]: "body (update_size m) = body m"
  by (simp add: update_size_def)

lemma msg_type_update_size [simp]: "msg_type (update_size m) = msg_type m"
  by (simp add: update_size_def)

lemma synced_msg_push [simp]: "synced (msg_push bs m)"
  by (simp add: msg_push_def)

lemma body_msg_push [simp]: "body (msg_push bs m) = body m @ bs"
  by (simp add: msg_push_def)

lemma msg_type_msg_push [simp]: "msg_type (msg_push bs m) = msg_type m"
  by (simp add: msg_push_def)

lemma msg_pop_synced: "msg_pop n m = Inr (bs, m') \<Longrightarrow> synced m'"
  by (auto simp: msg_pop_def Let_def split: if_splits)

lemma msg_pop_append [simp]:
  assumes "length bs = n" and "body m = b @ bs"
  shows "msg_pop n m = Inr (bs, update_size (m\<lparr>body := b\<rparr>))"
  using assms by (simp add: msg_pop_def)

lemma synced_message_of [simp]: "synced (message_of t)"
  by (simp add: synced_def message_of_def new_message_def)

lemma body_message_of [simp]: "body (message_of t) = []"
  by (simp add: message_of_def new_message_def)

lemma msg_type_message_of [simp]: "msg_type (message_of t) = t"
  by (simp add: message_of_def)

lemma message_eqI: "header m = header m' \<Longrightarrow> body m = body m' \<Longrightarrow> m = (m' :: message)"
  by simp

lemma synced_eqI:
  "synced m \<Longrightarrow> synced m' \<Longrightarrow> msg_type m = msg_type m' \<Longrightarrow> body m = body m' \<Longrightarrow> m = m'"
  by (auto simp: synced_def intro!: message_eqI msg_header.equality)

lemma body_put [simp]: "body (put enc x m) = body m @ enc x"
  by (simp add: put_def)

lemma synced_put [simp]: "synced (put enc x m)"
  by (simp add: put_def)

lemma msg_type_put [simp]: "msg_type (put enc x m) = msg_type m"
  by (simp add: put_def)

lemma body_put_all [simp]: "body (put_all enc xs m) = body m @ concat (map enc xs)"
  unfolding put_all_def by (induction xs arbitrary: m) auto

lemma msg_type_put_all [simp]: "msg_type (put_all enc xs m) = msg_type m"
  unfolding put_all_def by (induction xs arbitrary: m) auto

lemma synced_put_all [simp]: "synced m \<Longrightarrow> synced (put_all enc xs m)"
  unfolding put_all_def by (induction xs arbitrary: m) auto

text \<open>What a message built with \<open>operator<<\<close> looks like after its last value was popped.\<close>

definition with_body :: "message \<Rightarrow> byte list \<Rightarrow> message" where
  "with_body m b = update_size (m\<lparr>body := b\<rparr>)"

lemma with_body_simps [simp]:
  "body (with_body m b) = b" "msg_type (with_body m b) = msg_type m" "synced (with_body m b)"
  by (simp_all add: with_body_def)

lemma with_body_twice [simp]: "with_body (with_body m b) b' = with_body m b'"
  by (simp add: with_body_def update_size_def GetBodySize_def)

lemma with_body_same: "synced m \<Longrightarrow> with_body m (body m) = m"
  by (simp add: with_body_def update_size_synced)

lemma get_short: "length (body m) < sz \<Longrightarrow> get dec sz m = Inl Short_Body"
  by (simp add: get_def msg_pop_def)

lemma get_cases:
  "get dec sz m =
     (if length (body m) < sz then Inl Short_Body
      else let i = length (body m) - sz
           in Inr (dec (drop i (body m)), with_body m (take i (body m))))"
  by (simp add: get_def msg_pop_def with_body_def Let_def)

lemma get_length: "get dec sz m = Inr (x, m') \<Longrightarrow> length (body m) = length (body m') + sz"
  by (auto simp: get_cases Let_def split: if_splits)

lemma get_synced: "get dec sz m = Inr (x, m') \<Longrightarrow> synced m'"
  by (auto simp: get_cases Let_def split: if_splits)

lemma get_front_length:
  "get_front dec sz n acc m = Inr (xs, m')
     \<Longrightarrow> length (body m) = length (body m') + n * sz \<and> length xs = n + length acc"
proof (induction n arbitrary: acc m)
  case 0
  then show ?case by simp
next
  case (Suc n)
  from Suc.prems obtain x m1 where
    "get dec sz m = Inr (x, m1)" "get_front dec sz n (x # acc) m1 = Inr (xs, m')"
    by auto
  with Suc.IH [of "x # acc" m1] get_length [of dec sz m x m1] show ?case by simp
qed

section \<open>The contract of a standard-layout type\<close>

locale wire_codec =
  fixes enc :: "'a \<Rightarrow> byte list"
    and dec :: "byte list \<Rightarrow> 'a"
    and sz :: nat
    and ok :: "'a \<Rightarrow> bool"
  assumes enc_length: "length (enc x) = sz"
    and dec_enc: "ok x \<Longrightarrow> dec (enc x) = x"
    and enc_dec: "length bs = sz \<Longrightarrow> enc (dec bs) = bs"
    and ok_dec: "length bs = sz \<Longrightarrow> ok (dec bs)"
begin

lemma get_enc: "ok x \<Longrightarrow> body m = b @ enc x \<Longrightarrow> get dec sz m = Inr (x, with_body m b)"
  by (simp add: get_cases enc_length dec_enc)

lemma get_put: "ok x \<Longrightarrow> synced m \<Longrightarrow> get dec sz (put enc x m) = Inr (x, m)"
  by (subst get_enc [where b = "body m"])
     (auto simp: with_body_def put_def msg_push_def update_size_def GetBodySize_def synced_def)

lemma get_front_enc:
  "list_all ok xs \<Longrightarrow> body m = b @ concat (map enc xs)
     \<Longrightarrow> get_front dec sz (length xs) acc m
         = Inr (xs @ acc, if xs = [] then m else with_body m b)"
proof (induction xs arbitrary: m acc rule: rev_induct)
  case Nil
  then show ?case by simp
next
  case (snoc x xs)
  have "get dec sz m = Inr (x, with_body m (b @ concat (map enc xs)))"
    using snoc.prems by (intro get_enc) auto
  then show ?case
    using snoc.IH [of "with_body m (b @ concat (map enc xs))" "x # acc"] snoc.prems
    by (cases "xs = []") auto
qed

lemma length_concat_enc: "length (concat (map enc xs)) = sz * length xs"
  by (induction xs) (simp_all add: enc_length)

lemma get_dec_put:
  assumes "synced m" and "get dec sz m = Inr (x, m')"
  shows "put enc x m' = m" and "ok x"
proof -
  let ?i = "length (body m) - sz"
  from assms(2) have le: "sz \<le> length (body m)" and x: "x = dec (drop ?i (body m))"
    and m': "m' = with_body m (take ?i (body m))"
    by (auto simp: get_cases Let_def split: if_splits)
  have len: "length (drop ?i (body m)) = sz" using le by simp
  show "ok x" unfolding x by (rule ok_dec [OF len])
  show "put enc x m' = m"
    by (rule synced_eqI) (simp_all add: assms(1) m' x enc_dec [OF len])
qed

end

interpretation u32: wire_codec enc_u32 dec_u32 4 "\<lambda>_. True"
  by unfold_locales (simp_all add: enc_dec_u32)

lemma enc_u32_ne: "enc_u32 w \<noteq> []"
  by (metis u32.enc_length list.size(3) zero_neq_numeral)

interpretation u64: wire_codec enc_u64 dec_u64 8 "\<lambda>_. True"
  by unfold_locales (simp_all add: enc_dec_u64)

end
