(* ===== verification/Queue.thy ===== *)
theory Queue
  imports Prelude
begin

text \<open>
  \<open>src/Networking/queue.h\<close>: the thread-safe queue. First its operations as one thread sees
  them, each a critical section of \<open>muxQueue\<close> (a deque is the list from its front); then the
  protocol of \<open>Wait\<close> against \<open>PushBack\<close> and \<open>PushFront\<close>, with every lock, notification and
  sleep a step of its own and any interleaving of one waiting thread with any number of pushing
  threads, which is how the server uses it (\<open>Update\<close> on the main thread, the connections'
  handlers on the asio thread).
\<close>

section \<open>Operations\<close>

type_synonym 'a queue = "'a list"

definition Front :: "'a queue \<Rightarrow> 'a res" where
  "Front q = front_of q"

definition Back :: "'a queue \<Rightarrow> 'a res" where
  "Back q = back_of q"

definition PopFront :: "'a queue \<Rightarrow> ('a \<times> 'a queue) res" where
  "PopFront q = (case q of [] \<Rightarrow> Inl Empty_Access | x # xs \<Rightarrow> Inr (x, xs))"

definition PopBack :: "'a queue \<Rightarrow> ('a \<times> 'a queue) res" where
  "PopBack q = (if q = [] then Inl Empty_Access else Inr (last q, butlast q))"

definition PushBack :: "'a \<Rightarrow> 'a queue \<Rightarrow> 'a queue" where
  "PushBack x q = q @ [x]"

definition PushFront :: "'a \<Rightarrow> 'a queue \<Rightarrow> 'a queue" where
  "PushFront x q = x # q"

definition IsEmpty :: "'a queue \<Rightarrow> bool" where
  "IsEmpty q = (q = [])"

definition Count :: "'a queue \<Rightarrow> nat" where
  "Count q = length q"

definition Clear :: "'a queue \<Rightarrow> 'a queue" where
  "Clear q = []"

section \<open>The contract its clients rely on\<close>

locale fifo_queue =
  fixes push :: "'a \<Rightarrow> 'q \<Rightarrow> 'q"
    and pop :: "'q \<Rightarrow> ('a \<times> 'q) res"
    and peek :: "'q \<Rightarrow> 'a res"
    and empty_q :: "'q \<Rightarrow> bool"
    and items_of :: "'q \<Rightarrow> 'a list"
  assumes items_push: "items_of (push x q) = items_of q @ [x]"
    and pop_cons: "items_of q = x # xs \<Longrightarrow> \<exists>q'. pop q = Inr (x, q') \<and> items_of q' = xs"
    and pop_nil: "items_of q = [] \<Longrightarrow> pop q = Inl Empty_Access"
    and empty_iff: "empty_q q \<longleftrightarrow> items_of q = []"
    and peek_eq: "peek q = front_of (items_of q)"
begin

lemma pop_Inr:
  assumes "pop q = Inr (x, q')"
  shows "items_of q = x # items_of q'"
proof (cases "items_of q")
  case Nil
  with assms show ?thesis by (simp add: pop_nil)
next
  case (Cons y ys)
  with assms pop_cons [OF Cons] show ?thesis by auto
qed

lemma pop_iff_not_empty: "(\<exists>r. pop q = Inr r) \<longleftrightarrow> \<not> empty_q q"
  using pop_cons [of q] pop_nil [of q] by (cases "items_of q") (auto simp: empty_iff)

lemma peek_then_pop:
  assumes "peek q = Inr x"
  shows "\<exists>q'. pop q = Inr (x, q') \<and> items_of q = x # items_of q'"
proof -
  from assms obtain xs where "items_of q = x # xs"
    by (auto simp: peek_eq front_of_Inr)
  with pop_cons [OF this] show ?thesis by auto
qed

lemma push_not_empty: "\<not> empty_q (push x q)"
  by (simp add: empty_iff items_push)

lemma peek_push: "peek (push x q) = (if empty_q q then Inr x else peek q)"
  by (cases "items_of q") (simp_all add: peek_eq items_push empty_iff)

end

interpretation qu: fifo_queue PushBack PopFront Front IsEmpty "\<lambda>q. q"
  by unfold_locales
     (auto simp: PushBack_def PopFront_def Front_def IsEmpty_def neq_Nil_conv split: list.splits)

lemma queue_simps [simp]:
  "PushBack x q = q @ [x]" "PushFront x q = x # q" "IsEmpty q \<longleftrightarrow> q = []" "Count q = length q"
  "Clear q = []" "Front q = front_of q" "Back q = back_of q"
  "PopFront [] = Inl Empty_Access" "PopFront (x # xs) = Inr (x, xs)"
  by (simp_all add: PushBack_def PushFront_def IsEmpty_def Count_def Clear_def Front_def
      Back_def PopFront_def)

section \<open>Wait against PushBack\<close>

text \<open>
  The waiting thread: \<open>C_Check\<close> is about to evaluate \<open>IsEmpty()\<close> in the loop condition of
  \<open>Wait\<close>, \<open>C_Gap\<close> has seen an empty queue and is about to construct \<open>ul(muxBlocking)\<close>,
  \<open>C_Hold\<close> holds it and is about to call \<open>cvBlocking.wait(ul)\<close>, \<open>C_Asleep\<close> sleeps in it,
  \<open>C_Woken\<close> has to reacquire the mutex, \<open>C_Reheld\<close> holds it until the end of the loop body.
  \<open>C_Ready\<close> has left \<open>Wait\<close> (or the condition of \<open>Update\<close>'s loop) and is about to call
  \<open>PopFront\<close>; \<open>C_Loop\<close> is about to evaluate the condition of \<open>Update\<close>'s loop.
  A pushing thread: \<open>P_Pushed\<close> holds \<open>muxQueue\<close> and has stored the element, \<open>P_Notify\<close>
  holds \<open>muxBlocking\<close> as well and is about to notify and to release both.
\<close>

datatype consumer_pc =
  C_Check | C_Gap | C_Hold | C_Asleep | C_Woken | C_Reheld | C_Ready | C_Loop

datatype producer_pc = P_Idle | P_Pushed | P_Notify

datatype thread_id = Consumer | Producer nat

record 'a qsys =
  items :: "'a list"
  mux_queue :: "thread_id option"
  mux_blocking :: "thread_id option"
  cpc :: consumer_pc
  ppc :: "nat \<Rightarrow> producer_pc"
  pushed :: "'a list"    \<comment> \<open>history: elements stored, in order\<close>
  popped :: "'a list"    \<comment> \<open>history: elements taken, in order\<close>

definition init_qsys :: "'a qsys" where
  "init_qsys = \<lparr>items = [], mux_queue = None, mux_blocking = None, cpc = C_Check,
     ppc = (\<lambda>_. P_Idle), pushed = [], popped = []\<rparr>"

datatype 'a qlabel =
    L_Push nat 'a | L_Lock nat | L_Notify nat
  | L_Check | L_Hold | L_Sleep | L_Spurious | L_Rehold | L_Unlock | L_Pop | L_Loop

inductive qstep :: "'a qlabel \<Rightarrow> 'a qsys \<Rightarrow> 'a qsys \<Rightarrow> bool" where
  push: "ppc s i = P_Idle \<Longrightarrow> mux_queue s = None \<Longrightarrow>
    qstep (L_Push i x) s (s\<lparr>items := PushBack x (items s), pushed := pushed s @ [x],
      mux_queue := Some (Producer i), ppc := (ppc s)(i := P_Pushed)\<rparr>)"
| lock: "ppc s i = P_Pushed \<Longrightarrow> mux_blocking s = None \<Longrightarrow>
    qstep (L_Lock i) s (s\<lparr>mux_blocking := Some (Producer i), ppc := (ppc s)(i := P_Notify)\<rparr>)"
| notify: "ppc s i = P_Notify \<Longrightarrow>
    qstep (L_Notify i) s (s\<lparr>cpc := (if cpc s = C_Asleep then C_Woken else cpc s),
      mux_blocking := None, mux_queue := None, ppc := (ppc s)(i := P_Idle)\<rparr>)"
| check: "cpc s = C_Check \<Longrightarrow> mux_queue s = None \<Longrightarrow>
    qstep L_Check s (s\<lparr>cpc := (if IsEmpty (items s) then C_Gap else C_Ready)\<rparr>)"
| hold: "cpc s = C_Gap \<Longrightarrow> mux_blocking s = None \<Longrightarrow>
    qstep L_Hold s (s\<lparr>cpc := C_Hold, mux_blocking := Some Consumer\<rparr>)"
| sleep: "cpc s = C_Hold \<Longrightarrow>
    qstep L_Sleep s (s\<lparr>cpc := C_Asleep, mux_blocking := None\<rparr>)"
| spurious: "cpc s = C_Asleep \<Longrightarrow> qstep L_Spurious s (s\<lparr>cpc := C_Woken\<rparr>)"
| rehold: "cpc s = C_Woken \<Longrightarrow> mux_blocking s = None \<Longrightarrow>
    qstep L_Rehold s (s\<lparr>cpc := C_Reheld, mux_blocking := Some Consumer\<rparr>)"
| unlock: "cpc s = C_Reheld \<Longrightarrow>
    qstep L_Unlock s (s\<lparr>cpc := C_Check, mux_blocking := None\<rparr>)"
| pop: "cpc s = C_Ready \<Longrightarrow> mux_queue s = None \<Longrightarrow> PopFront (items s) = Inr (x, xs) \<Longrightarrow>
    qstep L_Pop s (s\<lparr>cpc := C_Loop, items := xs, popped := popped s @ [x]\<rparr>)"
| loop: "cpc s = C_Loop \<Longrightarrow> mux_queue s = None \<Longrightarrow>
    qstep L_Loop s (s\<lparr>cpc := (if IsEmpty (items s) then C_Check else C_Ready)\<rparr>)"

inductive_cases qstep_SpuriousE: "qstep L_Spurious s t"
inductive_cases qstep_LockE: "qstep (L_Lock i) s t"

inductive qreach :: "'a qsys \<Rightarrow> bool" where
  init: "qreach init_qsys"
| step: "qreach s \<Longrightarrow> qstep l s t \<Longrightarrow> qreach t"

text \<open>Who holds what, and what the histories say.\<close>

definition q_inv :: "'a qsys \<Rightarrow> bool" where
  "q_inv s \<longleftrightarrow>
     (\<forall>i. mux_queue s = Some (Producer i) \<longleftrightarrow> ppc s i \<noteq> P_Idle)
   \<and> mux_queue s \<noteq> Some Consumer
   \<and> (\<forall>i. mux_blocking s = Some (Producer i) \<longleftrightarrow> ppc s i = P_Notify)
   \<and> (mux_blocking s = Some Consumer \<longleftrightarrow> cpc s = C_Hold \<or> cpc s = C_Reheld)
   \<and> (cpc s = C_Ready \<longrightarrow> items s \<noteq> [])
   \<and> pushed s = popped s @ items s"

lemma q_inv_init: "q_inv init_qsys"
  by (simp add: q_inv_def init_qsys_def)

lemma q_inv_step: "qstep l s t \<Longrightarrow> q_inv s \<Longrightarrow> q_inv t"
proof (induction rule: qstep.induct)
  case (push s i x)
  then show ?case by (auto simp: q_inv_def)
next
  case (lock s i)
  then show ?case by (auto simp: q_inv_def)
next
  case (notify s i)
  then have "mux_queue s = Some (Producer i)" "mux_blocking s = Some (Producer i)"
    by (auto simp: q_inv_def)
  moreover from this notify have "\<forall>j. j \<noteq> i \<longrightarrow> ppc s j = P_Idle"
    unfolding q_inv_def by (metis option.inject thread_id.inject)
  ultimately show ?case using notify by (simp add: q_inv_def)
next
  case (pop s x xs)
  then show ?case by (auto simp: q_inv_def PopFront_def split: list.splits)
qed (auto simp: q_inv_def)

lemma qreach_inv: "qreach s \<Longrightarrow> q_inv s"
  by (induction rule: qreach.induct) (auto intro: q_inv_init q_inv_step)

text \<open>C14: The queue is first-in first-out under every interleaving: what the waiting thread has
  popped, followed by what is stored, is exactly what the other threads have pushed, in the
  order in which they held \<open>muxQueue\<close>; and it never pops an empty deque.\<close>

theorem queue_fifo:
  assumes "qreach s"
  shows "pushed s = popped s @ items s \<and> (cpc s = C_Ready \<longrightarrow> items s \<noteq> [])"
  using qreach_inv [OF assms] by (simp add: q_inv_def)

theorem queue_fifo_witness:
  "\<exists>s :: nat qsys. qreach s \<and> items s = [5] \<and> pushed s = popped s @ items s"
proof -
  have "qstep (L_Push 0 5) init_qsys (init_qsys\<lparr>items := [5], pushed := [5],
      mux_queue := Some (Producer 0), ppc := (\<lambda>_. P_Idle)(0 := P_Pushed)\<rparr> :: nat qsys)"
    using qstep.push [of "init_qsys :: nat qsys" 0 5] by (simp add: init_qsys_def)
  from qreach.step [OF qreach.init this] queue_fifo [OF qreach.step [OF qreach.init this]]
  show ?thesis
    by (intro exI [where x = "init_qsys\<lparr>items := [5], pushed := [5],
      mux_queue := Some (Producer 0), ppc := (\<lambda>_. P_Idle)(0 := P_Pushed)\<rparr>"]) simp
qed

lemma producer_progress:
  assumes inv: "q_inv s" and i: "ppc s i \<noteq> P_Idle"
  shows "\<exists>l t. qstep l s t \<and> l \<in> {L_Lock i, L_Notify i, L_Sleep, L_Unlock}"
proof (cases "ppc s i = P_Notify")
  case True
  from qstep.notify [OF this] show ?thesis by blast
next
  case False
  with i have i': "ppc s i = P_Pushed" by (cases "ppc s i") auto
  show ?thesis
  proof (cases "mux_blocking s")
    case None
    from qstep.lock [OF i' None] show ?thesis by blast
  next
    case (Some h)
    show ?thesis
    proof (cases h)
      case Consumer
      with Some inv have "cpc s = C_Hold \<or> cpc s = C_Reheld" by (simp add: q_inv_def)
      then show ?thesis using qstep.sleep [of s] qstep.unlock [of s] by blast
    next
      case (Producer j)
      with Some inv have "ppc s j = P_Notify" unfolding q_inv_def by blast
      moreover from this inv have "mux_queue s = Some (Producer j)" by (simp add: q_inv_def)
      ultimately have "j = i" using inv i by (auto simp: q_inv_def)
      with \<open>ppc s j = P_Notify\<close> i' show ?thesis by simp
    qed
  qed
qed

lemma consumer_progress:
  assumes inv: "q_inv s" and idle: "\<forall>i. ppc s i = P_Idle" and c: "cpc s \<noteq> C_Asleep"
  shows "\<exists>l t. qstep l s t \<and> l \<in> {L_Check, L_Hold, L_Sleep, L_Rehold, L_Unlock, L_Pop, L_Loop}"
proof -
  have mq: "mux_queue s = None"
    using inv idle unfolding q_inv_def by (metis not_None_eq thread_id.exhaust)
  have mb: "mux_blocking s = None \<or> mux_blocking s = Some Consumer"
    using inv idle unfolding q_inv_def
    by (metis not_None_eq producer_pc.distinct(3) thread_id.exhaust)
  show ?thesis
  proof (cases "cpc s")
    case C_Check
    from qstep.check [OF this mq] show ?thesis by blast
  next
    case C_Gap
    with mb inv have "mux_blocking s = None" by (auto simp: q_inv_def)
    from qstep.hold [OF C_Gap this] show ?thesis by blast
  next
    case C_Hold
    from qstep.sleep [OF this] show ?thesis by blast
  next
    case C_Asleep
    with c show ?thesis by simp
  next
    case C_Woken
    with mb inv have "mux_blocking s = None" by (auto simp: q_inv_def)
    from qstep.rehold [OF C_Woken this] show ?thesis by blast
  next
    case C_Reheld
    from qstep.unlock [OF this] show ?thesis by blast
  next
    case C_Ready
    with inv obtain x xs where "items s = x # xs"
      by (cases "items s") (auto simp: q_inv_def)
    then have "PopFront (items s) = Inr (x, xs)" by simp
    from qstep.pop [OF C_Ready mq this] show ?thesis by blast
  next
    case C_Loop
    from qstep.loop [OF this mq] show ?thesis by blast
  qed
qed

fun own_step :: "'a qlabel \<Rightarrow> bool" where
  "own_step (L_Push i x) = False"
| "own_step L_Spurious = False"
| "own_step _ = True"

text \<open>No deadlock: whenever some thread is inside \<open>PushBack\<close>, or the consumer is not asleep
  in \<open>cvBlocking.wait\<close>, one of the threads can take a step of its own, without a new
  \<open>PushBack\<close> and without a spurious wake-up.\<close>

lemma queue_no_deadlock:
  assumes "qreach s" and "cpc s \<noteq> C_Asleep \<or> (\<exists>i. ppc s i \<noteq> P_Idle)"
  shows "\<exists>l t. qstep l s t \<and> own_step l"
proof (cases "\<exists>i. ppc s i \<noteq> P_Idle")
  case True
  then obtain i where "ppc s i \<noteq> P_Idle" by blast
  from producer_progress [OF qreach_inv [OF assms(1)] this] show ?thesis by auto
next
  case False
  with assms(2) have "cpc s \<noteq> C_Asleep" by blast
  from consumer_progress [OF qreach_inv [OF assms(1)] _ this] False show ?thesis by auto
qed

lemma queue_no_deadlock_example:
  "\<exists>l t. qstep l (init_qsys :: nat qsys) t \<and> own_step l"
  by (rule queue_no_deadlock [OF qreach.init]) (simp add: init_qsys_def)

text \<open>The run of the lost wake-up: the push falls between \<open>IsEmpty()\<close> and the sleep.\<close>

definition lost_state :: "'a \<Rightarrow> 'a qsys" where
  "lost_state x = init_qsys\<lparr>items := [x], pushed := [x], cpc := C_Asleep\<rparr>"

lemma lost_state_reachable: "qreach (lost_state x)"
proof -
  let ?s1 = "init_qsys\<lparr>cpc := C_Gap\<rparr> :: 'a qsys"
  let ?s2 = "?s1\<lparr>items := [x], pushed := [x], mux_queue := Some (Producer 0),
     ppc := (\<lambda>_. P_Idle)(0 := P_Pushed)\<rparr>"
  let ?s3 = "?s2\<lparr>mux_blocking := Some (Producer 0), ppc := (\<lambda>_. P_Idle)(0 := P_Notify)\<rparr>"
  let ?s4 = "?s1\<lparr>items := [x], pushed := [x]\<rparr>"
  let ?s5 = "?s4\<lparr>cpc := C_Hold, mux_blocking := Some Consumer\<rparr>"
  have "qstep L_Check init_qsys ?s1"
    using qstep.check [of "init_qsys :: 'a qsys"] by (simp add: init_qsys_def)
  then have r1: "qreach ?s1" by (rule qreach.step [OF qreach.init])
  have "qstep (L_Push 0 x) ?s1 ?s2"
    using qstep.push [of ?s1 0 x] by (simp add: init_qsys_def)
  then have r2: "qreach ?s2" by (rule qreach.step [OF r1])
  have "qstep (L_Lock 0) ?s2 ?s3"
    using qstep.lock [of ?s2 0] by (simp add: init_qsys_def)
  then have r3: "qreach ?s3" by (rule qreach.step [OF r2])
  have "qstep (L_Notify 0) ?s3 ?s4"
    using qstep.notify [of ?s3 0] by (simp add: init_qsys_def fun_upd_idem)
  then have r4: "qreach ?s4" by (rule qreach.step [OF r3])
  have "qstep L_Hold ?s4 ?s5"
    using qstep.hold [of ?s4] by (simp add: init_qsys_def)
  then have r5: "qreach ?s5" by (rule qreach.step [OF r4])
  have "qstep L_Sleep ?s5 (lost_state x)"
    using qstep.sleep [of ?s5] by (simp add: init_qsys_def lost_state_def)
  then show ?thesis by (rule qreach.step [OF r5])
qed

text \<open>C21: A wake-up can be lost. There is a reachable state in which a message is stored, no push
  is in progress, and the consumer sleeps in \<open>Wait\<close>; in it only a spurious wake-up or a further
  push can happen, so the message is not processed until then: \<open>Wait\<close> tests \<open>IsEmpty()\<close>
  before it takes \<open>muxBlocking\<close>.\<close>

theorem queue_lost_wakeup:
  "\<exists>s :: nat qsys. qreach s \<and> items s \<noteq> [] \<and> cpc s = C_Asleep \<and> (\<forall>i. ppc s i = P_Idle)
     \<and> \<not> (\<exists>l t. qstep l s t \<and> own_step l)"
proof (intro exI conjI)
  show "qreach (lost_state 0 :: nat qsys)" by (rule lost_state_reachable)
  show "\<not> (\<exists>l t. qstep l (lost_state 0 :: nat qsys) t \<and> own_step l)"
    by (auto simp: lost_state_def init_qsys_def elim!: qstep.cases)
qed (simp_all add: lost_state_def init_qsys_def)

end
