(* ===== verification/Connection.thy ===== *)
theory Connection
  imports Message Queue "HOL-Library.Sublist"
begin

unbundle bit_operations_syntax

text \<open>
  \<open>src/Networking/connection.h\<close>: one end of a TCP connection. Asio appears here as
  an environment that completes the operations the code starts (\<open>Asio_Stack\<close> shows that it does): \<open>tasks\<close> holds the
  lambdas given to \<open>asio::post\<close> that have not run yet, \<open>reads\<close> and \<open>writes\<close> the
  asynchronous operations in flight, and a handler \<open>on_Op\<close> is the lambda the code passes to
  the operation. A failed operation reports an error code; a successful \<open>async_read\<close> reports
  exactly the bytes that fill its buffer; a successful \<open>async_write\<close> has written its whole
  buffer, a failed one any number of leading bytes of it. \<open>wire\<close> is the history of the bytes
  written to the socket.
\<close>

section \<open>State\<close>

datatype owner = O_Server | O_Client

datatype task = T_Send message | T_Close

datatype read_op = R_Validation | R_Header | R_Body

datatype write_op = W_Validation | W_Header | W_Body

record connection =
  owner_type :: owner
  sock_open :: bool
  connecting :: bool
  tasks :: "task list"
  reads :: "read_op list"
  writes :: "write_op list"
  wire :: "byte list"
  q_out :: "message queue"
  tmp_in :: message
  conn_id :: u32
  hs_out :: u64
  hs_in :: u64
  hs_check :: u64

section \<open>Handshake arithmetic\<close>

definition Scramble :: "u64 \<Rightarrow> u64" where
  "Scramble input =
     (let out = input XOR 0xDEADBEEFC0DECAFE;
          out = drop_bit 4 (out AND 0xF0F0F0F0F0F0F0) OR push_bit 4 (out AND 0x0F0F0F0F0F0F0F)
      in out XOR 0xC0DEFACE12345678)"

section \<open>Operations\<close>

text \<open>The constructor; \<open>now\<close> is the clock reading, \<open>is_open\<close> the state of the given socket.\<close>

definition new_connection :: "owner \<Rightarrow> bool \<Rightarrow> u64 \<Rightarrow> connection" where
  "new_connection parent is_open now =
     (let k = \<lparr>owner_type = parent, sock_open = is_open, connecting = False, tasks = [],
        reads = [], writes = [], wire = [], q_out = [], tmp_in = new_message, conn_id = 0,
        hs_out = 0, hs_in = 0, hs_check = 0\<rparr>
      in if parent \<noteq> O_Server then k else k\<lparr>hs_out := now, hs_check := Scramble now\<rparr>)"

definition GetID :: "connection \<Rightarrow> u32" where
  "GetID k = conn_id k"

definition IsConnected :: "connection \<Rightarrow> bool" where
  "IsConnected k = sock_open k"

definition close_socket :: "connection \<Rightarrow> connection" where
  "close_socket k = k\<lparr>sock_open := False\<rparr>"

definition Disconnect :: "connection \<Rightarrow> connection" where
  "Disconnect k = (if \<not> IsConnected k then k else k\<lparr>tasks := tasks k @ [T_Close]\<rparr>)"

definition Send :: "message \<Rightarrow> connection \<Rightarrow> connection" where
  "Send m k = k\<lparr>tasks := tasks k @ [T_Send m]\<rparr>"

text \<open>Starting an operation; \<open>Front()\<close> is evaluated for the address of the buffer.\<close>

definition ReadHeader :: "connection \<Rightarrow> connection" where
  "ReadHeader k = k\<lparr>reads := reads k @ [R_Header]\<rparr>"

definition ReadBody :: "connection \<Rightarrow> connection" where
  "ReadBody k = k\<lparr>reads := reads k @ [R_Body]\<rparr>"

definition ReadValidation :: "connection \<Rightarrow> connection" where
  "ReadValidation k = k\<lparr>reads := reads k @ [R_Validation]\<rparr>"

definition WriteHeader :: "connection \<Rightarrow> connection res" where
  "WriteHeader k = ebind (Front (q_out k)) (\<lambda>_. Inr (k\<lparr>writes := writes k @ [W_Header]\<rparr>))"

definition WriteBody :: "connection \<Rightarrow> connection res" where
  "WriteBody k = ebind (Front (q_out k)) (\<lambda>_. Inr (k\<lparr>writes := writes k @ [W_Body]\<rparr>))"

definition WriteValidation :: "connection \<Rightarrow> connection" where
  "WriteValidation k = k\<lparr>writes := writes k @ [W_Validation]\<rparr>"

definition ConnectToClient :: "u32 \<Rightarrow> connection \<Rightarrow> connection" where
  "ConnectToClient uid k =
     (if owner_type k \<noteq> O_Server \<or> \<not> sock_open k then k
      else ReadValidation (WriteValidation (k\<lparr>conn_id := uid\<rparr>)))"

text \<open>\<open>async_connect\<close> opens the socket at once; \<open>opened\<close> says whether it could.\<close>

definition ConnectToServer :: "bool \<Rightarrow> connection \<Rightarrow> connection" where
  "ConnectToServer opened k =
     (if owner_type k \<noteq> O_Client then k else k\<lparr>connecting := True, sock_open := opened\<rparr>)"

text \<open>Completion of \<open>async_connect\<close>: both branches only print; \<open>is_open\<close> is what asio left.\<close>

definition on_connect :: "bool \<Rightarrow> bool \<Rightarrow> connection \<Rightarrow> connection" where
  "on_connect ec is_open k = ReadValidation (k\<lparr>connecting := False, sock_open := is_open\<rparr>)"

text \<open>The lambdas of \<open>Send\<close> and \<open>Disconnect\<close>, run in the order they were posted.\<close>

definition run_task :: "connection \<Rightarrow> connection res" where
  "run_task k =
     (case tasks k of
        [] \<Rightarrow> Inr k
      | T_Send msg # ts \<Rightarrow>
          let k1 = k\<lparr>tasks := ts\<rparr>;
              writingMessage = (\<not> IsEmpty (q_out k1));
              k2 = k1\<lparr>q_out := PushBack msg (q_out k1)\<rparr>
          in if \<not> writingMessage then WriteHeader k2 else Inr k2
      | T_Close # ts \<Rightarrow> Inr (close_socket (k\<lparr>tasks := ts\<rparr>)))"

definition enc_header :: "msg_header \<Rightarrow> byte list" where
  "enc_header h = enc_u32 (type_code (msg_id h)) @ enc_u32 (body_size h)"

definition dec_header :: "byte list \<Rightarrow> msg_header" where
  "dec_header bs = \<lparr>msg_id = type_of_code (dec_u32 (take 4 bs)), body_size = dec_u32 (drop 4 bs)\<rparr>"

interpretation hdr: wire_codec enc_header dec_header 8 "\<lambda>h. canonical_type (msg_id h)"
  by unfold_locales (simp_all add: enc_header_def dec_header_def enc_dec_u32)

text \<open>
  The handlers of the writes. An error \<open>Some n\<close> is a failed write that has transferred
  \<open>n\<close> bytes of its buffer.
\<close>

definition sent_part :: "nat \<Rightarrow> (message \<Rightarrow> byte list) \<Rightarrow> message queue \<Rightarrow> byte list" where
  "sent_part n buf q = (case q of [] \<Rightarrow> [] | m # _ \<Rightarrow> take n (buf m))"

definition pop_and_continue :: "connection \<Rightarrow> connection res" where
  "pop_and_continue k =
     ebind (PopFront (q_out k)) (\<lambda>(_, q).
       let k' = k\<lparr>q_out := q\<rparr>
       in if \<not> IsEmpty (q_out k') then WriteHeader k' else Inr k')"

definition on_WriteHeader :: "nat option \<Rightarrow> connection \<Rightarrow> connection res" where
  "on_WriteHeader ec k0 =
     (let k = k0\<lparr>writes := remove1 W_Header (writes k0)\<rparr>
      in case ec of
        Some n \<Rightarrow> Inr (close_socket
          (k\<lparr>wire := wire k @ sent_part n (\<lambda>m. enc_header (header m)) (q_out k)\<rparr>))
      | None \<Rightarrow> ebind (Front (q_out k)) (\<lambda>m.
          let k1 = k\<lparr>wire := wire k @ enc_header (header m)\<rparr>
          in if 0 < GetBodySize m then WriteBody k1 else pop_and_continue k1))"

definition on_WriteBody :: "nat option \<Rightarrow> connection \<Rightarrow> connection res" where
  "on_WriteBody ec k0 =
     (let k = k0\<lparr>writes := remove1 W_Body (writes k0)\<rparr>
      in case ec of
        Some n \<Rightarrow> Inr (close_socket (k\<lparr>wire := wire k @ sent_part n body (q_out k)\<rparr>))
      | None \<Rightarrow> ebind (Front (q_out k)) (\<lambda>m.
          pop_and_continue (k\<lparr>wire := wire k @ body m\<rparr>)))"

definition on_WriteValidation :: "nat option \<Rightarrow> connection \<Rightarrow> connection" where
  "on_WriteValidation ec k0 =
     (let k = k0\<lparr>writes := remove1 W_Validation (writes k0)\<rparr>
      in case ec of
        Some n \<Rightarrow> close_socket (k\<lparr>wire := wire k @ take n (enc_u64 (hs_out k))\<rparr>)
      | None \<Rightarrow>
          let k1 = k\<lparr>wire := wire k @ enc_u64 (hs_out k)\<rparr>
          in if owner_type k1 = O_Client then ReadHeader k1 else k1)"

text \<open>The handlers of the reads: \<open>None\<close> is an error, \<open>Some bs\<close> the bytes of the full buffer.\<close>

definition resize :: "nat \<Rightarrow> byte list \<Rightarrow> byte list" where
  "resize n bs = take n bs @ replicate (n - length bs) 0"

definition AddToIncomingMessageQueue ::
    "nat \<Rightarrow> connection \<times> owned_message queue \<Rightarrow> connection \<times> owned_message queue" where
  "AddToIncomingMessageQueue self kq =
     (let (k, q) = kq;
          q' = (if owner_type k = O_Server
                then PushBack \<lparr>remote = Some self, omsg = tmp_in k\<rparr> q
                else PushBack \<lparr>remote = None, omsg = tmp_in k\<rparr> q)
      in (ReadHeader k, q'))"

definition on_ReadHeader ::
    "nat \<Rightarrow> byte list option \<Rightarrow> connection \<times> owned_message queue
     \<Rightarrow> connection \<times> owned_message queue" where
  "on_ReadHeader self r kq =
     (let (k0, q) = kq; k = k0\<lparr>reads := remove1 R_Header (reads k0)\<rparr>
      in case r of
        None \<Rightarrow> (close_socket k, q)
      | Some bs \<Rightarrow>
          let k1 = k\<lparr>tmp_in := (tmp_in k)\<lparr>header := dec_header bs\<rparr>\<rparr>
          in if 0 < body_size (header (tmp_in k1))
             then (ReadBody (k1\<lparr>tmp_in := (tmp_in k1)\<lparr>body :=
                     resize (unat (body_size (header (tmp_in k1)))) (body (tmp_in k1))\<rparr>\<rparr>), q)
             else AddToIncomingMessageQueue self (k1, q))"

definition on_ReadBody ::
    "nat \<Rightarrow> byte list option \<Rightarrow> connection \<times> owned_message queue
     \<Rightarrow> connection \<times> owned_message queue" where
  "on_ReadBody self r kq =
     (let (k0, q) = kq; k = k0\<lparr>reads := remove1 R_Body (reads k0)\<rparr>
      in case r of
        None \<Rightarrow> (close_socket k, q)
      | Some bs \<Rightarrow> AddToIncomingMessageQueue self (k\<lparr>tmp_in := (tmp_in k)\<lparr>body := bs\<rparr>\<rparr>, q))"

text \<open>
  The handler of \<open>ReadValidation\<close>. On the server a correct answer makes the code call
  \<open>server->OnClientValidated\<close> and then \<open>ReadHeader\<close>: \<open>V_Accepted\<close> hands these two to
  the server's model, which owns the state \<open>OnClientValidated\<close> changes.
\<close>

datatype validation = V_Closed connection | V_Accepted connection | V_Answered connection

definition on_ReadValidation :: "byte list option \<Rightarrow> connection \<Rightarrow> validation" where
  "on_ReadValidation r k0 =
     (let k = k0\<lparr>reads := remove1 R_Validation (reads k0)\<rparr>
      in case r of
        None \<Rightarrow> V_Closed (close_socket k)
      | Some bs \<Rightarrow>
          let k1 = k\<lparr>hs_in := dec_u64 bs\<rparr>
          in if owner_type k1 = O_Server
             then (if hs_in k1 \<noteq> hs_check k1 then V_Closed (close_socket k1) else V_Accepted k1)
             else V_Answered (WriteValidation (k1\<lparr>hs_out := Scramble (hs_in k1)\<rparr>)))"

end
