(* ===== verification/Connection_Write.thy ===== *)
theory Connection_Write
  imports Connection
begin

text \<open>
  The write side of a connection as a step relation: calls of \<open>Send\<close> and \<open>Disconnect\<close> from
  any thread, posted lambdas run by the asio thread, and completions of the header and body
  writes, in any order and with or without errors. The main result is a refinement: whatever
  happens, the bytes on the wire are a prefix of the frames of the messages in the order in
  which they were sent, and all of them once the connection is idle and still open.
\<close>

section \<open>Frames and steps\<close>

definition frame_bytes :: "message \<Rightarrow> byte list" where
  "frame_bytes m = enc_header (header m) @ body m"

definition frames :: "message list \<Rightarrow> byte list" where
  "frames ms = concat (map frame_bytes ms)"

lemma frames_simps [simp]:
  "frames [] = []" "frames (m # ms) = frame_bytes m @ frames ms"
  "frames (ms @ ns) = frames ms @ frames ns"
  by (simp_all add: frames_def)

lemma length_enc_header [simp, codec]: "length (enc_header h) = 8"
  by (rule hdr.enc_length)

text \<open>
  \<open>wreach k0 ms k\<close>: from \<open>k0\<close> the connection can come to \<open>k\<close> with \<open>ms\<close> given to \<open>Send\<close>. The write of the
  handshake has no step: \<open>k0\<close> is a connection past the handshake. \<open>Asio_Overlap\<close> has what can happen
  before, when the two kinds of writes overlap.
\<close>

inductive wreach :: "connection \<Rightarrow> message list \<Rightarrow> connection \<Rightarrow> bool" for k0 where
  start: "wreach k0 [] k0"
| send: "wreach k0 ms k \<Longrightarrow> wreach k0 (ms @ [m]) (Send m k)"
| disconnect: "wreach k0 ms k \<Longrightarrow> wreach k0 ms (Disconnect k)"
| task: "wreach k0 ms k \<Longrightarrow> run_task k = Inr k' \<Longrightarrow> wreach k0 ms k'"
| header: "wreach k0 ms k \<Longrightarrow> W_Header \<in> set (writes k) \<Longrightarrow> on_WriteHeader ec k = Inr k'
    \<Longrightarrow> wreach k0 ms k'"
| body: "wreach k0 ms k \<Longrightarrow> W_Body \<in> set (writes k) \<Longrightarrow> on_WriteBody ec k = Inr k'
    \<Longrightarrow> wreach k0 ms k'"

definition write_idle :: "connection \<Rightarrow> bool" where
  "write_idle k \<longleftrightarrow> tasks k = [] \<and> writes k = [] \<and> q_out k = []"

fun task_messages :: "task list \<Rightarrow> message list" where
  "task_messages [] = []"
| "task_messages (T_Send m # ts) = m # task_messages ts"
| "task_messages (T_Close # ts) = task_messages ts"

lemma task_messages_append [simp]:
  "task_messages (ts @ us) = task_messages ts @ task_messages us"
  by (induction ts rule: task_messages.induct) simp_all

text \<open>
  The invariant: at most one write is in flight; \<open>part\<close> is what of the front message is on
  the wire already.
\<close>

definition write_phase :: "connection \<Rightarrow> byte list \<Rightarrow> bool" where
  "write_phase k part \<longleftrightarrow>
     (writes k = [] \<and> (q_out k = [] \<longrightarrow> part = []) \<and> (sock_open k \<longrightarrow> q_out k = [])
        \<and> (\<forall>m ms. q_out k = m # ms \<longrightarrow> prefix part (frame_bytes m)))
   \<or> (writes k = [W_Header] \<and> q_out k \<noteq> [] \<and> part = [])
   \<or> (writes k = [W_Body] \<and> (\<exists>m ms. q_out k = m # ms \<and> part = enc_header (header m)))"

definition write_inv :: "byte list \<Rightarrow> message list \<Rightarrow> connection \<Rightarrow> bool" where
  "write_inv w0 ms k \<longleftrightarrow> (\<exists>sent part.
     ms = sent @ q_out k @ task_messages (tasks k)
   \<and> wire k = w0 @ frames sent @ part \<and> write_phase k part)"

lemma write_phase_cases:
  assumes "write_phase k part"
  obtains (idle) "writes k = []" "q_out k = []" "part = []"
  | (failed) m ms where "writes k = []" "q_out k = m # ms" "\<not> sock_open k"
      "prefix part (frame_bytes m)"
  | (in_header) m ms where "writes k = [W_Header]" "q_out k = m # ms" "part = []"
  | (in_body) m ms where "writes k = [W_Body]" "q_out k = m # ms" "part = enc_header (header m)"
  using assms by (cases "q_out k") (auto simp: write_phase_def)

lemma pop_and_continue_cons:
  assumes "q_out k = m # ms"
  shows "pop_and_continue k = Inr (k\<lparr>q_out := ms,
     writes := writes k @ (if ms = [] then [] else [W_Header])\<rparr>)"
  using assms by (cases ms) (simp_all add: pop_and_continue_def WriteHeader_def Let_def)

lemma write_phase_popped:
  "writes k = [] \<Longrightarrow> write_phase (k\<lparr>q_out := ms, writes := (if ms = [] then [] else [W_Header])\<rparr>) []"
  by (simp add: write_phase_def)

lemma write_inv_task:
  assumes "write_inv w0 ms k"
  shows "\<exists>k'. run_task k = Inr k' \<and> write_inv w0 ms k'"
proof -
  obtain sent part where inv: "ms = sent @ q_out k @ task_messages (tasks k)"
    "wire k = w0 @ frames sent @ part" "write_phase k part"
    using assms by (auto simp: write_inv_def)
  show ?thesis
  proof (cases "tasks k" rule: task_messages.cases)
    case 1
    with assms show ?thesis by (simp add: run_task_def)
  next
    case (2 m ts)
    from inv(3) show ?thesis
    proof (cases rule: write_phase_cases)
      case idle
      with 2 inv have "write_phase (k\<lparr>tasks := ts, q_out := [m], writes := [W_Header]\<rparr>) []"
        by (simp add: write_phase_def)
      with 2 inv idle show ?thesis
        by (auto simp: run_task_def WriteHeader_def Let_def write_inv_def)
    next
      case (failed n ns)
      with 2 inv have "write_phase (k\<lparr>tasks := ts, q_out := q_out k @ [m]\<rparr>) part"
        by (auto simp: write_phase_def)
      with 2 inv failed show ?thesis
        by (auto simp: run_task_def Let_def write_inv_def)
    next
      case (in_header n ns)
      with 2 inv have "write_phase (k\<lparr>tasks := ts, q_out := q_out k @ [m]\<rparr>) part"
        by (auto simp: write_phase_def)
      with 2 inv in_header show ?thesis
        by (auto simp: run_task_def Let_def write_inv_def)
    next
      case (in_body n ns)
      with 2 inv have "write_phase (k\<lparr>tasks := ts, q_out := q_out k @ [m]\<rparr>) part"
        by (auto simp: write_phase_def)
      with 2 inv in_body show ?thesis
        by (auto simp: run_task_def Let_def write_inv_def)
    qed
  next
    case (3 ts)
    with inv have "write_phase (close_socket (k\<lparr>tasks := ts\<rparr>)) part"
      by (auto simp: write_phase_def close_socket_def)
    with 3 inv show ?thesis
      by (auto simp: run_task_def write_inv_def close_socket_def)
  qed
qed

lemma write_inv_header:
  assumes "write_inv w0 ms k" and "W_Header \<in> set (writes k)"
  shows "\<exists>k'. on_WriteHeader ec k = Inr k' \<and> write_inv w0 ms k'"
proof -
  obtain sent part where inv: "ms = sent @ q_out k @ task_messages (tasks k)"
    "wire k = w0 @ frames sent @ part" "write_phase k part"
    using assms by (auto simp: write_inv_def)
  from inv(3) assms(2) obtain m qs where
    w: "writes k = [W_Header]" and q: "q_out k = m # qs" and p: "part = []"
    by (cases rule: write_phase_cases) auto
  show ?thesis
  proof (cases ec)
    case (Some n)
    have "prefix (take n (enc_header (header m))) (frame_bytes m)"
      unfolding frame_bytes_def by (metis prefix_prefix take_is_prefix)
    then show ?thesis
      using inv w q p Some
      by (auto simp: on_WriteHeader_def close_socket_def sent_part_def write_inv_def
          write_phase_def intro!: exI [where x = sent])
  next
    case None
    show ?thesis
    proof (cases "body m = []")
      case True
      then have "frame_bytes m = enc_header (header m)" by (simp add: frame_bytes_def)
      with None True inv w q p show ?thesis
        by (auto simp: on_WriteHeader_def GetBodySize_def Let_def pop_and_continue_cons
            write_inv_def write_phase_def intro!: exI [where x = "sent @ [m]"])
    next
      case False
      with None inv w q p show ?thesis
        by (auto simp: on_WriteHeader_def GetBodySize_def Let_def WriteBody_def
            write_inv_def write_phase_def intro!: exI [where x = sent])
    qed
  qed
qed

lemma write_inv_body:
  assumes "write_inv w0 ms k" and "W_Body \<in> set (writes k)"
  shows "\<exists>k'. on_WriteBody ec k = Inr k' \<and> write_inv w0 ms k'"
proof -
  obtain sent part where inv: "ms = sent @ q_out k @ task_messages (tasks k)"
    "wire k = w0 @ frames sent @ part" "write_phase k part"
    using assms by (auto simp: write_inv_def)
  from inv(3) assms(2) obtain m qs where
    w: "writes k = [W_Body]" and q: "q_out k = m # qs" and p: "part = enc_header (header m)"
    by (cases rule: write_phase_cases) auto
  show ?thesis
  proof (cases ec)
    case (Some n)
    have "prefix (enc_header (header m) @ take n (body m)) (frame_bytes m)"
      unfolding frame_bytes_def by (simp add: take_is_prefix)
    then show ?thesis
      using inv w q p Some
      by (auto simp: on_WriteBody_def close_socket_def sent_part_def write_inv_def
          write_phase_def intro!: exI [where x = sent])
  next
    case None
    with inv w q p show ?thesis
      by (auto simp: on_WriteBody_def Let_def pop_and_continue_cons frame_bytes_def
          write_inv_def write_phase_def intro!: exI [where x = "sent @ [m]"])
  qed
qed

lemma write_inv_send: "write_inv w0 ms k \<Longrightarrow> write_inv w0 (ms @ [m]) (Send m k)"
  by (auto simp: write_inv_def Send_def write_phase_def)

lemma write_inv_disconnect: "write_inv w0 ms k \<Longrightarrow> write_inv w0 ms (Disconnect k)"
  by (auto simp: write_inv_def Disconnect_def write_phase_def)

lemma write_inv_start: "write_idle k \<Longrightarrow> write_inv (wire k) [] k"
  by (auto simp: write_idle_def write_inv_def write_phase_def)

lemma wreach_inv:
  assumes "wreach k0 ms k" and "write_idle k0"
  shows "write_inv (wire k0) ms k"
  using assms
proof (induction rule: wreach.induct)
  case start
  then show ?case by (rule write_inv_start)
next
  case (send ms k m)
  then show ?case by (simp add: write_inv_send)
next
  case (disconnect ms k)
  then show ?case by (simp add: write_inv_disconnect)
next
  case (task ms k k')
  then show ?case using write_inv_task [of "wire k0" ms k] by auto
next
  case (header ms k ec k')
  then show ?case using write_inv_header [of "wire k0" ms k ec] by auto
next
  case (body ms k ec k')
  then show ?case using write_inv_body [of "wire k0" ms k ec] by auto
qed

lemma write_side_refines_stream_idle:
  assumes "write_idle k0" "wreach k0 ms k" "write_idle k" "sock_open k"
  shows "wire k = wire k0 @ frames ms"
  using wreach_inv [OF assms(2,1)] assms(3,4)
  by (auto simp: write_inv_def write_idle_def write_phase_def)

text \<open>The bytes on the wire, in every reachable state.\<close>

lemma wreach_stream:
  assumes "write_idle k0" and "wreach k0 ms k"
  shows "\<exists>w. wire k = wire k0 @ w \<and> prefix w (frames ms)
    \<and> (tasks k = [] \<and> writes k = [] \<and> sock_open k \<longrightarrow> w = frames ms)"
proof -
  obtain sent part where inv: "ms = sent @ q_out k @ task_messages (tasks k)"
    "wire k = wire k0 @ frames sent @ part" "write_phase k part"
    using wreach_inv [OF assms(2,1)] by (auto simp: write_inv_def)
  have "prefix part (frames (q_out k @ task_messages (tasks k)))"
    using inv(3)
  proof (cases rule: write_phase_cases)
    case (in_body m qs)
    then show ?thesis by (simp add: frame_bytes_def)
  qed (simp_all add: prefix_prefix)
  then have "prefix (frames sent @ part) (frames ms)"
    by (simp add: inv(1))
  moreover have "frames sent @ part = frames ms"
    if "tasks k = []" "writes k = []" "sock_open k"
    using inv(3) that inv(1) by (cases rule: write_phase_cases) auto
  ultimately show ?thesis using inv(2) by blast
qed

section \<open>Properties\<close>

text \<open>Sample connections: open and idle, and with a message being written.\<close>

definition sample_conn :: connection where
  "sample_conn = new_connection O_Client True 0"

definition sample_message :: message where
  "sample_message = put enc_u32 10001 (message_of KillPlayer)"

definition sample_writing :: connection where
  "sample_writing = sample_conn\<lparr>q_out := [sample_message], writes := [W_Header]\<rparr>"

lemma sample_conn_idle: "write_idle sample_conn" "sock_open sample_conn"
  by (simp_all add: sample_conn_def write_idle_def new_connection_def Let_def)

lemma sample_writing_reach: "wreach sample_conn [sample_message] sample_writing"
proof -
  have "run_task (Send sample_message sample_conn) = Inr sample_writing"
    by (simp add: run_task_def Send_def sample_conn_def sample_writing_def new_connection_def
        WriteHeader_def Let_def)
  with wreach.send [OF wreach.start, of sample_conn sample_message] show ?thesis
    by (auto intro: wreach.task)
qed

lemma sample_writing_simps:
  "writes sample_writing = [W_Header]" "tasks sample_writing = []" "sock_open sample_writing"
  by (simp_all add: sample_writing_def sample_conn_def new_connection_def Let_def)

text \<open>C19: In every state that the write side reaches from rest after the handshake (no write of the
  challenge is left, which could overlap with another), at most one write is in flight, and the handlers never touch an empty queue: each posted lambda and each completion, successful or
  failed after any number of bytes, runs without undefined behaviour.\<close>

theorem write_side_safe:
  assumes "write_idle k0" and "wreach k0 ms k"
  shows "length (writes k) \<le> 1 \<and> (\<exists>k'. run_task k = Inr k')
    \<and> (W_Header \<in> set (writes k) \<longrightarrow> (\<exists>k'. on_WriteHeader ec k = Inr k'))
    \<and> (W_Body \<in> set (writes k) \<longrightarrow> (\<exists>k'. on_WriteBody ec k = Inr k'))"
proof -
  have inv: "write_inv (wire k0) ms k" by (rule wreach_inv [OF assms(2,1)])
  then have "length (writes k) \<le> 1"
    by (auto simp: write_inv_def elim!: write_phase_cases)
  with write_inv_task [OF inv] write_inv_header [OF inv] write_inv_body [OF inv]
  show ?thesis by blast
qed

theorem write_side_safe_witness:
  "length (writes sample_writing) \<le> 1 \<and> (\<exists>k'. on_WriteHeader None sample_writing = Inr k')"
  using write_side_safe [OF sample_conn_idle(1) sample_writing_reach, of None]
  by (simp add: sample_writing_simps)

text \<open>C1: Refinement of a byte stream, from a write side at rest after the handshake: what it has
  put on the wire since is at every moment a prefix of the frames (header, then body) of the
  messages given to \<open>Send\<close>, in that order, errors and disconnects included; and when nothing is left
  to run while the socket is still open, it is all of them.\<close>

theorem write_side_refines_stream:
  assumes "write_idle k0" and "wreach k0 ms k"
  shows "\<exists>w. wire k = wire k0 @ w \<and> prefix w (frames ms)
    \<and> (tasks k = [] \<and> writes k = [] \<and> sock_open k \<longrightarrow> w = frames ms)"
  by (rule wreach_stream [OF assms])

theorem write_side_refines_stream_witness:
  "\<exists>w. wire sample_writing = wire sample_conn @ w \<and> prefix w (frames [sample_message])"
  using write_side_refines_stream [OF sample_conn_idle(1) sample_writing_reach] by blast

text \<open>Liveness: posted sends run, then the queue drains one completion at a time.\<close>

definition all_sends :: "task list \<Rightarrow> bool" where
  "all_sends ts \<longleftrightarrow> list_all (\<lambda>t. t \<noteq> T_Close) ts"

lemma run_task_returns: "\<exists>k'. run_task k = Inr k'"
  by (auto simp: run_task_def WriteHeader_def PushBack_def Front_def Let_def split: list.splits task.splits)

text \<open>
  What draining needs of a transport: a set of states of the connection in which every posted
  lambda can run and every write can complete without an error.
\<close>

locale drainable =
  fixes R :: "connection \<Rightarrow> bool"
  assumes phase: "R k \<Longrightarrow> \<exists>part. write_phase k part"
    and task: "R k \<Longrightarrow> run_task k = Inr k' \<Longrightarrow> R k'"
    and header: "R k \<Longrightarrow> W_Header \<in> set (writes k) \<Longrightarrow> on_WriteHeader None k = Inr k' \<Longrightarrow> R k'"
    and body: "R k \<Longrightarrow> W_Body \<in> set (writes k) \<Longrightarrow> on_WriteBody None k = Inr k' \<Longrightarrow> R k'"
begin

lemma run_tasks:
  assumes "R k" "sock_open k" "all_sends (tasks k)"
  shows "\<exists>k'. R k' \<and> sock_open k' \<and> tasks k' = []"
  using assms
proof (induction "tasks k" arbitrary: k)
  case Nil
  then show ?case by metis
next
  case (Cons t ts)
  from Cons.prems(3) have "t \<noteq> T_Close"
    by (simp add: all_sends_def Cons.hyps(2) [symmetric])
  then obtain m where t: "t = T_Send m" by (cases t) auto
  obtain k' where k': "run_task k = Inr k'"
    using run_task_returns by blast
  then have "tasks k' = ts" "sock_open k'"
    using Cons.hyps(2) [symmetric] t Cons.prems(2)
    by (auto simp: run_task_def Let_def WriteHeader_def split: if_splits)
  moreover from this have "all_sends (tasks k')"
    using Cons.prems(3) Cons.hyps(2) [symmetric] by (simp add: all_sends_def)
  ultimately show ?case using Cons.hyps(1) [of k'] task [OF Cons.prems(1) k'] by blast
qed

lemma finish_message:
  assumes "R k" "writes k = [W_Header]" "q_out k = m # qs" "tasks k = []" "sock_open k"
  shows "\<exists>k'. R k' \<and> sock_open k' \<and> tasks k' = [] \<and> q_out k' = qs
    \<and> writes k' = (if qs = [] then [] else [W_Header])"
proof (cases "message.body m = []")
  case True
  let ?k' = "k\<lparr>wire := wire k @ enc_header (message.header m), q_out := qs,
    writes := if qs = [] then [] else [W_Header]\<rparr>"
  have "on_WriteHeader None k = Inr ?k'"
    using assms True by (simp add: on_WriteHeader_def GetBodySize_def Let_def pop_and_continue_cons)
  from header [OF assms(1) _ this] assms show ?thesis
    by (intro exI [where x = ?k']) auto
next
  case False
  let ?k1 = "k\<lparr>wire := wire k @ enc_header (message.header m), writes := [W_Body]\<rparr>"
  let ?k' = "?k1\<lparr>wire := wire ?k1 @ message.body m, q_out := qs,
    writes := if qs = [] then [] else [W_Header]\<rparr>"
  have "on_WriteHeader None k = Inr ?k1"
    using assms False by (simp add: on_WriteHeader_def GetBodySize_def Let_def WriteBody_def)
  from header [OF assms(1) _ this] assms have w1: "R ?k1" by simp
  have "on_WriteBody None ?k1 = Inr ?k'"
    using assms by (simp add: on_WriteBody_def Let_def pop_and_continue_cons)
  from body [OF w1 _ this] have "R ?k'" by simp
  with assms(4,5) show ?thesis by (intro exI [where x = ?k'] conjI) simp_all
qed

lemma drain_queue:
  assumes "R k" "tasks k = []" "sock_open k" "writes k = (if q_out k = [] then [] else [W_Header])"
  shows "\<exists>k'. R k' \<and> write_idle k' \<and> sock_open k'"
  using assms
proof (induction "q_out k" arbitrary: k)
  case Nil
  then show ?case by (intro exI [where x = k]) (simp add: write_idle_def)
next
  case (Cons m qs)
  then have "writes k = [W_Header]" by (simp flip: Cons.hyps(2))
  with Cons.prems Cons.hyps(2) obtain k' where
    "R k'" "sock_open k'" "tasks k' = []" "q_out k' = qs"
    "writes k' = (if qs = [] then [] else [W_Header])"
    using finish_message [of k m qs] by auto
  with Cons.hyps(1) [of k'] show ?case by simp
qed

lemma drain_any:
  assumes "R k" "tasks k = []" "sock_open k"
  shows "\<exists>k'. R k' \<and> write_idle k' \<and> sock_open k'"
proof -
  obtain part where "write_phase k part" using phase [OF assms(1)] by blast
  then show ?thesis
  proof (cases rule: write_phase_cases)
    case idle
    with assms show ?thesis by (intro exI [where x = k]) (simp add: write_idle_def)
  next
    case (failed m qs)
    with assms show ?thesis by simp
  next
    case (in_header m qs)
    with assms show ?thesis by (intro drain_queue [of k]) simp_all
  next
    case (in_body m qs)
    let ?k' = "k\<lparr>wire := wire k @ message.body m, q_out := qs,
      writes := if qs = [] then [] else [W_Header]\<rparr>"
    have "on_WriteBody None k = Inr ?k'"
      using in_body by (simp add: on_WriteBody_def Let_def pop_and_continue_cons)
    from body [OF assms(1) _ this] in_body have "R ?k'" by simp
    with assms show ?thesis by (intro drain_queue [of ?k']) simp_all
  qed
qed

lemma drains: "R k \<Longrightarrow> sock_open k \<Longrightarrow> all_sends (tasks k) \<Longrightarrow> \<exists>k'. R k' \<and> write_idle k' \<and> sock_open k'"
  using run_tasks drain_any by blast

end

lemma wreach_phase: "write_idle k0 \<and> wreach k0 ms k \<Longrightarrow> \<exists>part. write_phase k part"
  using wreach_inv [of k0 ms k] by (auto simp: write_inv_def)

interpretation wr: drainable "\<lambda>k. write_idle k0 \<and> wreach k0 ms k" for k0 ms
  by unfold_locales (auto intro: wreach_phase wreach.task wreach.header wreach.body)

text \<open>Every message can be delivered to the wire: from any reachable state in which the socket
  is open and no disconnect is posted, running the posted lambdas and completing the writes
  leads to an idle, open connection that has written exactly the frames of all messages sent.\<close>

lemma write_side_completes:
  assumes "write_idle k0" "wreach k0 ms k" "sock_open k" "all_sends (tasks k)"
  shows "\<exists>k'. wreach k0 ms k' \<and> write_idle k' \<and> sock_open k'
    \<and> wire k' = wire k0 @ frames ms"
proof -
  obtain k' where k': "wreach k0 ms k'" "write_idle k'" "sock_open k'"
    using wr.drains [of k0 ms k] assms by blast
  then have "wire k' = wire k0 @ frames ms"
    by (intro write_side_refines_stream_idle [OF assms(1)])
  with k' show ?thesis by blast
qed

lemma write_side_completes_example:
  "\<exists>k'. wreach sample_conn [sample_message] k' \<and> write_idle k' \<and> sock_open k'
    \<and> wire k' = wire sample_conn @ frames [sample_message]"
  by (rule write_side_completes [OF sample_conn_idle(1) sample_writing_reach])
     (simp_all add: sample_writing_simps all_sends_def)

end
