(* ===== verification/Connection_Read.thy ===== *)
theory Connection_Read
  imports Connection_Write
begin

text \<open>
  The read side of a connection. \<open>recv\<close> lets asio complete the reads of a
  connection from the bytes that have arrived, each read with exactly as many bytes as its
  buffer holds, until too few are left.
\<close>

section \<open>Receiving a byte stream\<close>

lemma on_ReadBody_reads:
  "reads (fst kq) = [R_Body] \<Longrightarrow> reads (fst (on_ReadBody self (Some bs) kq)) = [R_Header]"
  by (cases kq) (simp add: on_ReadBody_def AddToIncomingMessageQueue_def ReadHeader_def Let_def)

function recv :: "nat \<Rightarrow> byte list \<Rightarrow> connection \<times> owned_message queue
    \<Rightarrow> byte list \<times> connection \<times> owned_message queue" where
  "recv self bs kq =
     (let k = fst kq in
      if reads k = [R_Header] then
        (if length bs < 8 then (bs, kq)
         else recv self (drop 8 bs) (on_ReadHeader self (Some (take 8 bs)) kq))
      else if reads k = [R_Body] then
        (let n = length (body (tmp_in k)) in
         if length bs < n then (bs, kq)
         else recv self (drop n bs) (on_ReadBody self (Some (take n bs)) kq))
      else (bs, kq))"
  by pat_completeness auto

termination
  by (relation "measures [\<lambda>(self, bs, kq). length bs,
        \<lambda>(self, bs, kq). if reads (fst kq) = [R_Body] then 1 else 0]")
     (auto simp: on_ReadBody_reads)

declare recv.simps [simp del]

text \<open>The bodies a receiver sees: a message without a body keeps the bytes of the last one.\<close>

fun delivered :: "byte list \<Rightarrow> message list \<Rightarrow> message list" where
  "delivered stale [] = []"
| "delivered stale (m # ms) =
     (if body m = [] then m\<lparr>body := stale\<rparr> # delivered stale ms
      else m # delivered (body m) ms)"

fun last_body :: "byte list \<Rightarrow> message list \<Rightarrow> byte list" where
  "last_body stale [] = stale"
| "last_body stale (m # ms) = last_body (if body m = [] then stale else body m) ms"

definition own :: "nat \<Rightarrow> connection \<Rightarrow> message \<Rightarrow> owned_message" where
  "own self k m = \<lparr>remote = (if owner_type k = O_Server then Some self else None), omsg = m\<rparr>"

text \<open>Messages as the program builds them, small enough for the 32-bit size field.\<close>

definition sendable :: "message \<Rightarrow> bool" where
  "sendable m \<longleftrightarrow> synced m \<and> canonical_type (msg_type m) \<and> length (body m) < 2 ^ 32"

lemma sendable_size:
  assumes "sendable m"
  shows "unat (body_size (header m)) = length (body m)"
  using assms by (simp add: sendable_def synced_def unat_of_nat)

lemma dec_enc_header: "canonical_type (msg_id h) \<Longrightarrow> dec_header (enc_header h) = h"
  by (rule hdr.dec_enc)

lemma recv_header:
  assumes "reads k = [R_Header]" "length hb = 8"
  shows "recv self (hb @ bs) (k, q) = recv self bs (on_ReadHeader self (Some hb) (k, q))"
  using assms by (subst recv.simps) simp

lemma recv_body:
  assumes "reads k = [R_Body]" "length (body (tmp_in k)) = length b"
  shows "recv self (b @ bs) (k, q) = recv self bs (on_ReadBody self (Some b) (k, q))"
  using assms by (subst recv.simps) simp

text \<open>A header that announces no body: the rest of the stream is read as the next header.\<close>

lemma recv_empty_header:
  assumes "reads k = [R_Header]" "canonical_type (msg_id h)" "body_size h = 0"
  shows "recv self (enc_header h @ bs) (k, q)
    = recv self bs (k\<lparr>tmp_in := (tmp_in k)\<lparr>header := h\<rparr>\<rparr>,
        q @ [own self k ((tmp_in k)\<lparr>header := h\<rparr>)])"
  using assms
  by (cases k) (simp add: recv_header dec_enc_header on_ReadHeader_def
      AddToIncomingMessageQueue_def ReadHeader_def own_def Let_def)

lemma length_resize [simp]: "length (resize n bs) = n"
  by (simp add: resize_def)

lemma recv_frame:
  assumes "reads k = [R_Header]" "sendable m"
  shows "recv self (frame_bytes m @ bs) (k, q)
    = recv self bs (k\<lparr>tmp_in := m\<lparr>body := if body m = [] then body (tmp_in k) else body m\<rparr>\<rparr>,
        q @ [own self k (m\<lparr>body := if body m = [] then body (tmp_in k) else body m\<rparr>)])"
proof (cases "body m = []")
  case True
  with assms have "body_size (header m) = 0" "canonical_type (msg_type m)"
    by (simp_all add: sendable_def synced_def)
  moreover have eq: "(tmp_in k)\<lparr>header := header m\<rparr> = m\<lparr>body := body (tmp_in k)\<rparr>"
    by (rule message_eqI) simp_all
  ultimately show ?thesis
    using True assms(1) by (simp add: frame_bytes_def recv_empty_header eq)
next
  case False
  have size: "unat (body_size (header m)) = length (body m)"
    by (rule sendable_size [OF assms(2)])
  with False have pos: "0 < body_size (header m)"
    by (metis length_0_conv unat_0 word_neq_0_conv)
  have hdr: "dec_header (enc_header (header m)) = header m"
    using assms(2) by (simp add: sendable_def dec_enc_header)
  let ?k1 = "k\<lparr>reads := [R_Body], tmp_in := m\<lparr>body := resize (length (body m)) (body (tmp_in k))\<rparr>\<rparr>"
  have "on_ReadHeader self (Some (enc_header (header m))) (k, q) = (?k1, q)"
    using assms(1) pos by (simp add: on_ReadHeader_def hdr size ReadBody_def)
  moreover have "on_ReadBody self (Some (body m)) (?k1, q)
      = (k\<lparr>tmp_in := m\<rparr>, q @ [own self k m])"
    using assms(1)
    by (cases k) (simp add: on_ReadBody_def AddToIncomingMessageQueue_def ReadHeader_def own_def)
  ultimately show ?thesis
    using False assms(1) by (simp add: frame_bytes_def recv_header recv_body)
qed

lemma own_tmp_in [simp]: "own self (k\<lparr>tmp_in := m\<rparr>) = own self k"
  by (simp add: own_def fun_eq_iff)

lemma recv_frames:
  assumes "reads k = [R_Header]" "list_all sendable ms"
  shows "\<exists>h. recv self (frames ms @ bs) (k, q)
    = recv self bs (k\<lparr>tmp_in := \<lparr>header = h, body = last_body (body (tmp_in k)) ms\<rparr>\<rparr>,
        q @ map (own self k) (delivered (body (tmp_in k)) ms))"
  using assms
proof (induction ms arbitrary: k q)
  case Nil
  have t: "\<lparr>header = header (tmp_in k), body = body (tmp_in k)\<rparr> = tmp_in k"
    by (rule message_eqI) simp_all
  have k: "k\<lparr>tmp_in := tmp_in k\<rparr> = k" by (cases k) simp
  show ?case by (intro exI [where x = "header (tmp_in k)"]) (simp add: t k)
next
  case (Cons m ms)
  define m' where "m' = m\<lparr>body := if body m = [] then body (tmp_in k) else body m\<rparr>"
  have "recv self (frames (m # ms) @ bs) (k, q)
      = recv self (frames ms @ bs) (k\<lparr>tmp_in := m'\<rparr>, q @ [own self k m'])"
    using Cons.prems by (simp add: recv_frame m'_def)
  also obtain h where "recv self (frames ms @ bs) (k\<lparr>tmp_in := m'\<rparr>, q @ [own self k m'])
      = recv self bs (k\<lparr>tmp_in := \<lparr>header = h, body = last_body (body m') ms\<rparr>\<rparr>,
          (q @ [own self k m']) @ map (own self k) (delivered (body m') ms))"
    using Cons.IH [of "k\<lparr>tmp_in := m'\<rparr>" "q @ [own self k m']"] Cons.prems by auto
  finally have "\<exists>h. recv self (frames (m # ms) @ bs) (k, q)
      = recv self bs (k\<lparr>tmp_in := \<lparr>header = h, body = last_body (body m') ms\<rparr>\<rparr>,
          q @ own self k m' # map (own self k) (delivered (body m') ms))"
    by auto
  then show ?case by (cases "body m = []") (simp_all add: m'_def)
qed

lemma recv_nothing: "reads k = [R_Header] \<Longrightarrow> recv self [] (k, q) = ([], k, q)"
  by (subst recv.simps) simp

lemma delivered_id: "list_all (\<lambda>m. body m \<noteq> []) ms \<Longrightarrow> delivered stale ms = ms"
  by (induction ms arbitrary: stale) auto

definition sample_reader :: connection where
  "sample_reader = sample_conn\<lparr>reads := [R_Header]\<rparr>"

lemma sample_reader_simps: "reads sample_reader = [R_Header]" "body (tmp_in sample_reader) = []"
  by (simp_all add: sample_reader_def sample_conn_def new_connection_def new_message_def Let_def)

lemma sendable_samples: "sendable sample_message" "sendable (message_of StartGame)"
  by (simp_all add: sendable_def sample_message_def)

lemma body_sample_message: "body sample_message = enc_u32 10001"
  by (simp add: sample_message_def)

lemma read_side_result:
  assumes "reads k = [R_Header]" and "list_all sendable ms"
  shows "\<exists>k'. recv self (frames ms) (k, q)
      = ([], k', q @ map (own self k) (delivered (body (tmp_in k)) ms))
    \<and> reads k' = [R_Header] \<and> sock_open k' = sock_open k"
proof -
  obtain h where "recv self (frames ms @ []) (k, q)
      = recv self [] (k\<lparr>tmp_in := \<lparr>header = h, body = last_body (body (tmp_in k)) ms\<rparr>\<rparr>,
        q @ map (own self k) (delivered (body (tmp_in k)) ms))"
    using recv_frames [OF assms, of self "[]"] by blast
  then show ?thesis using assms(1) by (simp add: recv_nothing)
qed

section \<open>Properties of the channel\<close>

text \<open>C20: Framing round trip. From the frames of any messages built by \<open>operator<<\<close> the read loop
  consumes every byte, is ready for the next header, and delivers, in order and with the owner
  attached on the server side, each message as it was sent -- except that a message without a
  body arrives with the body bytes of the last message that had one.\<close>

theorem read_side_delivers:
  assumes "reads k = [R_Header]" and "list_all sendable ms"
  shows "\<exists>k'. recv self (frames ms) (k, q)
      = ([], k', q @ map (own self k) (delivered (body (tmp_in k)) ms))
    \<and> reads k' = [R_Header] \<and> sock_open k' = sock_open k"
  by (rule read_side_result [OF assms])

theorem read_side_delivers_witness:
  "\<exists>k'. recv 0 (frames [sample_message, message_of StartGame]) (sample_reader, [])
      = ([], k', [own 0 sample_reader sample_message,
           own 0 sample_reader ((message_of StartGame)\<lparr>body := enc_u32 10001\<rparr>)])"
proof -
  have "enc_u32 10001 \<noteq> []" by (rule enc_u32_ne)
  then show ?thesis
    using read_side_delivers [OF sample_reader_simps(1),
        of "[sample_message, message_of StartGame]" 0 "[]"] sendable_samples
    by (auto simp: body_sample_message)
qed

text \<open>End to end, a connection is a reliable first-in first-out channel for messages with a
  body: if the write side of one end is given such messages by \<open>Send\<close> and has become idle with
  its socket open, then reading the bytes it wrote, the other end delivers exactly these
  messages, in order.\<close>

lemma channel_end_to_end:
  assumes "write_idle k0" "wreach k0 ms k" "write_idle k" "sock_open k" "wire k = wire k0 @ w"
    and "list_all sendable ms" "list_all (\<lambda>m. body m \<noteq> []) ms" "reads r = [R_Header]"
  shows "\<exists>r'. recv self w (r, q) = ([], r', q @ map (own self r) ms) \<and> reads r' = [R_Header]"
proof -
  have "w = frames ms"
    using write_side_refines_stream_idle [OF assms(1-4)] assms(5) by simp
  moreover obtain h where "recv self (frames ms @ []) (r, q)
      = recv self [] (r\<lparr>tmp_in := \<lparr>header = h, body = last_body (body (tmp_in r)) ms\<rparr>\<rparr>,
        q @ map (own self r) (delivered (body (tmp_in r)) ms))"
    using recv_frames [OF assms(8,6), of self "[]"] by blast
  ultimately show ?thesis
    using assms(8) delivered_id [OF assms(7)] by (simp add: recv_nothing)
qed

lemma channel_end_to_end_example:
  "\<exists>r'. recv 0 (frames [sample_message]) (sample_reader, [])
      = ([], r', [own 0 sample_reader sample_message]) \<and> reads r' = [R_Header]"
proof -
  have ne: "enc_u32 10001 \<noteq> []" by (rule enc_u32_ne)
  obtain k where k: "wreach sample_conn [sample_message] k" "write_idle k" "sock_open k"
    using wr.drain_any [of sample_conn "[sample_message]" sample_writing] sample_writing_reach sample_conn_idle(1)
    by (auto simp: sample_writing_simps)
  then have "wire k = wire sample_conn @ frames [sample_message]"
    by (rule write_side_refines_stream_idle [OF sample_conn_idle(1)])
  from channel_end_to_end [OF sample_conn_idle(1) k this, of sample_reader 0 "[]"]
  show ?thesis using ne by (simp add: sendable_samples body_sample_message sample_reader_simps)
qed

text \<open>A message whose header announces no body although its body is not empty desynchronises
  the peer: \<open>WriteHeader\<close> decides by the body, \<open>ReadHeader\<close> by the header, so the receiver
  delivers the message with stale bytes and then reads the body bytes as the next header.\<close>

lemma unsynced_message_desynchronises:
  assumes "body_size (header m) = 0" "canonical_type (msg_type m)" "body m = hb @ rest"
    and "length hb = 8" "reads k = [R_Header]"
  shows "recv self (frame_bytes m @ bs) (k, q)
    = recv self (rest @ bs)
        (on_ReadHeader self (Some hb)
          (k\<lparr>tmp_in := (tmp_in k)\<lparr>header := header m\<rparr>\<rparr>,
           q @ [own self k ((tmp_in k)\<lparr>header := header m\<rparr>)]))"
proof -
  have "recv self (frame_bytes m @ bs) (k, q) = recv self (enc_header (header m) @ hb @ rest @ bs) (k, q)"
    using assms(3) by (simp add: frame_bytes_def)
  also have "\<dots> = recv self (hb @ rest @ bs) (k\<lparr>tmp_in := (tmp_in k)\<lparr>header := header m\<rparr>\<rparr>,
      q @ [own self k ((tmp_in k)\<lparr>header := header m\<rparr>)])"
    using assms by (intro recv_empty_header)
  finally show ?thesis
    using assms(4,5) by (simp add: recv_header)
qed

end
