(* ===== verification/Handshake.thy ===== *)
theory Handshake
  imports Connection_Read
begin

text \<open>
  The validation handshake of \<open>src/Networking/connection.h\<close>: what \<open>Scramble\<close> computes, and
  the exchange between \<open>WriteValidation\<close> and \<open>ReadValidation\<close> on both sides.
\<close>

unbundle bit_operations_syntax

section \<open>The bits of Scramble\<close>

definition mask_hi :: u64 where "mask_hi = 0xF0F0F0F0F0F0F0"
definition mask_lo :: u64 where "mask_lo = 0x0F0F0F0F0F0F0F"

definition swap_nibbles :: "u64 \<Rightarrow> u64" where
  "swap_nibbles out = drop_bit 4 (out AND mask_hi) OR push_bit 4 (out AND mask_lo)"

lemma Scramble_swap:
  "Scramble x = swap_nibbles (x XOR 0xDEADBEEFC0DECAFE) XOR 0xC0DEFACE12345678"
  unfolding Scramble_def swap_nibbles_def mask_hi_def mask_lo_def Let_def by (rule refl)

lemma mask_hi_bits: "list_all (\<lambda>n. bit mask_hi n = (n < 56 \<and> 4 \<le> n mod 8)) [0..<64]"
  by code_simp

lemma bit_mask_hi: "bit mask_hi n \<longleftrightarrow> n < 56 \<and> 4 \<le> n mod 8"
proof (cases "n < 64")
  case True
  then show ?thesis using mask_hi_bits by (simp add: list_all_iff)
next
  case False
  then show ?thesis by (auto dest: bit_imp_le_length)
qed

lemma mask_lo_bits: "list_all (\<lambda>n. bit mask_lo n = (n < 56 \<and> n mod 8 < 4)) [0..<64]"
  by code_simp

lemma bit_mask_lo: "bit mask_lo n \<longleftrightarrow> n < 56 \<and> n mod 8 < 4"
proof (cases "n < 64")
  case True
  then show ?thesis using mask_lo_bits by (simp add: list_all_iff)
next
  case False
  then show ?thesis by (auto dest: bit_imp_le_length)
qed

definition partner :: "nat \<Rightarrow> nat" where "partner n = (if n mod 8 < 4 then n + 4 else n - 4)"

lemma nibble_cases:
  obtains (low) q r where "n = 8 * q + r" "r < (4::nat)"
  | (high) q r where "n = 8 * q + (r + 4)" "r < 4"
proof (cases "n mod 8 < 4")
  case True
  then show thesis using low [of "n div 8" "n mod 8"] by simp
next
  case False
  then have "n = 8 * (n div 8) + ((n mod 8 - 4) + 4)" "n mod 8 - 4 < 4"
    using mod_less_divisor [of 8 n] by simp_all
  then show thesis by (rule high)
qed

lemma partner_low: "r < 4 \<Longrightarrow> partner (8 * q + r) = 8 * q + (r + 4)"
  by (simp add: partner_def)

lemma partner_high: "r < 4 \<Longrightarrow> partner (8 * q + (r + 4)) = 8 * q + r"
  by (simp add: partner_def mod_simps)

lemma below_56: "r < 8 \<Longrightarrow> 8 * q + r < 56 \<longleftrightarrow> q < (7::nat)"
  by arith

lemma partner_partner: "partner (partner n) = n"
  by (cases rule: nibble_cases [of n]) (simp_all only: partner_low partner_high)

lemma partner_less: "partner n < 56 \<longleftrightarrow> n < 56"
  by (cases rule: nibble_cases [of n])
     (simp_all only: partner_low partner_high, simp_all only: below_56)

lemma bit_swap_nibbles: "bit (swap_nibbles x) n \<longleftrightarrow> n < 56 \<and> bit x (partner n)"
proof (cases rule: nibble_cases [of n])
  case (low q r)
  have A: "bit mask_hi (8 * q + (r + 4)) \<longleftrightarrow> q < 7"
    using low(2) below_56 [of "r + 4" q] by (simp add: bit_mask_hi)
  have B: "\<not> bit mask_lo (8 * q + r - 4)" if "4 \<le> 8 * q + r"
  proof (cases q)
    case 0
    with that low show ?thesis by simp
  next
    case (Suc q')
    then have "8 * q + r - 4 = 8 * q' + (r + 4)" by simp
    then show ?thesis using low(2) by (simp add: bit_mask_lo)
  qed
  have E: "4 + n = 8 * q + (r + 4)" and P: "partner n = 4 + n"
    using low by (simp_all add: partner_low)
  have "bit mask_hi (4 + n) \<longleftrightarrow> n < 56"
    unfolding E using A low(2) below_56 [of r q] by (simp add: low(1))
  moreover have "4 \<le> n \<Longrightarrow> \<not> bit mask_lo (n - 4)"
    using B by (simp add: low(1))
  moreover note P
  ultimately show ?thesis
    by (auto simp: swap_nibbles_def bit_drop_bit_eq bit_or_iff bit_and_iff bit_push_bit_iff)
next
  case (high q r)
  have E: "4 + n = 8 * Suc q + r" and P: "partner n = n - 4" "n - 4 = 8 * q + r" "4 \<le> n"
    using high by (simp_all add: partner_high)
  have "\<not> bit mask_hi (4 + n)"
    unfolding E using high(2) by (simp only: bit_mask_hi mod_mult_self4) simp
  moreover have "bit mask_lo (n - 4) \<longleftrightarrow> n < 56"
    unfolding P(2) using high(2) below_56 [of r q] below_56 [of "r + 4" q] by (simp add: bit_mask_lo high(1))
  moreover note P(1,3)
  ultimately show ?thesis
    by (auto simp: swap_nibbles_def bit_drop_bit_eq bit_or_iff bit_and_iff bit_push_bit_iff)
qed
lemma swap_nibbles_twice: "swap_nibbles (swap_nibbles x) = take_bit 56 x"
  by (rule bit_word_eqI) (auto simp: bit_swap_nibbles partner_partner partner_less bit_take_bit_iff)

lemma swap_nibbles_take_bit: "swap_nibbles (take_bit 56 x) = swap_nibbles x"
  by (rule bit_word_eqI) (auto simp: bit_swap_nibbles partner_less bit_take_bit_iff)

lemma swap_nibbles_eq_iff: "swap_nibbles x = swap_nibbles y \<longleftrightarrow> take_bit 56 x = take_bit 56 y"
  by (metis swap_nibbles_twice swap_nibbles_take_bit)

lemma xor_right_cancel: "a XOR c = b XOR c \<longleftrightarrow> a = (b :: u64)"
proof
  assume "a XOR c = b XOR c"
  then have "(a XOR c) XOR c = (b XOR c) XOR c" by simp
  then show "a = b" by (simp add: xor.assoc)
qed simp

lemma Scramble_eq_iff: "Scramble x = Scramble y \<longleftrightarrow> take_bit 56 x = take_bit 56 y"
  by (simp add: Scramble_swap xor_right_cancel swap_nibbles_eq_iff take_bit_xor)

text \<open>\<open>Scramble\<close> forgets the top byte of its input and nothing else: two challenges have the
  same answer exactly when their low 56 bits agree, so 256 challenges share each answer and it
  cannot be undone, and the top byte of every answer is 0xC0.\<close>

lemma Scramble_collisions:
  "(Scramble x = Scramble y \<longleftrightarrow> take_bit 56 x = take_bit 56 y) \<and> drop_bit 56 (Scramble x) = 0xC0"
proof
  show "Scramble x = Scramble y \<longleftrightarrow> take_bit 56 x = take_bit 56 y"
    by (rule Scramble_eq_iff)
  have "drop_bit 56 (swap_nibbles z) = 0" for z
    by (rule bit_word_eqI) (simp add: bit_drop_bit_eq bit_swap_nibbles)
  then have "drop_bit 56 (Scramble x) = drop_bit 56 (0xC0DEFACE12345678 :: u64)"
    by (simp only: Scramble_swap drop_bit_xor) simp
  then show "drop_bit 56 (Scramble x) = 0xC0" by simp
qed

section \<open>The exchange\<close>

definition fresh_server_side :: "u32 \<Rightarrow> u64 \<Rightarrow> connection" where
  "fresh_server_side uid now = ConnectToClient uid (new_connection O_Server True now)"

definition accepts :: "connection \<Rightarrow> byte list \<Rightarrow> bool" where
  "accepts k bs \<longleftrightarrow> (\<exists>k'. on_ReadValidation (Some bs) k = V_Accepted k')"

lemma accepts_iff:
  "owner_type k = O_Server \<Longrightarrow> accepts k bs \<longleftrightarrow> dec_u64 bs = hs_check k"
  by (auto simp: accepts_def on_ReadValidation_def Let_def)

lemma fresh_server_simps:
  "owner_type (fresh_server_side uid now) = O_Server"
  "hs_check (fresh_server_side uid now) = Scramble now"
  "hs_out (fresh_server_side uid now) = now"
  "writes (fresh_server_side uid now) = [W_Validation]"
  "reads (fresh_server_side uid now) = [R_Validation]"
  "tasks (fresh_server_side uid now) = []" "q_out (fresh_server_side uid now) = []"
  "wire (fresh_server_side uid now) = []" "conn_id (fresh_server_side uid now) = uid"
  by (simp_all add: fresh_server_side_def ConnectToClient_def new_connection_def
      ReadValidation_def WriteValidation_def Let_def)

text \<open>A client whose socket has just been connected.\<close>

definition fresh_client_side :: connection where
  "fresh_client_side = on_connect False True (ConnectToServer True (new_connection O_Client False 0))"

lemma fresh_client_simps:
  "owner_type fresh_client_side = O_Client" "reads fresh_client_side = [R_Validation]"
  "writes fresh_client_side = []" "wire fresh_client_side = []"
  by (simp_all add: fresh_client_side_def on_connect_def ConnectToServer_def new_connection_def
      ReadValidation_def Let_def)

text \<open>The handshake completes: for every clock reading the server sends it as the challenge,
  the client answers with its scrambled value and starts to read messages, and the server
  accepts the answer.\<close>

lemma handshake_completes:
  assumes "owner_type kc = O_Client" "reads kc = [R_Validation]" "writes kc = []"
  shows "\<exists>ks kc1. on_WriteValidation None (fresh_server_side uid now) = ks
    \<and> wire ks = enc_u64 now \<and> reads ks = [R_Validation]
    \<and> on_ReadValidation (Some (wire ks)) kc = V_Answered kc1
    \<and> wire (on_WriteValidation None kc1) = wire kc @ enc_u64 (Scramble now)
    \<and> reads (on_WriteValidation None kc1) = [R_Header]
    \<and> accepts ks (enc_u64 (Scramble now))"
  using assms
  by (simp add: on_WriteValidation_def on_ReadValidation_def fresh_server_simps Let_def
      WriteValidation_def ReadHeader_def accepts_iff)

lemma handshake_completes_example:
  "\<exists>kc1. on_ReadValidation (Some (enc_u64 77)) fresh_client_side = V_Answered kc1
    \<and> wire (on_WriteValidation None kc1) = enc_u64 (Scramble 77)
    \<and> accepts (on_WriteValidation None (fresh_server_side 10000 77)) (enc_u64 (Scramble 77))"
  using handshake_completes [OF fresh_client_simps(1-3), of 10000 77]
  by (auto simp: fresh_client_simps)

text \<open>C22: The server accepts an eight byte answer exactly if it is the scrambled challenge; any
  other answer, and a failed read, closes the socket. A client that scrambles a different
  challenge is accepted as well when it differs in the top byte only.\<close>

theorem handshake_accepts_iff:
  assumes "length bs = 8"
  shows "(accepts (fresh_server_side uid now) bs \<longleftrightarrow> bs = enc_u64 (Scramble now))
    \<and> (\<not> accepts (fresh_server_side uid now) bs \<longrightarrow>
        (\<exists>k'. on_ReadValidation (Some bs) (fresh_server_side uid now) = V_Closed k'
          \<and> \<not> IsConnected k'))
    \<and> (accepts (fresh_server_side uid now) (enc_u64 (Scramble other))
        \<longleftrightarrow> take_bit 56 other = take_bit 56 now)"
proof (intro conjI)
  have A: "accepts (fresh_server_side uid now) b \<longleftrightarrow> dec_u64 b = Scramble now" for b
    by (simp add: accepts_iff fresh_server_simps)
  show "accepts (fresh_server_side uid now) bs \<longleftrightarrow> bs = enc_u64 (Scramble now)"
    unfolding A using enc_dec_u64 [OF assms] by auto
  show "\<not> accepts (fresh_server_side uid now) bs \<longrightarrow>
        (\<exists>k'. on_ReadValidation (Some bs) (fresh_server_side uid now) = V_Closed k'
          \<and> \<not> IsConnected k')"
    unfolding A by (auto simp: on_ReadValidation_def fresh_server_simps Let_def close_socket_def
        IsConnected_def)
  show "accepts (fresh_server_side uid now) (enc_u64 (Scramble other))
        \<longleftrightarrow> take_bit 56 other = take_bit 56 now"
    unfolding A dec_enc_u64 by (rule Scramble_eq_iff)
qed

theorem handshake_accepts_iff_witness:
  "accepts (fresh_server_side 10000 0) (replicate 8 0) \<longleftrightarrow> replicate 8 0 = enc_u64 (Scramble 0)"
  using handshake_accepts_iff [of "replicate 8 0" 10000 0] by simp

end
