(* ===== verification/Client_Interface.thy ===== *)
theory Client_Interface
  imports Handshake
begin

text \<open>
  \<open>src/Networking/client.h\<close>: the client framework, an extensible record for the derived class.
  \<open>leaked\<close> is the history of the connection objects that are no longer owned by anything.
\<close>

record net_client =
  connection_ptr :: "connection option"
  c_in :: "owned_message queue"
  thread_joinable :: bool
  context_stopped :: bool
  leaked :: "connection list"

definition C_IsConnected :: "'a net_client_scheme \<Rightarrow> bool" where
  "C_IsConnected s = (case connection_ptr s of Some k \<Rightarrow> IsConnected k | None \<Rightarrow> False)"

text \<open>
  \<open>resolve_ok\<close>: the resolver does not throw; the thread can be created. The new connection is owned
  by the unique pointer (the one it held is destroyed); \<open>opened\<close> says whether \<open>async_connect\<close> could
  open its socket.
\<close>

definition C_Connect :: "bool \<Rightarrow> bool \<Rightarrow> 'a net_client_scheme \<Rightarrow> (bool \<times> 'a net_client_scheme) res" where
  "C_Connect resolve_ok opened s =
     (if \<not> resolve_ok then Inr (False, s)
      else if thread_joinable s then Inl Terminate
      else Inr (True, s\<lparr>connection_ptr := Some (ConnectToServer opened (new_connection O_Client False 0)),
                  thread_joinable := True\<rparr>))"

definition C_Disconnect :: "'a net_client_scheme \<Rightarrow> 'a net_client_scheme" where
  "C_Disconnect s =
     (let s1 = (if C_IsConnected s
                then s\<lparr>connection_ptr := map_option Disconnect (connection_ptr s)\<rparr> else s);
          s2 = s1\<lparr>context_stopped := True\<rparr>;
          s3 = (if thread_joinable s2 then s2\<lparr>thread_joinable := False\<rparr> else s2)
      in s3\<lparr>connection_ptr := None,
            leaked := leaked s3 @ (case connection_ptr s3 of None \<Rightarrow> [] | Some k \<Rightarrow> [k])\<rparr>)"

definition C_Send :: "message \<Rightarrow> 'a net_client_scheme \<Rightarrow> 'a net_client_scheme" where
  "C_Send m s =
     (if \<not> C_IsConnected s then s
      else s\<lparr>connection_ptr := map_option (Send m) (connection_ptr s)\<rparr>)"

lemma C_Send_simps [simp]:
  "c_in (C_Send m s) = c_in s" "C_IsConnected (C_Send m s) = C_IsConnected s"
  by (auto simp: C_Send_def C_IsConnected_def IsConnected_def Send_def split: option.splits)

text \<open>\<open>Disconnect\<close> does not close a connection: it posts the close to a context that it then
  stops, and gives up ownership with \<open>release\<close>. The connection object stays behind, unowned,
  with its socket open and the close not run; the client itself is disconnected and can never
  send again without a new \<open>Connect\<close>.\<close>

lemma Disconnect_leaks:
  assumes "connection_ptr s = Some k" "sock_open k"
  shows "leaked (C_Disconnect s) = leaked s @ [k\<lparr>tasks := tasks k @ [T_Close]\<rparr>]
    \<and> \<not> C_IsConnected (C_Disconnect s) \<and> context_stopped (C_Disconnect s)
    \<and> C_Send m (C_Disconnect s) = C_Disconnect s"
  using assms
  by (simp add: C_Disconnect_def C_IsConnected_def IsConnected_def Disconnect_def C_Send_def Let_def)

end
