(* ===== verification/Grid_Base.thy ===== *)
theory Grid_Base
  imports Message
begin

text \<open>
  The data of class \<open>Grid\<close> (\<open>src/Snek/grid.h\<close>, \<open>src/Snek/grid.cpp\<close>), its constructor and the
  two getters that \<open>Player::Move\<close> calls. The members that alias other objects (\<open>mainLoop\<close>,
  \<open>players\<close>, \<open>powerups\<close>) are arguments of the operations that read them.
\<close>

record grid =
  rows :: cint
  cols :: cint
  cell_size :: cint
  startX :: cint
  startY :: cint
  grid_width :: cint
  grid_height :: cint

text \<open>
  The parameter order is the one of the definition in \<open>grid.cpp\<close>; the declaration in
  \<open>grid.h\<close> names the first two the other way round.
\<close>

definition new_grid :: "cint \<Rightarrow> cint \<Rightarrow> cint \<Rightarrow> cint \<Rightarrow> cint \<Rightarrow> grid res" where
  "new_grid c r sz sWidth sHeight =
     ebind (c_div sWidth 2) (\<lambda>hw.
     ebind (c_add c 0) (\<lambda>c0. ebind (c_mul sz c0) (\<lambda>a. ebind (c_div a 2) (\<lambda>ha.
     ebind (c_sub hw ha) (\<lambda>sx.
     ebind (c_div sHeight 2) (\<lambda>hh.
     ebind (c_add r 0) (\<lambda>r0. ebind (c_mul sz r0) (\<lambda>b. ebind (c_div b 2) (\<lambda>hb.
     ebind (c_sub hh hb) (\<lambda>sy0. ebind (c_add sy0 15) (\<lambda>sy.
     ebind (c_mul c sz) (\<lambda>w0. ebind (c_add w0 100) (\<lambda>w.
     ebind (c_mul r sz) (\<lambda>h0. ebind (c_add h0 130) (\<lambda>h.
     Inr \<lparr>rows = r, cols = c, cell_size = sz, startX = sx, startY = sy,
          grid_width = w, grid_height = h\<rparr>)))))))))))))))"

definition GetRowCount :: "grid \<Rightarrow> cint" where
  "GetRowCount g = rows g"

definition GetColCount :: "grid \<Rightarrow> cint" where
  "GetColCount g = cols g"

text \<open>Dimensions for which one step of \<open>Move\<close> cannot overflow.\<close>

definition grid_ok :: "grid \<Rightarrow> bool" where
  "grid_ok g \<longleftrightarrow> 0 < sint (rows g) \<and> sint (rows g) < 2 ^ 30
     \<and> 0 < sint (cols g) \<and> sint (cols g) < 2 ^ 30"

end
