(* ===== verification/Player.thy ===== *)
theory Player
  imports Grid_Base
begin

text \<open>
  \<open>src/Snek/player.h\<close> and \<open>src/Snek/player.cpp\<close>: directions, positions, the server's
  \<open>PlayerData\<close> and the client's \<open>Player\<close> with its movement on the torus. A deque of positions
  is the list from its front. A pointer to the grid is \<open>None\<close> when null.
\<close>

section \<open>Data\<close>

text \<open>\<open>enum class Direction : uint32_t\<close>; a value copied from a message may lie outside it.\<close>

datatype direction = Up | Right | Down | Left | OtherDir u32

fun dir_code :: "direction \<Rightarrow> u32" where
  "dir_code Up = 0"
| "dir_code Right = 1"
| "dir_code Down = 2"
| "dir_code Left = 3"
| "dir_code (OtherDir w) = w"

definition dir_of_code :: "u32 \<Rightarrow> direction" where
  "dir_of_code w = (if w = 0 then Up else if w = 1 then Right else if w = 2 then Down
     else if w = 3 then Left else OtherDir w)"

fun canonical_dir :: "direction \<Rightarrow> bool" where
  "canonical_dir (OtherDir w) \<longleftrightarrow> w \<noteq> 0 \<and> w \<noteq> 1 \<and> w \<noteq> 2 \<and> w \<noteq> 3"
| "canonical_dir _ \<longleftrightarrow> True"

record position =
  pos_x :: cint
  pos_y :: cint

abbreviation Pos :: "cint \<Rightarrow> cint \<Rightarrow> position" where
  "Pos a b \<equiv> \<lparr>pos_x = a, pos_y = b\<rparr>"

record player_data =
  pd_direction :: direction
  pd_tail :: "position list"
  pd_color :: u32

record player =
  tail :: "position list"
  alive :: bool
  food :: cint
  direction :: direction
  pgrid :: "grid option"
  color :: u32

section \<open>Object representations\<close>

definition enc_dir :: "direction \<Rightarrow> byte list" where
  "enc_dir d = enc_u32 (dir_code d)"

definition dec_dir :: "byte list \<Rightarrow> direction" where
  "dec_dir bs = dir_of_code (dec_u32 bs)"

definition enc_pos :: "position \<Rightarrow> byte list" where
  "enc_pos p = enc_u32 (pos_x p) @ enc_u32 (pos_y p)"

definition dec_pos :: "byte list \<Rightarrow> position" where
  "dec_pos bs = Pos (dec_u32 (take 4 bs)) (dec_u32 (drop 4 bs))"

lemma dir_code_of_code [simp, codec]: "dir_code (dir_of_code w) = w"
  by (simp add: dir_of_code_def)

lemma dir_of_code_code [simp, codec]: "canonical_dir d \<Longrightarrow> dir_of_code (dir_code d) = d"
  by (cases d) (auto simp: dir_of_code_def)

lemma canonical_dir_of_code [simp]: "canonical_dir (dir_of_code w)"
  by (simp add: dir_of_code_def)

interpretation dir: wire_codec enc_dir dec_dir 4 canonical_dir
  by unfold_locales (simp_all add: enc_dir_def dec_dir_def enc_dec_u32)

interpretation pos: wire_codec enc_pos dec_pos 8 "\<lambda>_. True"
  by unfold_locales (simp_all add: enc_pos_def dec_pos_def enc_dec_u32)

lemma enc_pos_ne [simp]: "enc_pos p \<noteq> []"
  using pos.enc_length [of p] by auto

section \<open>Operations of Player\<close>

text \<open>\<open>Player() = default\<close>, value-initialised as \<open>unordered_map::operator[]\<close> does.\<close>

definition default_player :: player where
  "default_player = \<lparr>tail = [], alive = True, food = 0, direction = Up, pgrid = None, color = 0\<rparr>"

definition new_player :: "grid option \<Rightarrow> u32 \<Rightarrow> player" where
  "new_player g c = \<lparr>tail = [], alive = True, food = 0, direction = Up, pgrid = g, color = c\<rparr>"

definition UpdateTail :: "player \<Rightarrow> player res" where
  "UpdateTail p =
     (if 0 < sint (food p) then ebind (c_sub (food p) 1) (\<lambda>f. Inr (p\<lparr>food := f\<rparr>))
      else if tail p = [] then Inl Empty_Access
      else Inr (p\<lparr>tail := butlast (tail p)\<rparr>))"

definition deref_grid :: "player \<Rightarrow> grid res" where
  "deref_grid p = (case pgrid p of None \<Rightarrow> Inl Null_Deref | Some g \<Rightarrow> Inr g)"

text \<open>\<open>((v - 1) + n) % n\<close> and \<open>((v + 1) + n) % n\<close> in 32-bit signed arithmetic.\<close>

definition dec_wrap :: "cint \<Rightarrow> cint \<Rightarrow> cint res" where
  "dec_wrap v n = ebind (c_sub v 1) (\<lambda>a. ebind (c_add a n) (\<lambda>b. c_mod b n))"

definition inc_wrap :: "cint \<Rightarrow> cint \<Rightarrow> cint res" where
  "inc_wrap v n = ebind (c_add v 1) (\<lambda>a. ebind (c_add a n) (\<lambda>b. c_mod b n))"

definition Move :: "player \<Rightarrow> player res" where
  "Move p =
     (if \<not> alive p then Inr p
      else case direction p of
        Up \<Rightarrow> ebind (front_of (tail p)) (\<lambda>h. ebind (deref_grid p) (\<lambda>g.
          ebind (dec_wrap (pos_y h) (GetRowCount g)) (\<lambda>y'.
          UpdateTail (p\<lparr>tail := Pos (pos_x h) y' # tail p\<rparr>))))
      | Right \<Rightarrow> ebind (front_of (tail p)) (\<lambda>h. ebind (deref_grid p) (\<lambda>g.
          ebind (inc_wrap (pos_x h) (GetColCount g)) (\<lambda>x'.
          UpdateTail (p\<lparr>tail := Pos x' (pos_y h) # tail p\<rparr>))))
      | Down \<Rightarrow> ebind (front_of (tail p)) (\<lambda>h. ebind (deref_grid p) (\<lambda>g.
          ebind (inc_wrap (pos_y h) (GetRowCount g)) (\<lambda>y'.
          UpdateTail (p\<lparr>tail := Pos (pos_x h) y' # tail p\<rparr>))))
      | Left \<Rightarrow> ebind (front_of (tail p)) (\<lambda>h. ebind (deref_grid p) (\<lambda>g.
          ebind (dec_wrap (pos_x h) (GetColCount g)) (\<lambda>x'.
          UpdateTail (p\<lparr>tail := Pos x' (pos_y h) # tail p\<rparr>))))
      | OtherDir w \<Rightarrow> Inr p)"

definition AddLength :: "cint \<Rightarrow> player \<Rightarrow> player res" where
  "AddLength l p = ebind (c_add (food p) l) (\<lambda>f. Inr (p\<lparr>food := f\<rparr>))"

definition SetDirection :: "direction \<Rightarrow> player \<Rightarrow> player" where
  "SetDirection d p = p\<lparr>direction := d\<rparr>"

definition Kill :: "player \<Rightarrow> player" where
  "Kill p = p\<lparr>alive := False, tail := []\<rparr>"

definition IsAlive :: "player \<Rightarrow> bool" where
  "IsAlive p = alive p"

definition GetHead :: "player \<Rightarrow> position res" where
  "GetHead p = front_of (tail p)"

definition GetColor :: "player \<Rightarrow> u32" where
  "GetColor p = color p"

definition GetDirection :: "player \<Rightarrow> direction" where
  "GetDirection p = direction p"

section \<open>Movement on the torus\<close>

definition in_grid :: "grid \<Rightarrow> position \<Rightarrow> bool" where
  "in_grid g p \<longleftrightarrow> 0 \<le> sint (pos_x p) \<and> sint (pos_x p) < sint (cols g)
     \<and> 0 \<le> sint (pos_y p) \<and> sint (pos_y p) < sint (rows g)"

text \<open>The reference: one step on the integer torus.\<close>

fun torus_step :: "direction \<Rightarrow> int \<Rightarrow> int \<Rightarrow> int \<times> int \<Rightarrow> int \<times> int" where
  "torus_step Up c r (x, y) = (x, (y - 1) mod r)"
| "torus_step Right c r (x, y) = ((x + 1) mod c, y)"
| "torus_step Down c r (x, y) = (x, (y + 1) mod r)"
| "torus_step Left c r (x, y) = ((x - 1) mod c, y)"
| "torus_step (OtherDir w) c r p = p"

definition coords :: "position \<Rightarrow> int \<times> int" where
  "coords p = (sint (pos_x p), sint (pos_y p))"

lemma wrap_ok:
  assumes "0 \<le> sint v" "sint v < sint n" "sint n < 2 ^ 30"
  shows "\<exists>w. dec_wrap v n = Inr w \<and> sint w = (sint v - 1) mod sint n"
    and "\<exists>w. inc_wrap v n = Inr w \<and> sint w = (sint v + 1) mod sint n"
proof -
  have m: "0 \<le> i mod sint n" "i mod sint n < sint n" for i
    using assms by (simp_all add: pos_mod_bound)
  have A: "sint (word_of_int (sint v - 1) :: cint) = sint v - 1"
    "sint (word_of_int (sint v - 1 + sint n) :: cint) = sint v - 1 + sint n"
    "sint (word_of_int (sint v + 1) :: cint) = sint v + 1"
    "sint (word_of_int (sint v + 1 + sint n) :: cint) = sint v + 1 + sint n"
    using assms by (intro sint_word_of_int_32; simp)+
  have M: "sint (word_of_int (i mod sint n) :: cint) = i mod sint n" for i
    using m(1) order.strict_trans [OF m(2) assms(3)] by (rule sint_word_small)
  show "\<exists>w. dec_wrap v n = Inr w \<and> sint w = (sint v - 1) mod sint n"
    using assms A M by (simp add: dec_wrap_def c_sub_def c_add_def c_int_ok c_mod_nonneg)
  show "\<exists>w. inc_wrap v n = Inr w \<and> sint w = (sint v + 1) mod sint n"
    using assms A M by (simp add: inc_wrap_def c_add_def c_int_ok c_mod_nonneg)
qed

definition known_dir :: "direction \<Rightarrow> bool" where
  "known_dir d \<longleftrightarrow> d \<in> {Up, Right, Down, Left}"

lemma known_dir_cases:
  assumes "known_dir d"
  obtains "d = Up" | "d = Right" | "d = Down" | "d = Left"
  using assms by (auto simp: known_dir_def)

definition next_head :: "grid \<Rightarrow> direction \<Rightarrow> position \<Rightarrow> position \<Rightarrow> bool" where
  "next_head g d h h' \<longleftrightarrow> in_grid g h'
     \<and> coords h' = torus_step d (sint (cols g)) (sint (rows g)) (coords h)"

lemma Move_head:
  assumes "alive p" "pgrid p = Some g" "grid_ok g" "tail p = h # ts" "in_grid g h"
    and "known_dir (direction p)"
  shows "\<exists>h'. next_head g (direction p) h h' \<and> Move p = UpdateTail (p\<lparr>tail := h' # h # ts\<rparr>)"
proof -
  have X: "0 \<le> sint (pos_x h)" "sint (pos_x h) < sint (cols g)" "sint (cols g) < 2 ^ 30"
    and Y: "0 \<le> sint (pos_y h)" "sint (pos_y h) < sint (rows g)" "sint (rows g) < 2 ^ 30"
    using assms by (simp_all add: in_grid_def grid_ok_def)
  obtain xd where xd: "dec_wrap (pos_x h) (cols g) = Inr xd"
      "sint xd = (sint (pos_x h) - 1) mod sint (cols g)"
    using wrap_ok(1) [OF X] by blast
  obtain xi where xi: "inc_wrap (pos_x h) (cols g) = Inr xi"
      "sint xi = (sint (pos_x h) + 1) mod sint (cols g)"
    using wrap_ok(2) [OF X] by blast
  obtain yd where yd: "dec_wrap (pos_y h) (rows g) = Inr yd"
      "sint yd = (sint (pos_y h) - 1) mod sint (rows g)"
    using wrap_ok(1) [OF Y] by blast
  obtain yi where yi: "inc_wrap (pos_y h) (rows g) = Inr yi"
      "sint yi = (sint (pos_y h) + 1) mod sint (rows g)"
    using wrap_ok(2) [OF Y] by blast
  have P: "0 < sint (cols g)" "0 < sint (rows g)"
    using X Y by simp_all
  let ?h = "case direction p of Up \<Rightarrow> Pos (pos_x h) yd | Right \<Rightarrow> Pos xi (pos_y h)
     | Down \<Rightarrow> Pos (pos_x h) yi | _ \<Rightarrow> Pos xd (pos_y h)"
  have "next_head g (direction p) h ?h"
    using assms(6) X Y P xd(2) xi(2) yd(2) yi(2)
    by (elim known_dir_cases) (simp_all add: next_head_def in_grid_def coords_def)
  moreover have "Move p = UpdateTail (p\<lparr>tail := ?h # h # ts\<rparr>)"
    using assms(6) xd(1) xi(1) yd(1) yi(1) assms(1,2,4)
    by (elim known_dir_cases)
       (simp_all add: Move_def deref_grid_def GetRowCount_def GetColCount_def)
  ultimately show ?thesis by blast
qed

lemma food_dec: "0 < sint (f :: cint) \<Longrightarrow> c_sub f 1 = Inr (f - 1) \<and> sint (f - 1) = sint f - 1"
proof -
  assume f: "0 < sint f"
  have eq: "word_of_int (sint f - 1) = f - 1"
    by simp
  have "c_sub f 1 = Inr (word_of_int (sint f - 1))"
    using f sint_bounds_32(2) [of f] by (simp add: c_sub_def c_int_ok)
  moreover have "sint (word_of_int (sint f - 1) :: cint) = sint f - 1"
    using f sint_bounds_32(2) [of f] by (intro sint_word_of_int_32) simp_all
  ultimately show ?thesis by (simp only: eq simp_thms)
qed

lemma UpdateTail_spec:
  "UpdateTail p =
     (if 0 < sint (food p) then Inr (p\<lparr>food := food p - 1\<rparr>)
      else if tail p = [] then Inl Empty_Access
      else Inr (p\<lparr>tail := butlast (tail p)\<rparr>))"
  by (simp add: UpdateTail_def food_dec)

text \<open>Sample data for the witnesses of properties.\<close>

definition sample_grid :: grid where
  "sample_grid = \<lparr>rows = 30, cols = 40, cell_size = 30, startX = 50, startY = 80,
     grid_width = 1300, grid_height = 1030\<rparr>"

definition sample_player :: player where
  "sample_player = \<lparr>tail = [Pos 39 5, Pos 38 5], alive = True, food = 1, direction = Right,
     pgrid = Some sample_grid, color = 7\<rparr>"

text \<open>C15: A living snake with its head on the grid and a known direction moves exactly one cell
  on the torus: the new head is the reference step of the old one, stays on the grid, the rest
  of the body follows, and the last piece is dropped unless food was eaten, in which case one
  unit of food is used up. No arithmetic overflows.\<close>

theorem Move_spec:
  assumes "alive p" "pgrid p = Some g" "grid_ok g" "tail p = h # ts" "in_grid g h"
    and "known_dir (direction p)"
  shows "\<exists>h'. in_grid g h'
    \<and> coords h' = torus_step (direction p) (sint (cols g)) (sint (rows g)) (coords h)
    \<and> Move p = Inr (if 0 < sint (food p) then p\<lparr>tail := h' # h # ts, food := food p - 1\<rparr>
                     else p\<lparr>tail := h' # butlast (h # ts)\<rparr>)"
  using Move_head [OF assms] by (auto simp: UpdateTail_spec next_head_def assms(4))

theorem Move_spec_witness:
  "\<exists>h'. in_grid sample_grid h' \<and> coords h' = (0, 5)
    \<and> Move sample_player = Inr (sample_player\<lparr>tail := [h', Pos 39 5, Pos 38 5], food := 0\<rparr>)"
  using Move_spec [of sample_player sample_grid "Pos 39 5" "[Pos 38 5]"]
  by (simp add: sample_player_def sample_grid_def grid_ok_def in_grid_def known_dir_def coords_def)

text \<open>The well-formed players of a client and what every operation keeps of it.\<close>

definition player_ok :: "grid \<Rightarrow> player \<Rightarrow> bool" where
  "player_ok g p \<longleftrightarrow> pgrid p = Some g \<and> grid_ok g \<and> (alive p \<longrightarrow> tail p \<noteq> [])
     \<and> list_all (in_grid g) (tail p)"

lemma player_ok_SetDirection [simp]: "player_ok g (SetDirection d p) \<longleftrightarrow> player_ok g p"
  by (simp add: player_ok_def SetDirection_def)

lemma player_ok_Kill: "player_ok g p \<Longrightarrow> player_ok g (Kill p)"
  by (simp add: player_ok_def Kill_def)

lemma player_ok_AddLength: "AddLength l p = Inr p' \<Longrightarrow> player_ok g p \<Longrightarrow> player_ok g p'"
  by (auto simp: player_ok_def AddLength_def)

lemma list_all_butlast: "list_all P xs \<Longrightarrow> list_all P (butlast xs)"
  by (auto simp: list_all_iff dest: in_set_butlastD)

lemma Move_dead [simp]: "\<not> alive p \<Longrightarrow> Move p = Inr p"
  by (simp add: Move_def)

lemma Move_other: "direction p = OtherDir w \<Longrightarrow> Move p = Inr p"
  by (simp add: Move_def)

lemma Move_cases:
  assumes "player_ok g p"
  obtains "Move p = Inr p" "\<not> alive p \<or> \<not> known_dir (direction p)"
  | h ts h' where "alive p" "known_dir (direction p)" "tail p = h # ts"
      "next_head g (direction p) h h'" "Move p = UpdateTail (p\<lparr>tail := h' # h # ts\<rparr>)"
proof (cases "alive p \<and> known_dir (direction p)")
  case True
  then obtain h ts where "tail p = h # ts"
    using assms by (cases "tail p") (auto simp: player_ok_def)
  with True assms Move_head [of p g h ts] that(2) show ?thesis
    by (auto simp: player_ok_def)
next
  case False
  then have "Move p = Inr p"
    by (cases "direction p") (auto simp: known_dir_def Move_other)
  with False that(1) show ?thesis by blast
qed

lemma UpdateTail_ok:
  assumes "player_ok g p" and "tail p = h' # h # ts"
  shows "\<exists>p'. UpdateTail p = Inr p' \<and> player_ok g p' \<and> alive p' = alive p
    \<and> direction p' = direction p \<and> color p' = color p
    \<and> length (tail p') = (if 0 < sint (food p) then length (tail p) else length (tail p) - 1)
    \<and> food p' = (if 0 < sint (food p) then food p - 1 else food p)"
  using assms list_all_butlast [of "in_grid g" "tail p"]
  by (auto simp: UpdateTail_spec player_ok_def)

lemma Move_ok:
  assumes "player_ok g p"
  shows "\<exists>p'. Move p = Inr p' \<and> player_ok g p' \<and> alive p' = alive p
    \<and> direction p' = direction p \<and> color p' = color p"
  using assms
proof (cases rule: Move_cases)
  case 1
  with assms show ?thesis by auto
next
  case (2 h ts h')
  then have "player_ok g (p\<lparr>tail := h' # h # ts\<rparr>)"
    using assms by (auto simp: player_ok_def next_head_def)
  from UpdateTail_ok [OF this, of h' h ts] 2 show ?thesis by auto
qed

lemma UpdateTail_food:
  "UpdateTail p = Inr p' \<Longrightarrow> food p' = (if 0 < sint (food p) then food p - 1 else food p)"
  by (auto simp: UpdateTail_spec split: if_splits)

lemma Move_food:
  "Move p = Inr p' \<Longrightarrow> food p' = food p \<or> 0 < sint (food p) \<and> food p' = food p - 1"
  by (auto simp: Move_def split: if_splits direction.splits dest!: UpdateTail_food)

lemma sample_player_ok: "player_ok sample_grid sample_player"
  by (simp add: player_ok_def sample_player_def sample_grid_def grid_ok_def in_grid_def)

text \<open>C30: Every operation of \<open>Player\<close> keeps a player well-formed (all pieces on the grid, a living
  snake has a head). \<open>Move\<close> never fails on one, whatever direction value it holds, alive or
  dead, and keeps its life, direction and colour; \<open>GetHead\<close> succeeds for the living, and in general
  exactly if the tail is not empty, which that of a killed player is; otherwise it accesses the front
  of an empty deque; \<open>AddLength\<close> fails exactly if the signed addition overflows.\<close>

theorem Player_operations_keep_ok:
  assumes "player_ok g p"
  shows "(\<exists>p'. Move p = Inr p' \<and> player_ok g p' \<and> alive p' = alive p
      \<and> direction p' = direction p \<and> color p' = color p)
    \<and> player_ok g (SetDirection d p) \<and> player_ok g (Kill p)
    \<and> (IsAlive p \<longrightarrow> (\<exists>h. GetHead p = Inr h \<and> in_grid g h))
    \<and> (if tail p = [] then GetHead p = Inl Empty_Access else \<exists>h. GetHead p = Inr h \<and> in_grid g h)
    \<and> (if - (2 ^ 31) \<le> sint (food p) + sint l \<and> sint (food p) + sint l < 2 ^ 31
       then \<exists>p'. AddLength l p = Inr p' \<and> player_ok g p'
       else AddLength l p = Inl Signed_Overflow)"
proof -
  have "IsAlive p \<Longrightarrow> \<exists>h. GetHead p = Inr h \<and> in_grid g h"
    using assms by (cases "tail p") (auto simp: IsAlive_def GetHead_def player_ok_def)
  moreover have "if - (2 ^ 31) \<le> sint (food p) + sint l \<and> sint (food p) + sint l < 2 ^ 31
      then \<exists>p'. AddLength l p = Inr p' \<and> player_ok g p' else AddLength l p = Inl Signed_Overflow"
    using assms by (auto simp: AddLength_def c_add_def c_int_def player_ok_def)
  moreover have "if tail p = [] then GetHead p = Inl Empty_Access else \<exists>h. GetHead p = Inr h \<and> in_grid g h"
    using assms by (cases "tail p") (auto simp: GetHead_def front_of_def player_ok_def)
  ultimately show ?thesis
    using Move_ok [OF assms] player_ok_Kill [OF assms] assms by simp
qed

theorem Player_operations_keep_ok_witness:
  "(\<exists>p'. Move sample_player = Inr p' \<and> player_ok sample_grid p')
    \<and> (\<exists>h. GetHead sample_player = Inr h \<and> in_grid sample_grid h)
    \<and> (\<exists>p'. AddLength 1 sample_player = Inr p' \<and> player_ok sample_grid p')"
  using Player_operations_keep_ok [OF sample_player_ok, of Up 1]
  by (auto simp: IsAlive_def) (simp_all add: sample_player_def)

text \<open>Playing a list of directions: one turn and one move per element.\<close>

primrec play :: "direction list \<Rightarrow> player \<Rightarrow> player res" where
  "play [] p = Inr p"
| "play (d # ds) p = ebind (Move (SetDirection d p)) (\<lambda>p'. play ds p')"

lemma Move_length:
  assumes "player_ok g p" "alive p" "known_dir (direction p)"
  shows "\<exists>p'. Move p = Inr p' \<and> player_ok g p' \<and> alive p'
    \<and> length (tail p') = length (tail p) + (if 0 < sint (food p) then 1 else 0)
    \<and> food p' = (if 0 < sint (food p) then food p - 1 else food p)"
  using assms(1)
proof (cases rule: Move_cases)
  case 1
  with assms show ?thesis by auto
next
  case (2 h ts h')
  then have "player_ok g (p\<lparr>tail := h' # h # ts\<rparr>)"
    using assms by (auto simp: player_ok_def next_head_def)
  from UpdateTail_ok [OF this, of h' h ts] 2 assms show ?thesis by auto
qed

text \<open>However a living snake is steered, it grows by exactly one piece per move until the
  food it has eaten is used up, and keeps its length from then on.\<close>

lemma play_length:
  assumes "player_ok g p" "alive p" "list_all known_dir ds" "0 \<le> sint (food p)"
  shows "\<exists>p'. play ds p = Inr p' \<and> player_ok g p' \<and> alive p'
    \<and> length (tail p') = length (tail p) + min (length ds) (nat (sint (food p)))
    \<and> sint (food p') = max 0 (sint (food p) - int (length ds))"
  using assms
proof (induction ds arbitrary: p)
  case Nil
  then show ?case by simp
next
  case (Cons d ds)
  let ?p = "SetDirection d p"
  have "player_ok g ?p" "alive ?p" "known_dir (direction ?p)" "food ?p = food p"
    "tail ?p = tail p"
    using Cons.prems by (simp_all, simp_all add: SetDirection_def)
  then obtain p1 where p1: "Move ?p = Inr p1" "player_ok g p1" "alive p1"
    "length (tail p1) = length (tail p) + (if 0 < sint (food p) then 1 else 0)"
    "food p1 = (if 0 < sint (food p) then food p - 1 else food p)"
    using Move_length [of g ?p] by auto
  then have f1: "sint (food p1) = (if 0 < sint (food p) then sint (food p) - 1 else sint (food p))"
    using food_dec [of "food p"] by simp
  with Cons.prems have "0 \<le> sint (food p1)" by simp
  with p1 Cons.prems obtain p' where
    "play ds p1 = Inr p'" "player_ok g p'" "alive p'"
    "length (tail p') = length (tail p1) + min (length ds) (nat (sint (food p1)))"
    "sint (food p') = max 0 (sint (food p1) - int (length ds))"
    using Cons.IH [of p1] by auto
  with p1 f1 Cons.prems show ?case by auto
qed

lemma play_length_example:
  "\<exists>p'. play [Up, Left, Left] sample_player = Inr p' \<and> length (tail p') = 3"
proof -
  have "alive sample_player" "0 \<le> sint (food sample_player)" "length (tail sample_player) = 2"
    "food sample_player = 1"
    by (simp_all add: sample_player_def)
  with play_length [OF sample_player_ok, of "[Up, Left, Left]"] show ?thesis
    by (auto simp: known_dir_def simp del: play.simps)
qed

end
