(* ===== verification/Powerups.thy ===== *)
theory Powerups
  imports Player
begin

text \<open>\<open>src/Snek/powerups.h\<close> and \<open>src/Snek/powerups.cpp\<close>.\<close>

record powerup_data =
  pw_x :: cint
  pw_y :: cint

record powerup =
  pu_x :: cint
  pu_y :: cint
  pu_color :: u32

abbreviation PowerupData :: "cint \<Rightarrow> cint \<Rightarrow> powerup_data" where
  "PowerupData a b \<equiv> \<lparr>pw_x = a, pw_y = b\<rparr>"

definition new_powerup :: "cint \<Rightarrow> cint \<Rightarrow> u32 \<Rightarrow> powerup" where
  "new_powerup a b c = \<lparr>pu_x = a, pu_y = b, pu_color = c\<rparr>"

text \<open>\<open>Powerup() = default\<close>, value-initialised by \<open>std::vector<Powerup>(n)\<close>: all zero.\<close>

definition default_powerup :: powerup where
  "default_powerup = \<lparr>pu_x = 0, pu_y = 0, pu_color = 0\<rparr>"

definition CheckCollision :: "powerup \<Rightarrow> position \<Rightarrow> bool" where
  "CheckCollision w p = (if pu_x w = pos_x p \<and> pu_y w = pos_y p then True else False)"

definition Powerup_GetColor :: "powerup \<Rightarrow> u32" where
  "Powerup_GetColor w = pu_color w"

definition enc_powerup :: "powerup_data \<Rightarrow> byte list" where
  "enc_powerup w = enc_u32 (pw_x w) @ enc_u32 (pw_y w)"

definition dec_powerup :: "byte list \<Rightarrow> powerup_data" where
  "dec_powerup bs = PowerupData (dec_u32 (take 4 bs)) (dec_u32 (drop 4 bs))"

interpretation pw: wire_codec enc_powerup dec_powerup 8 "\<lambda>_. True"
  by unfold_locales (simp_all add: enc_powerup_def dec_powerup_def enc_dec_u32)

end
