(* ===== verification/Snake_Client.thy ===== *)
theory Snake_Client
  imports Client_Interface Powerups
begin

text \<open>
  \<open>src/Snek/snakeclient.h\<close> and \<open>snakeclient.cpp\<close>: the game client, a \<open>ClientInterface\<close> with
  references to the objects of \<open>main.cpp\<close>: the own identifier, the powerups, the players and the
  grid. \<open>players\<close> is an unordered map: an association list in its iteration order, with
  \<open>operator[]\<close> inserting a default player for a missing key. The colour of powerups comes from
  Dear ImGui's \<open>ImColor\<close> and is the argument \<open>red\<close>. The output to \<open>std::cout\<close> is left out,
  and the allocations are taken to succeed.
\<close>

section \<open>State\<close>

record snake_client = net_client +
  gameStarted :: bool
  clientID :: cint
  cl_powerups :: "powerup list"
  cl_players :: "(u32 \<times> player) list"
  gridPointer :: "grid option"

definition new_client :: "grid option \<Rightarrow> snake_client" where
  "new_client g = \<lparr>connection_ptr = None, c_in = [], thread_joinable = False,
     context_stopped = False, leaked = [], gameStarted = False, clientID = -1,
     cl_powerups = [], cl_players = [], gridPointer = g\<rparr>"

text \<open>\<open>players[k]\<close> as a value, and after a change of the player it refers to.\<close>

definition player_at :: "u32 \<Rightarrow> snake_client \<Rightarrow> player" where
  "player_at k s = (case map_of (cl_players s) k of Some p \<Rightarrow> p | None \<Rightarrow> default_player)"

definition set_player :: "u32 \<Rightarrow> player \<Rightarrow> snake_client \<Rightarrow> snake_client" where
  "set_player k p s = s\<lparr>cl_players := AList.update k p (cl_players s)\<rparr>"

definition touch :: "u32 \<Rightarrow> snake_client \<Rightarrow> snake_client" where
  "touch k s = set_player k (player_at k s) s"

section \<open>Messages to the server\<close>

definition update_message :: "cint \<Rightarrow> player \<Rightarrow> message" where
  "update_message cid p =
     put enc_u32 cid
       (put enc_dir (GetDirection p)
         (put enc_u64 (word_of_nat (length (tail p)))
           (put_all enc_pos (tail p) (message_of UpdatePlayer))))"

definition UpdateServer :: "snake_client \<Rightarrow> snake_client" where
  "UpdateServer s =
     (let s1 = touch (clientID s) s
      in C_Send (update_message (clientID s1) (player_at (clientID s1) s1)) s1)"

definition EatPowerup :: "nat \<Rightarrow> snake_client \<Rightarrow> snake_client res" where
  "EatPowerup c s =
     (if length (cl_powerups s) \<le> c then Inl Index_Error
      else
        let w = cl_powerups s ! c;
            powerupEaten = PowerupData (pu_x w) (pu_y w)
        in ebind (AddLength 1 (player_at (clientID s) s)) (\<lambda>p.
           let s1 = set_player (clientID s) p s;
               s2 = s1\<lparr>cl_powerups := take c (cl_powerups s1) @ drop (Suc c) (cl_powerups s1)\<rparr>
           in Inr (C_Send (put enc_powerup powerupEaten (message_of PowerupEaten)) s2)))"

definition IsGameStarted :: "snake_client \<Rightarrow> bool" where
  "IsGameStarted s = gameStarted s"

definition AttemptGameStart :: "snake_client \<Rightarrow> snake_client" where
  "AttemptGameStart s = (if \<not> IsGameStarted s then C_Send (message_of StartGame) s else s)"

section \<open>Messages from the server\<close>

text \<open>The three loops of \<open>ServerValidation\<close>; the last one is also that of \<open>NewPlayer\<close>.\<close>

primrec read_powerups :: "u32 \<Rightarrow> nat \<Rightarrow> powerup list \<Rightarrow> message \<Rightarrow> (powerup list \<times> message) res" where
  "read_powerups red 0 ws msg = Inr (ws, msg)"
| "read_powerups red (Suc n) ws msg =
     ebind (get dec_powerup 8 msg) (\<lambda>(w, msg').
       read_powerups red n (ws @ [new_powerup (pw_x w) (pw_y w) red]) msg')"

definition read_player :: "grid option \<Rightarrow> message \<Rightarrow> (u32 \<times> player \<times> message) res" where
  "read_player g msg =
     ebind (get dec_u32 4 msg) (\<lambda>(pid, m1).
     ebind (get dec_u32 4 m1) (\<lambda>(col, m2).
     ebind (get dec_u64 8 m2) (\<lambda>(tailSize, m3).
     ebind (get_front dec_pos 8 (unat tailSize) (tail (new_player g col)) m3) (\<lambda>(t, m4).
     Inr (pid, (new_player g col)\<lparr>tail := t\<rparr>, m4)))))"

primrec read_players :: "nat \<Rightarrow> message \<Rightarrow> snake_client \<Rightarrow> (message \<times> snake_client) res" where
  "read_players 0 msg s = Inr (msg, s)"
| "read_players (Suc n) msg s =
     ebind (read_player (gridPointer s) msg) (\<lambda>(pid, p, msg').
       read_players n msg' (set_player pid p s))"

definition on_server_validation :: "u32 \<Rightarrow> message \<Rightarrow> snake_client \<Rightarrow> snake_client res" where
  "on_server_validation red msg s =
     ebind (get dec_u32 4 msg) (\<lambda>(cid, m1).
     ebind (get dec_u64 8 m1) (\<lambda>(powerupCount, m2).
     ebind (read_powerups red (unat powerupCount)
              (replicate (unat powerupCount) default_powerup) m2) (\<lambda>(ws, m3).
     ebind (get dec_u64 8 m3) (\<lambda>(playerCount, m4).
     ebind (read_players (unat playerCount) m4 (s\<lparr>clientID := cid, cl_powerups := ws\<rparr>)) (\<lambda>(_, s').
     Inr s')))))"

definition on_new_player :: "message \<Rightarrow> snake_client \<Rightarrow> snake_client res" where
  "on_new_player msg s =
     ebind (read_player (gridPointer s) msg) (\<lambda>(newClientID, newPlayer, _).
     Inr (set_player newClientID newPlayer s))"

definition on_remove_player :: "message \<Rightarrow> snake_client \<Rightarrow> snake_client res" where
  "on_remove_player msg s =
     ebind (get dec_u32 4 msg) (\<lambda>(cid, _). Inr (s\<lparr>cl_players := AList.delete cid (cl_players s)\<rparr>))"

definition on_new_powerup :: "u32 \<Rightarrow> message \<Rightarrow> snake_client \<Rightarrow> snake_client res" where
  "on_new_powerup red msg s =
     ebind (get dec_powerup 8 msg) (\<lambda>(w, _).
     Inr (s\<lparr>cl_powerups := cl_powerups s @ [new_powerup (pw_x w) (pw_y w) red]\<rparr>))"

definition on_update :: "message \<Rightarrow> snake_client \<Rightarrow> snake_client res" where
  "on_update msg s =
     ebind (get dec_u32 4 msg) (\<lambda>(newClientID, m1).
     ebind (get dec_dir 4 m1) (\<lambda>(dir, m2).
     ebind (get dec_u64 8 m2) (\<lambda>(tailSize, m3).
     ebind (get_front dec_pos 8 (unat tailSize) [] m3) (\<lambda>(t, _).
     Inr (set_player newClientID ((SetDirection dir (player_at newClientID s))\<lparr>tail := t\<rparr>) s)))))"

definition on_powerup_gone :: "message \<Rightarrow> snake_client \<Rightarrow> snake_client res" where
  "on_powerup_gone msg s =
     ebind (get dec_powerup 8 msg) (\<lambda>(w, _).
     Inr (s\<lparr>cl_powerups := erase_first (\<lambda>v. pu_x v = pw_x w \<and> pu_y v = pw_y w) (cl_powerups s)\<rparr>))"

definition on_kill :: "message \<Rightarrow> snake_client \<Rightarrow> snake_client res" where
  "on_kill msg s =
     ebind (get dec_u32 4 msg) (\<lambda>(pid, _). Inr (set_player pid (Kill (player_at pid s)) s))"

definition handle_message :: "u32 \<Rightarrow> message \<Rightarrow> snake_client \<Rightarrow> snake_client res" where
  "handle_message red msg s =
     (case msg_type msg of
        ServerValidation \<Rightarrow> on_server_validation red msg s
      | NewPlayer \<Rightarrow> on_new_player msg s
      | RemovePlayer \<Rightarrow> on_remove_player msg s
      | NewPowerup \<Rightarrow> on_new_powerup red msg s
      | UpdatePlayer \<Rightarrow> on_update msg s
      | PowerupEaten \<Rightarrow> on_powerup_gone msg s
      | StartGame \<Rightarrow> Inr (s\<lparr>gameStarted := True\<rparr>)
      | KillPlayer \<Rightarrow> on_kill msg s
      | OtherType w \<Rightarrow> Inr s)"

section \<open>What the handlers leave alone\<close>

lemma set_player_fields [simp]:
  "c_in (set_player k p s) = c_in s" "connection_ptr (set_player k p s) = connection_ptr s"
  "gridPointer (set_player k p s) = gridPointer s" "clientID (set_player k p s) = clientID s"
  "cl_powerups (set_player k p s) = cl_powerups s" "gameStarted (set_player k p s) = gameStarted s"
  by (simp_all add: set_player_def)

lemma read_players_fields:
  "read_players n msg s = Inr (msg', s') \<Longrightarrow> c_in s' = c_in s \<and> connection_ptr s' = connection_ptr s
     \<and> gridPointer s' = gridPointer s \<and> clientID s' = clientID s \<and> cl_powerups s' = cl_powerups s
     \<and> gameStarted s' = gameStarted s"
proof (induction n arbitrary: msg s)
  case (Suc n)
  then obtain pid p m1 where "read_players n m1 (set_player pid p s) = Inr (msg', s')"
    by (auto split: prod.splits)
  from Suc.IH [OF this] show ?case by simp
qed simp

lemma handle_message_c_in: "handle_message red m s = Inr s' \<Longrightarrow> c_in s' = c_in s"
  by (cases "msg_type m")
     (auto simp: handle_message_def on_server_validation_def on_new_player_def on_remove_player_def
        on_new_powerup_def on_update_def on_powerup_gone_def on_kill_def split: prod.splits
        dest!: read_players_fields)

function HandleMessages :: "u32 \<Rightarrow> snake_client \<Rightarrow> snake_client res" where
  "HandleMessages red s =
     (if \<not> IsEmpty (c_in s)
      then ebind (PopFront (c_in s)) (\<lambda>(msg, q).
           ebind (handle_message red (omsg msg) (s\<lparr>c_in := q\<rparr>)) (HandleMessages red))
      else Inr s)"
  by pat_completeness auto
termination
  by (relation "measure (\<lambda>(red, s). length (c_in s))")
     (auto dest!: handle_message_c_in simp: neq_Nil_conv)

declare HandleMessages.simps [simp del]

lemma HandleMessages_Nil: "c_in s = [] \<Longrightarrow> HandleMessages red s = Inr s"
  by (subst HandleMessages.simps) simp

lemma HandleMessages_Cons:
  "c_in s = m # q \<Longrightarrow> HandleMessages red s
     = ebind (handle_message red (omsg m) (s\<lparr>c_in := q\<rparr>)) (HandleMessages red)"
  by (subst HandleMessages.simps) simp

text \<open>The messages one after the other, each handled with the later ones still in the queue.\<close>

primrec handle_all :: "u32 \<Rightarrow> owned_message list \<Rightarrow> snake_client \<Rightarrow> snake_client res" where
  "handle_all red [] s = Inr s"
| "handle_all red (m # ms) s =
     ebind (handle_message red (omsg m) (s\<lparr>c_in := ms\<rparr>)) (handle_all red ms)"

lemma handle_message_keeps: "handle_message red m s = Inr s' \<Longrightarrow>
    connection_ptr s' = connection_ptr s \<and> gridPointer s' = gridPointer s
    \<and> (msg_type m \<noteq> ServerValidation \<longrightarrow> clientID s' = clientID s)"
  by (cases "msg_type m")
     (auto simp: handle_message_def on_server_validation_def on_new_player_def on_remove_player_def
        on_new_powerup_def on_update_def on_powerup_gone_def on_kill_def split: prod.splits
        dest!: read_players_fields)

lemma HandleMessages_all: "c_in s = ms \<Longrightarrow> HandleMessages red s = handle_all red ms s"
proof (induction ms arbitrary: s)
  case Nil
  then show ?case by (simp add: HandleMessages_Nil)
next
  case (Cons m ms)
  show ?case
  proof (cases "handle_message red (omsg m) (s\<lparr>c_in := ms\<rparr>)")
    case (Inr t)
    then have "c_in t = ms" by (auto dest: handle_message_c_in)
    with Cons Inr show ?thesis by (simp add: HandleMessages_Cons)
  qed (simp add: HandleMessages_Cons [OF Cons.prems])
qed

lemma handle_all_keeps: "handle_all red ms s = Inr s' \<Longrightarrow> c_in s = ms \<Longrightarrow>
    c_in s' = [] \<and> connection_ptr s' = connection_ptr s \<and> gridPointer s' = gridPointer s
    \<and> ((\<forall>m\<in>set ms. msg_type (omsg m) \<noteq> ServerValidation) \<longrightarrow> clientID s' = clientID s)"
proof (induction ms arbitrary: s)
  case (Cons m ms)
  then obtain t where t: "handle_message red (omsg m) (s\<lparr>c_in := ms\<rparr>) = Inr t"
    "handle_all red ms t = Inr s'" by auto
  with Cons.IH [OF t(2)] handle_message_c_in [OF t(1)] handle_message_keeps [OF t(1)]
  show ?case by auto
qed simp

text \<open>\<open>HandleMessages\<close> handles every message that is in the queue, in the order of arrival,
  leaves the queue empty, and neither sends anything nor changes the connection or the grid;
  only the server's validation message changes the identifier.\<close>

lemma HandleMessages_in_order:
  "HandleMessages red s = handle_all red (c_in s) s
   \<and> (\<forall>s'. HandleMessages red s = Inr s' \<longrightarrow> c_in s' = [] \<and> connection_ptr s' = connection_ptr s
        \<and> gridPointer s' = gridPointer s
        \<and> ((\<forall>m\<in>set (c_in s). msg_type (omsg m) \<noteq> ServerValidation) \<longrightarrow> clientID s' = clientID s))"
  using HandleMessages_all [OF refl] handle_all_keeps [OF _ refl] by metis

lemma HandleMessages_in_order_example:
  "\<exists>s'. HandleMessages 0 ((new_client None)\<lparr>c_in := [\<lparr>remote = None, omsg = message_of StartGame\<rparr>]\<rparr>)
      = Inr s' \<and> c_in s' = [] \<and> clientID s' = -1"
proof -
  let ?s = "(new_client None)\<lparr>c_in := [\<lparr>remote = None, omsg = message_of StartGame\<rparr>]\<rparr>"
  have H: "HandleMessages 0 ?s = handle_all 0 (c_in ?s) ?s"
    using HandleMessages_in_order [of 0 ?s] by blast
  then obtain s' where "HandleMessages 0 ?s = Inr s'"
    by (simp add: handle_message_def)
  with HandleMessages_in_order [of 0 ?s] show ?thesis
    by (auto simp: new_client_def)
qed

end
