(* ===== verification/Input.thy ===== *)
theory Input
  imports Snake_Client
begin

text \<open>
  \<open>src/Snek/inputhandler.cpp\<close>: the key callback of GLFW. Its globals \<open>client\<close>, \<open>clientID\<close> and
  \<open>players\<close> are the state of the client. The key codes are the macros of
  \<open>src/lib/glfw-3.3.9/glfw3.h\<close> that the function names.
\<close>

section \<open>Keys\<close>

definition GLFW_PRESS :: cint where "GLFW_PRESS = 1"
definition GLFW_KEY_A :: cint where "GLFW_KEY_A = 65"
definition GLFW_KEY_D :: cint where "GLFW_KEY_D = 68"
definition GLFW_KEY_P :: cint where "GLFW_KEY_P = 80"
definition GLFW_KEY_S :: cint where "GLFW_KEY_S = 83"
definition GLFW_KEY_W :: cint where "GLFW_KEY_W = 87"
definition GLFW_KEY_RIGHT :: cint where "GLFW_KEY_RIGHT = 262"
definition GLFW_KEY_LEFT :: cint where "GLFW_KEY_LEFT = 263"
definition GLFW_KEY_DOWN :: cint where "GLFW_KEY_DOWN = 264"
definition GLFW_KEY_UP :: cint where "GLFW_KEY_UP = 265"

lemmas glfw_defs = GLFW_PRESS_def GLFW_KEY_A_def GLFW_KEY_D_def GLFW_KEY_P_def GLFW_KEY_S_def
  GLFW_KEY_W_def GLFW_KEY_RIGHT_def GLFW_KEY_LEFT_def GLFW_KEY_DOWN_def GLFW_KEY_UP_def

section \<open>The callback\<close>

text \<open>
  \<open>if ((key == k1 || key == k2) && action == GLFW_PRESS && players[clientID].GetDirection() != no)
  players[clientID].SetDirection(d)\<close>; the subscript is evaluated only if the first two
  conditions hold.
\<close>

definition steer :: "cint \<Rightarrow> cint \<Rightarrow> direction \<Rightarrow> direction \<Rightarrow> cint \<Rightarrow> cint
    \<Rightarrow> snake_client \<Rightarrow> snake_client" where
  "steer k1 k2 no d key action s =
     (if (key = k1 \<or> key = k2) \<and> action = GLFW_PRESS
      then let p = player_at (clientID s) s
           in if GetDirection p \<noteq> no then set_player (clientID s) (SetDirection d p) s
              else touch (clientID s) s
      else s)"

definition key_callback :: "cint \<Rightarrow> cint \<Rightarrow> snake_client \<Rightarrow> snake_client" where
  "key_callback key action s =
     (if sint (clientID s) < 0 then s
      else
        let s0 = (if key = GLFW_KEY_P \<and> action = GLFW_PRESS then AttemptGameStart s else s);
            s1 = steer GLFW_KEY_W GLFW_KEY_UP Down Up key action s0;
            s2 = steer GLFW_KEY_A GLFW_KEY_LEFT Right Left key action s1;
            s3 = steer GLFW_KEY_S GLFW_KEY_DOWN Up Down key action s2
        in steer GLFW_KEY_D GLFW_KEY_RIGHT Left Right key action s3)"

section \<open>One key press and two\<close>

fun opposite :: "direction \<Rightarrow> direction" where
  "opposite Up = Down"
| "opposite Right = Left"
| "opposite Down = Up"
| "opposite Left = Right"
| "opposite (OtherDir w) = OtherDir w"

abbreviation heading :: "snake_client \<Rightarrow> direction" where
  "heading s \<equiv> direction (player_at (clientID s) s)"

lemma player_at_set [simp]:
  "player_at k (set_player k' p s) = (if k = k' then p else player_at k s)"
  by (simp add: player_at_def set_player_def update_conv')

lemma C_Send_client [simp]:
  "clientID (C_Send m s) = clientID s" "cl_players (C_Send m s) = cl_players s"
  "cl_powerups (C_Send m s) = cl_powerups s" "gridPointer (C_Send m s) = gridPointer s"
  "gameStarted (C_Send m s) = gameStarted s" "player_at k (C_Send m s) = player_at k s"
  by (simp_all add: C_Send_def player_at_def)

lemma AttemptGameStart_client [simp]:
  "clientID (AttemptGameStart s) = clientID s" "player_at k (AttemptGameStart s) = player_at k s"
  "cl_players (AttemptGameStart s) = cl_players s"
  by (simp_all add: AttemptGameStart_def)

text \<open>The key decides the new direction, and every other part of the own player stays.\<close>

definition key_dir :: "cint \<Rightarrow> direction option" where
  "key_dir key =
     (if key = GLFW_KEY_W \<or> key = GLFW_KEY_UP then Some Up
      else if key = GLFW_KEY_A \<or> key = GLFW_KEY_LEFT then Some Left
      else if key = GLFW_KEY_S \<or> key = GLFW_KEY_DOWN then Some Down
      else if key = GLFW_KEY_D \<or> key = GLFW_KEY_RIGHT then Some Right else None)"

lemma steer_clientID [simp]: "clientID (steer k1 k2 no d key action s) = clientID s"
  by (simp add: steer_def Let_def touch_def)

lemma key_callback_clientID [simp]: "clientID (key_callback key action s) = clientID s"
  by (simp add: key_callback_def Let_def)

lemma player_at_steer: "player_at k (steer k1 k2 no d key action s) =
    (if (key = k1 \<or> key = k2) \<and> action = GLFW_PRESS \<and> k = clientID s
        \<and> direction (player_at k s) \<noteq> no then SetDirection d (player_at k s) else player_at k s)"
  by (auto simp: steer_def Let_def touch_def GetDirection_def)

lemma steer_skip [simp]: "key \<noteq> k1 \<Longrightarrow> key \<noteq> k2 \<Longrightarrow> steer k1 k2 no d key action s = s"
  "action \<noteq> GLFW_PRESS \<Longrightarrow> steer k1 k2 no d key action s = s"
  by (simp_all add: steer_def)

text \<open>Each key reaches the one test that names it.\<close>

lemma key_callback_steer:
  assumes "0 \<le> sint (clientID s)"
  shows "key = GLFW_KEY_W \<or> key = GLFW_KEY_UP \<Longrightarrow>
      key_callback key action s = steer GLFW_KEY_W GLFW_KEY_UP Down Up key action s"
    and "key = GLFW_KEY_A \<or> key = GLFW_KEY_LEFT \<Longrightarrow>
      key_callback key action s = steer GLFW_KEY_A GLFW_KEY_LEFT Right Left key action s"
    and "key = GLFW_KEY_S \<or> key = GLFW_KEY_DOWN \<Longrightarrow>
      key_callback key action s = steer GLFW_KEY_S GLFW_KEY_DOWN Up Down key action s"
    and "key = GLFW_KEY_D \<or> key = GLFW_KEY_RIGHT \<Longrightarrow>
      key_callback key action s = steer GLFW_KEY_D GLFW_KEY_RIGHT Left Right key action s"
  using assms by (elim disjE; simp add: key_callback_def Let_def glfw_defs)+

lemma steer_players: "(steer k1 k2 no d key action s)\<lparr>cl_players := ps\<rparr> = s\<lparr>cl_players := ps\<rparr>"
  by (simp add: steer_def Let_def touch_def set_player_def)

lemma key_callback_other:
  assumes "key_dir key = None"
  shows "player_at k (key_callback key action s) = player_at k s"
proof -
  have "key \<noteq> GLFW_KEY_W" "key \<noteq> GLFW_KEY_UP" "key \<noteq> GLFW_KEY_A" "key \<noteq> GLFW_KEY_LEFT"
    "key \<noteq> GLFW_KEY_S" "key \<noteq> GLFW_KEY_DOWN" "key \<noteq> GLFW_KEY_D" "key \<noteq> GLFW_KEY_RIGHT"
    using assms unfolding key_dir_def by (metis option.distinct(1))+
  then show ?thesis by (simp add: key_callback_def Let_def)
qed

lemma key_dir_cases:
  assumes "key_dir key = Some d"
  obtains "d = Up" "key = GLFW_KEY_W \<or> key = GLFW_KEY_UP"
  | "d = Left" "key = GLFW_KEY_A \<or> key = GLFW_KEY_LEFT"
  | "d = Down" "key = GLFW_KEY_S \<or> key = GLFW_KEY_DOWN"
  | "d = Right" "key = GLFW_KEY_D \<or> key = GLFW_KEY_RIGHT"
  using assms unfolding key_dir_def by (auto split: if_splits)

lemma player_at_key_callback: "player_at k (key_callback key action s) =
    (if sint (clientID s) < 0 \<or> action \<noteq> GLFW_PRESS \<or> k \<noteq> clientID s then player_at k s
     else case key_dir key of None \<Rightarrow> player_at k s
     | Some d \<Rightarrow> if direction (player_at k s) = opposite d then player_at k s
         else SetDirection d (player_at k s))"
proof (cases "sint (clientID s) < 0")
  case True
  then show ?thesis by (simp add: key_callback_def)
next
  case False
  then have pos: "0 \<le> sint (clientID s)" by simp
  show ?thesis
  proof (cases "key_dir key")
    case None
    then show ?thesis by (simp add: key_callback_other)
  next
    case (Some d)
    then show ?thesis
      by (cases rule: key_dir_cases)
         (use pos Some in \<open>simp_all only: key_callback_steer [OF pos] player_at_steer\<close>, auto)
  qed
qed

text \<open>A sample client for the witnesses: its snake heads right, and one powerup is in its way.\<close>

definition heading_right :: player where
  "heading_right = \<lparr>tail = [Pos 6 5, Pos 5 5], alive = True, food = 0, direction = Right,
     pgrid = Some sample_grid, color = 7\<rparr>"

definition sample_client :: snake_client where
  "sample_client = (new_client (Some sample_grid))\<lparr>clientID := 10000,
     connection_ptr := Some sample_conn, cl_players := [(10000, heading_right)],
     cl_powerups := [new_powerup 7 5 1, new_powerup 9 9 1]\<rparr>"

lemma sample_client_simps:
  "clientID sample_client = 10000" "player_at 10000 sample_client = heading_right"
  "cl_players sample_client = [(10000, heading_right)]"
  "cl_powerups sample_client = [new_powerup 7 5 1, new_powerup 9 9 1]"
  "connection_ptr sample_client = Some sample_conn" "c_in sample_client = []"
  "gridPointer sample_client = Some sample_grid"
  by (simp_all add: sample_client_def new_client_def player_at_def)

lemma heading_right_ok: "player_ok sample_grid heading_right" "alive heading_right"
  by (simp_all add: player_ok_def heading_right_def sample_grid_def grid_ok_def in_grid_def)

text \<open>C28: A key event never reverses the snake: the player of this client turns to the direction
  of the key, if the key is one of the eight steering keys, was pressed (not released or
  repeated) and the snake is not heading the opposite way. No other player changes, and of the
  client nothing but the players, except that the key P sends \<open>StartGame\<close> unless the game has
  started; before the identifier has been received nothing happens at all.\<close>

theorem key_callback_spec:
  "player_at k (key_callback key action s) =
     (if 0 \<le> sint (clientID s) \<and> action = GLFW_PRESS \<and> k = clientID s
         \<and> (\<exists>d. key_dir key = Some d \<and> heading s \<noteq> opposite d)
      then SetDirection (the (key_dir key)) (player_at k s) else player_at k s)
   \<and> (\<forall>d. opposite d \<noteq> d \<and> heading s = d \<longrightarrow> heading (key_callback key action s) \<noteq> opposite d)
   \<and> (key_callback key action s)\<lparr>cl_players := []\<rparr>
       = (if 0 \<le> sint (clientID s) \<and> key = GLFW_KEY_P \<and> action = GLFW_PRESS then AttemptGameStart s else s)
           \<lparr>cl_players := []\<rparr>"
proof -
  have "(key_callback key action s)\<lparr>cl_players := []\<rparr>
       = (if 0 \<le> sint (clientID s) \<and> key = GLFW_KEY_P \<and> action = GLFW_PRESS then AttemptGameStart s else s)
           \<lparr>cl_players := []\<rparr>"
    by (simp add: key_callback_def Let_def not_less steer_players)
  moreover
  have "key_dir key \<in> {None, Some Up, Some Left, Some Down, Some Right}"
    by (simp add: key_dir_def)
  then have "player_at k (key_callback key action s) =
     (if 0 \<le> sint (clientID s) \<and> action = GLFW_PRESS \<and> k = clientID s
         \<and> (\<exists>d. key_dir key = Some d \<and> heading s \<noteq> opposite d)
      then SetDirection (the (key_dir key)) (player_at k s) else player_at k s)
   \<and> (\<forall>d. opposite d \<noteq> d \<and> heading s = d \<longrightarrow> heading (key_callback key action s) \<noteq> opposite d)"
    by (cases "heading s") (auto simp: player_at_key_callback SetDirection_def split: option.splits)
  ultimately show ?thesis by blast
qed

theorem key_callback_spec_witness:
  "heading (key_callback GLFW_KEY_A GLFW_PRESS sample_client) \<noteq> Left
    \<and> heading (key_callback GLFW_KEY_W GLFW_PRESS sample_client) = Up"
proof -
  have "heading sample_client = Right" by (simp add: sample_client_simps heading_right_def)
  then have A: "heading (key_callback GLFW_KEY_A GLFW_PRESS sample_client) \<noteq> opposite Right"
    using key_callback_spec [of 10000 GLFW_KEY_A GLFW_PRESS sample_client] by auto
  have K: "key_dir GLFW_KEY_W = Some Up" by (simp add: key_dir_def)
  have "player_at 10000 (key_callback GLFW_KEY_W GLFW_PRESS sample_client) = SetDirection Up heading_right"
    using key_callback_spec [of 10000 GLFW_KEY_W GLFW_PRESS sample_client]
    by (simp add: sample_client_simps K) (simp add: heading_right_def)
  with A show ?thesis
    by (simp add: sample_client_simps) (simp add: SetDirection_def)
qed

definition press :: "cint \<Rightarrow> snake_client \<Rightarrow> snake_client" where
  "press key = key_callback key GLFW_PRESS"

text \<open>Two key presses between two moves reverse the snake, since the test is made against a
  direction it has not moved in yet: W and then A turn a snake that is moving right to the left,
  and with its next move its head is on its own second piece.\<close>

lemma two_presses_reverse:
  assumes "0 \<le> sint (clientID s)" "player_at (clientID s) s = p" "direction p = Right"
    and "alive p" "pgrid p = Some g" "grid_ok g" "tail p = h # t # ts" "in_grid g h" "in_grid g t"
    and "coords h = torus_step Right (sint (cols g)) (sint (rows g)) (coords t)"
  shows "heading (press GLFW_KEY_A (press GLFW_KEY_W s)) = Left
    \<and> (\<exists>p' rest. Move (player_at (clientID s) (press GLFW_KEY_A (press GLFW_KEY_W s))) = Inr p'
         \<and> tail p' = t # h # rest)"
proof -
  let ?p = "SetDirection Left (SetDirection Up p)"
  have k: "key_dir GLFW_KEY_W = Some Up" "key_dir GLFW_KEY_A = Some Left"
    by (simp_all add: key_dir_def glfw_defs)
  then have P: "player_at (clientID s) (press GLFW_KEY_A (press GLFW_KEY_W s)) = ?p"
    using assms(1-3) by (simp add: press_def player_at_key_callback not_less) (simp add: SetDirection_def)
  have H: "heading (press GLFW_KEY_A (press GLFW_KEY_W s)) = Left"
    using P by (simp add: press_def) (simp add: SetDirection_def)
  obtain h' where h': "next_head g Left h h'" "Move ?p = UpdateTail (?p\<lparr>tail := h' # h # t # ts\<rparr>)"
    using Move_head [of ?p g h "t # ts"] assms(4-8) by (auto simp: SetDirection_def known_dir_def)
  have "coords h' = coords t"
    using h'(1) assms(9,10) by (simp add: next_head_def coords_def in_grid_def mod_simps)
  then have "h' = t"
    by (cases h', cases t) (auto simp: coords_def intro: signed_word_eqI)
  then show ?thesis
    using H h'(2) unfolding P by (auto simp: UpdateTail_spec)
qed

lemma two_presses_reverse_example:
  "heading (press GLFW_KEY_A (press GLFW_KEY_W sample_client)) = Left
    \<and> (\<exists>p' rest. Move (player_at 10000 (press GLFW_KEY_A (press GLFW_KEY_W sample_client))) = Inr p'
         \<and> tail p' = Pos 5 5 # Pos 6 5 # rest)"
  using two_presses_reverse [of sample_client heading_right sample_grid "Pos 6 5" "Pos 5 5" "[]"]
  by (simp add: sample_client_simps heading_right_def sample_grid_def grid_ok_def in_grid_def
      coords_def)

end
