(* ===== verification/Render.thy ===== *)
theory Render
  imports Snake_Client
begin

text \<open>
  The drawing of \<open>src/Snek/grid.cpp\<close> as lists of the commands it gives to Dear ImGui. The
  coordinates are the 32-bit integers before their conversion to \<open>float\<close> (which is exact below
  2^24); their arithmetic can overflow. \<open>white\<close> is the colour of the member \<open>WHITE\<close>.
\<close>

section \<open>Commands\<close>

datatype draw =
    Next_Pos "cint \<times> cint"
  | Next_Size "cint \<times> cint"
  | Begin_Window string
  | Rect "cint \<times> cint" "cint \<times> cint" u32
  | Rect_Filled "cint \<times> cint" "cint \<times> cint" u32
  | End_Window

text \<open>\<open>v * size + start\<close>\<close>

definition scaled :: "cint \<Rightarrow> cint \<Rightarrow> cint \<Rightarrow> cint res" where
  "scaled v sz st = ebind (c_mul v sz) (\<lambda>a. c_add a st)"

text \<open>The two corners of the cell \<open>(x, y)\<close>.\<close>

definition corners :: "grid \<Rightarrow> cint \<Rightarrow> cint \<Rightarrow> ((cint \<times> cint) \<times> (cint \<times> cint)) res" where
  "corners g x y =
     ebind (scaled x (cell_size g) (startX g)) (\<lambda>l.
     ebind (scaled y (cell_size g) (startY g)) (\<lambda>t.
     ebind (c_add x 1) (\<lambda>x1. ebind (scaled x1 (cell_size g) (startX g)) (\<lambda>r.
     ebind (c_add y 1) (\<lambda>y1. ebind (scaled y1 (cell_size g) (startY g)) (\<lambda>b.
     Inr ((l, t), (r, b))))))))"

primrec draw_list :: "('a \<Rightarrow> draw res) \<Rightarrow> 'a list \<Rightarrow> draw list res" where
  "draw_list f [] = Inr []"
| "draw_list f (x # xs) = ebind (f x) (\<lambda>c. ebind (draw_list f xs) (\<lambda>cs. Inr (c # cs)))"

text \<open>\<open>DrawGrid\<close> (its call in \<open>Render\<close> is commented out)\<close>

definition DrawGrid :: "u32 \<Rightarrow> grid \<Rightarrow> draw list res" where
  "DrawGrid white g = draw_list (\<lambda>(x, y). ebind (corners g (word_of_nat x) (word_of_nat y))
       (\<lambda>(tl, br). Inr (Rect tl br white)))
     (concat (map (\<lambda>x. map (\<lambda>y. (x, y)) [0..<nat (sint (rows g))]) [0..<nat (sint (cols g))]))"

definition DrawPowerups :: "grid \<Rightarrow> powerup list \<Rightarrow> draw list res" where
  "DrawPowerups g = draw_list (\<lambda>w. ebind (corners g (pu_x w) (pu_y w))
     (\<lambda>(tl, br). Inr (Rect_Filled tl br (Powerup_GetColor w))))"

definition draw_snake :: "grid \<Rightarrow> player \<Rightarrow> draw list res" where
  "draw_snake g p = draw_list (\<lambda>pos. ebind (corners g (pos_x pos) (pos_y pos))
     (\<lambda>(tl, br). Inr (Rect_Filled tl br (GetColor p)))) (tail p)"

primrec DrawSnakes :: "grid \<Rightarrow> (u32 \<times> player) list \<Rightarrow> draw list res" where
  "DrawSnakes g [] = Inr []"
| "DrawSnakes g (kp # ps) =
     ebind (draw_snake g (snd kp)) (\<lambda>cs. ebind (DrawSnakes g ps) (\<lambda>cs'. Inr (cs @ cs')))"

definition DrawBorder :: "u32 \<Rightarrow> grid \<Rightarrow> draw list res" where
  "DrawBorder white g =
     ebind (c_mul (cols g) (cell_size g)) (\<lambda>w. ebind (c_add (startX g) w) (\<lambda>r.
     ebind (c_mul (rows g) (cell_size g)) (\<lambda>h. ebind (c_add (startY g) h) (\<lambda>b.
     Inr [Rect (startX g, startY g) (r, b) white]))))"

definition RenderFrame :: "grid \<Rightarrow> draw list" where
  "RenderFrame g = [Next_Pos (0, 0), Next_Size (grid_width g, grid_height g),
     Begin_Window ''SnakeBattleRoyale'']"

definition Render :: "u32 \<Rightarrow> grid \<Rightarrow> snake_client \<Rightarrow> draw list res" where
  "Render white g s =
     ebind (DrawPowerups g (cl_powerups s)) (\<lambda>a.
     ebind (DrawSnakes g (cl_players s)) (\<lambda>b.
     ebind (DrawBorder white g) (\<lambda>c.
     Inr (RenderFrame g @ a @ b @ c @ [End_Window]))))"

section \<open>The grid of the program\<close>

text \<open>\<open>Grid(GRIDWIDTH, GRIDHEIGHT, 30, &mainLoop, WIDTH, HEIGHT, ...)\<close> of \<open>main.cpp\<close>\<close>

definition WIDTH :: cint where "WIDTH = 1300"
definition HEIGHT :: cint where "HEIGHT = 1030"

definition main_grid :: "grid res" where
  "main_grid = new_grid (word_of_nat GRIDWIDTH) (word_of_nat GRIDHEIGHT) 30 WIDTH HEIGHT"

definition the_grid :: grid where
  "the_grid = \<lparr>rows = 30, cols = 40, cell_size = 30, startX = 50, startY = 80,
     grid_width = 1300, grid_height = 1030\<rparr>"

lemma main_grid_eq: "main_grid = Inr the_grid"
  unfolding main_grid_def the_grid_def new_grid_def grid_dims WIDTH_def HEIGHT_def
    c_add_def c_sub_def c_mul_def c_div_def c_int_def
  by code_simp

lemma the_grid_ok: "grid_ok the_grid"
  unfolding grid_ok_def the_grid_def by simp

section \<open>Where the cells are drawn\<close>

text \<open>A rectangle by its integer coordinates: left, top, right, bottom.\<close>

fun box :: "draw \<Rightarrow> int \<times> int \<times> int \<times> int" where
  "box (Rect (l, t) (r, b) col) = (sint l, sint t, sint r, sint b)"
| "box (Rect_Filled (l, t) (r, b) col) = (sint l, sint t, sint r, sint b)"
| "box _ = (0, 0, 0, 0)"

definition cell_box :: "int \<Rightarrow> int \<Rightarrow> int \<times> int \<times> int \<times> int" where
  "cell_box x y = (30 * x + 50, 30 * y + 80, 30 * x + 80, 30 * y + 110)"

lemma scaled_ok:
  assumes "0 \<le> sint v" "sint v \<le> 100" "0 \<le> sint st" "sint st \<le> 100"
  shows "\<exists>w. scaled v 30 st = Inr w \<and> sint w = 30 * sint v + sint st"
proof -
  have A: "sint (word_of_int (sint v * 30) :: cint) = sint v * 30"
    "sint (word_of_int (sint v * 30 + sint st) :: cint) = sint v * 30 + sint st"
    using assms by (intro sint_word_of_int_32; simp)+
  then show ?thesis
    using assms by (simp add: scaled_def c_mul_def c_add_def c_int_ok)
qed

lemma succ_ok:
  assumes "0 \<le> sint (v :: cint)" "sint v < 100"
  shows "\<exists>w. c_add v 1 = Inr w \<and> sint w = sint v + 1"
proof -
  have "sint (word_of_int (sint v + 1) :: cint) = sint v + 1"
    using assms by (intro sint_word_of_int_32) simp_all
  then show ?thesis using assms by (simp add: c_add_def c_int_ok)
qed

lemma corners_ok:
  assumes "in_grid the_grid (Pos x y)"
  obtains l t r b where "corners the_grid x y = Inr ((l, t), (r, b))"
    "(sint l, sint t, sint r, sint b) = cell_box (sint x) (sint y)"
proof -
  have X: "0 \<le> sint x" "sint x < 40" "0 \<le> sint y" "sint y < 30"
    using assms by (simp_all add: in_grid_def the_grid_def)
  obtain x1 where x1: "c_add x 1 = Inr x1" "sint x1 = sint x + 1"
    using succ_ok [of x] X by auto
  obtain y1 where y1: "c_add y 1 = Inr y1" "sint y1 = sint y + 1"
    using succ_ok [of y] X by auto
  obtain l where l: "scaled x 30 50 = Inr l" "sint l = 30 * sint x + 50"
    using scaled_ok [of x 50] X by auto
  obtain t where t: "scaled y 30 80 = Inr t" "sint t = 30 * sint y + 80"
    using scaled_ok [of y 80] X by auto
  obtain r where r: "scaled x1 30 50 = Inr r" "sint r = 30 * sint x1 + 50"
    using scaled_ok [of x1 50] X x1 by auto
  obtain b where b: "scaled y1 30 80 = Inr b" "sint b = 30 * sint y1 + 80"
    using scaled_ok [of y1 80] X y1 by auto
  have "corners the_grid x y = Inr ((l, t), (r, b))"
    by (simp add: corners_def the_grid_def x1 y1 l t r b)
  moreover have "(sint l, sint t, sint r, sint b) = cell_box (sint x) (sint y)"
    by (simp add: cell_box_def l t r b x1 y1)
  ultimately show thesis by (rule that)
qed

lemma draw_list_map:
  assumes "\<And>x. x \<in> set xs \<Longrightarrow> \<exists>c. f x = Inr c \<and> P x c"
  shows "\<exists>cs. draw_list f xs = Inr cs \<and> list_all2 P xs cs"
  using assms
proof (induction xs)
  case (Cons x xs)
  obtain c where "f x = Inr c" "P x c" using Cons.prems [of x] by auto
  moreover obtain cs where "draw_list f xs = Inr cs" "list_all2 P xs cs"
    using Cons by auto
  ultimately show ?case by simp
qed simp

lemma list_all2_in_set: "list_all2 P xs ys \<Longrightarrow> y \<in> set ys \<Longrightarrow> \<exists>x\<in>set xs. P x y"
  by (induction rule: list_all2_induct) auto

definition drawn_at :: "u32 \<Rightarrow> cint \<Rightarrow> cint \<Rightarrow> draw \<Rightarrow> bool" where
  "drawn_at col x y c \<longleftrightarrow> (\<exists>tl br. c = Rect_Filled tl br col) \<and> box c = cell_box (sint x) (sint y)"

lemma fill_cell:
  assumes "in_grid the_grid (Pos x y)"
  shows "\<exists>c. ebind (corners the_grid x y) (\<lambda>(tl, br). Inr (Rect_Filled tl br col)) = Inr c
    \<and> drawn_at col x y c"
  by (rule corners_ok [OF assms]) (simp add: drawn_at_def)

definition snake_cells :: "(u32 \<times> player) list \<Rightarrow> (u32 \<times> position) list" where
  "snake_cells ps = concat (map (\<lambda>kp. map (\<lambda>pos. (GetColor (snd kp), pos)) (tail (snd kp))) ps)"

lemma DrawSnakes_ok:
  assumes "\<forall>(k, p)\<in>set ps. list_all (in_grid the_grid) (tail p)"
  shows "\<exists>cs. DrawSnakes the_grid ps = Inr cs
    \<and> list_all2 (\<lambda>(col, pos). drawn_at col (pos_x pos) (pos_y pos)) (snake_cells ps) cs"
  using assms
proof (induction ps)
  case (Cons kp ps)
  have "\<exists>cs. draw_snake the_grid (snd kp) = Inr cs
      \<and> list_all2 (\<lambda>pos. drawn_at (GetColor (snd kp)) (pos_x pos) (pos_y pos)) (tail (snd kp)) cs"
    unfolding draw_snake_def using Cons.prems
    by (intro draw_list_map fill_cell) (auto simp: list_all_iff in_grid_def)
  then obtain a where a: "draw_snake the_grid (snd kp) = Inr a"
    "list_all2 (\<lambda>pos. drawn_at (GetColor (snd kp)) (pos_x pos) (pos_y pos)) (tail (snd kp)) a"
    by blast
  obtain b where b: "DrawSnakes the_grid ps = Inr b"
    "list_all2 (\<lambda>(col, pos). drawn_at col (pos_x pos) (pos_y pos)) (snake_cells ps) b"
    using Cons by auto
  have "list_all2 (\<lambda>(col, pos). drawn_at col (pos_x pos) (pos_y pos)) (snake_cells (kp # ps)) (a @ b)"
    using a(2) b(2)
    by (simp add: snake_cells_def list_all2_appendI list_all2_map1)
  with a(1) b(1) show ?case by simp
qed (simp add: snake_cells_def)

text \<open>Every on-grid cell is drawn inside the border, and two cells only touch.\<close>

fun inside :: "int \<times> int \<times> int \<times> int \<Rightarrow> int \<times> int \<times> int \<times> int \<Rightarrow> bool" where
  "inside (l, t, r, b) (l', t', r', b') \<longleftrightarrow> l' \<le> l \<and> t' \<le> t \<and> r \<le> r' \<and> b \<le> b'"

fun apart :: "int \<times> int \<times> int \<times> int \<Rightarrow> int \<times> int \<times> int \<times> int \<Rightarrow> bool" where
  "apart (l, t, r, b) (l', t', r', b') \<longleftrightarrow> r \<le> l' \<or> r' \<le> l \<or> b \<le> t' \<or> b' \<le> t"

lemma cell_box_apart:
  "cell_box x y \<noteq> cell_box x' y' \<Longrightarrow> apart (cell_box x y) (cell_box x' y')"
  by (auto simp: cell_box_def)

definition border :: "int \<times> int \<times> int \<times> int" where
  "border = (50, 80, 1250, 980)"

lemma cell_box_inside: "in_grid the_grid p \<Longrightarrow> inside (cell_box (sint (pos_x p)) (sint (pos_y p))) border"
  by (simp add: in_grid_def the_grid_def cell_box_def border_def)

lemma DrawBorder_eq: "DrawBorder white the_grid = Inr [Rect (50, 80) (1250, 980) white]"
  unfolding DrawBorder_def the_grid_def c_add_def c_mul_def c_int_def by simp

text \<open>C29: With the grid that \<open>main\<close> builds, drawing never overflows as long as all powerups and
  snake pieces are on the 40 x 30 grid: it draws one filled square of 30 pixels for each powerup
  and then for each piece, in its colour and at the place of its cell, all within the border it
  draws last; squares of different cells do not overlap.\<close>

theorem Render_spec:
  assumes "\<forall>w\<in>set (cl_powerups s). in_grid the_grid (Pos (pu_x w) (pu_y w))"
    and "\<forall>(k, p)\<in>set (cl_players s). list_all (in_grid the_grid) (tail p)"
  shows "main_grid = Inr the_grid
    \<and> (\<exists>a b. Render white the_grid s = Inr (RenderFrame the_grid @ a @ b
          @ [Rect (50, 80) (1250, 980) white, End_Window])
        \<and> list_all2 (\<lambda>w. drawn_at (Powerup_GetColor w) (pu_x w) (pu_y w)) (cl_powerups s) a
        \<and> list_all2 (\<lambda>(col, p). drawn_at col (pos_x p) (pos_y p)) (snake_cells (cl_players s)) b
        \<and> (\<forall>c\<in>set (a @ b). inside (box c) border)
        \<and> (\<forall>c\<in>set (a @ b). \<forall>c'\<in>set (a @ b). box c \<noteq> box c' \<longrightarrow> apart (box c) (box c')))"
proof -
  have "\<exists>a. DrawPowerups the_grid (cl_powerups s) = Inr a
      \<and> list_all2 (\<lambda>w. drawn_at (Powerup_GetColor w) (pu_x w) (pu_y w)) (cl_powerups s) a"
    unfolding DrawPowerups_def using assms(1) by (intro draw_list_map fill_cell) simp
  then obtain a where a: "DrawPowerups the_grid (cl_powerups s) = Inr a"
    "list_all2 (\<lambda>w. drawn_at (Powerup_GetColor w) (pu_x w) (pu_y w)) (cl_powerups s) a"
    by blast
  obtain b where b: "DrawSnakes the_grid (cl_players s) = Inr b"
    "list_all2 (\<lambda>(col, p). drawn_at col (pos_x p) (pos_y p)) (snake_cells (cl_players s)) b"
    using DrawSnakes_ok [OF assms(2)] by blast
  have A: "\<exists>p. in_grid the_grid p \<and> box c = cell_box (sint (pos_x p)) (sint (pos_y p))" if c: "c \<in> set a" for c
  proof -
    obtain w where "w \<in> set (cl_powerups s)" "drawn_at (Powerup_GetColor w) (pu_x w) (pu_y w) c"
      using list_all2_in_set [OF a(2) c] by blast
    then show ?thesis
      using assms(1) by (intro exI [where x = "Pos (pu_x w) (pu_y w)"]) (simp add: drawn_at_def)
  qed
  have B: "\<exists>p. in_grid the_grid p \<and> box c = cell_box (sint (pos_x p)) (sint (pos_y p))" if c: "c \<in> set b" for c
  proof -
    obtain cp where "cp \<in> set (snake_cells (cl_players s))"
      "drawn_at (fst cp) (pos_x (snd cp)) (pos_y (snd cp)) c"
      using list_all2_in_set [OF b(2) c] by auto
    moreover from this assms(2) have "in_grid the_grid (snd cp)"
      by (fastforce simp: snake_cells_def list_all_iff)
    ultimately show ?thesis
      by (intro exI [where x = "snd cp"]) (simp add: drawn_at_def)
  qed
  have cells: "\<exists>p. in_grid the_grid p \<and> box c = cell_box (sint (pos_x p)) (sint (pos_y p))"
    if "c \<in> set (a @ b)" for c
    using A B that by auto
  have "inside (box c) border" if "c \<in> set (a @ b)" for c
    using cells [OF that] cell_box_inside by auto
  moreover have "apart (box c) (box c')"
    if "c \<in> set (a @ b)" "c' \<in> set (a @ b)" "box c \<noteq> box c'" for c c'
    using cells [OF that(1)] cells [OF that(2)] that(3) by (auto intro: cell_box_apart)
  ultimately show ?thesis
    using a b by (intro conjI main_grid_eq exI [where x = a] exI [where x = b])
      (simp_all add: Render_def DrawBorder_eq)
qed

theorem Render_spec_witness:
  "\<exists>a b. Render 0 the_grid ((new_client None)\<lparr>cl_powerups := [new_powerup 3 4 1],
       cl_players := [(10000, sample_player)]\<rparr>)
      = Inr (RenderFrame the_grid @ a @ b @ [Rect (50, 80) (1250, 980) 0, End_Window])
    \<and> length a = 1 \<and> length b = 2 \<and> (\<forall>c\<in>set (a @ b). inside (box c) border)"
proof -
  let ?s = "(new_client None)\<lparr>cl_powerups := [new_powerup 3 4 1], cl_players := [(10000, sample_player)]\<rparr>"
  have "\<forall>w\<in>set (cl_powerups ?s). in_grid the_grid (Pos (pu_x w) (pu_y w))"
    "\<forall>(k, p)\<in>set (cl_players ?s). list_all (in_grid the_grid) (tail p)"
    by (simp_all add: new_powerup_def in_grid_def the_grid_def sample_player_def)
  from Render_spec [OF this, of 0] obtain a b where ab:
    "Render 0 the_grid ?s = Inr (RenderFrame the_grid @ a @ b @ [Rect (50, 80) (1250, 980) 0, End_Window])"
    "length (cl_powerups ?s) = length a" "length (snake_cells (cl_players ?s)) = length b"
    "\<forall>c\<in>set (a @ b). inside (box c) border"
    by (blast dest: list_all2_lengthD)
  moreover have "length a = 1" "length b = 2"
    using ab(2,3) by (simp_all add: snake_cells_def sample_player_def)
  ultimately show ?thesis by blast
qed

end
