(* ===== verification/Client_Main.thy ===== *)
theory Client_Main
  imports Input Render
begin

text \<open>
  \<open>src/Snek/main.cpp\<close>: the loops of the client. What the asio thread does to the connection and
  to the queue of incoming messages between two iterations is the argument \<open>fi_net\<close>, a function
  on the state; the key events of \<open>glfwPollEvents\<close>, the outcome of the timer test
  \<open>nextFrame <= 0\<close> (a float that Dear ImGui counts down), \<open>glfwWindowShouldClose\<close> and the
  close button that clears \<open>mainLoop\<close> are the other inputs of an iteration.
\<close>

section \<open>One tick\<close>

primrec move_all :: "(u32 \<times> player) list \<Rightarrow> (u32 \<times> player) list res" where
  "move_all [] = Inr []"
| "move_all (kp # ps) =
     ebind (Move (snd kp)) (\<lambda>p'. ebind (move_all ps) (\<lambda>ps'. Inr ((fst kp, p') # ps')))"

text \<open>The search for a powerup under the head, which stops at the first one.\<close>

function eat_loop :: "nat \<Rightarrow> snake_client \<Rightarrow> snake_client res" where
  "eat_loop c s =
     (if c < length (cl_powerups s)
      then let s1 = touch (clientID s) s
           in ebind (GetHead (player_at (clientID s1) s1)) (\<lambda>h.
              if CheckCollision (cl_powerups s1 ! c) h then EatPowerup c s1
              else eat_loop (Suc c) s1)
      else Inr s)"
  by pat_completeness auto
termination
  by (relation "measure (\<lambda>(c, s). length (cl_powerups s) - c)") (auto simp: touch_def)

declare eat_loop.simps [simp del]

definition tick :: "u32 \<Rightarrow> snake_client \<Rightarrow> snake_client res" where
  "tick red s =
     ebind (move_all (cl_players s)) (\<lambda>ps.
     ebind (eat_loop 0 (s\<lparr>cl_players := ps\<rparr>)) (\<lambda>s1.
     ebind (HandleMessages red s1) (\<lambda>s2.
     Inr (UpdateServer s2))))"

section \<open>The loops of main\<close>

record frame_input =
  fi_net :: "snake_client \<Rightarrow> snake_client"
  fi_should_close :: bool
  fi_keys :: "(cint \<times> cint) list"
  fi_due :: bool
  fi_close_button :: bool

definition run_frame :: "u32 \<Rightarrow> u32 \<Rightarrow> grid \<Rightarrow> frame_input \<Rightarrow> snake_client
    \<Rightarrow> (draw list \<times> snake_client) res" where
  "run_frame red white g i s =
     (let s1 = fold (\<lambda>(key, action). key_callback key action) (fi_keys i) s
      in ebind (if fi_due i then tick red s1 else Inr s1) (\<lambda>s2.
         ebind (Render white g s2) (\<lambda>cmds. Inr (cmds, s2))))"

text \<open>\<open>while (mainLoop && !glfwWindowShouldClose(window))\<close> over the inputs of its iterations.\<close>

primrec game_loop :: "u32 \<Rightarrow> u32 \<Rightarrow> grid \<Rightarrow> bool \<Rightarrow> frame_input list \<Rightarrow> snake_client
    \<Rightarrow> snake_client res" where
  "game_loop red white g mainLoop [] s = Inr s"
| "game_loop red white g mainLoop (i # is) s =
     (let s' = fi_net i s in
      if mainLoop \<and> \<not> fi_should_close i
      then ebind (run_frame red white g i s') (\<lambda>(_, s1).
           game_loop red white g (mainLoop \<and> \<not> fi_close_button i) is s1)
      else Inr s')"

text \<open>\<open>while (clientID < 0 && !glfwWindowShouldClose(window))\<close>\<close>

primrec wait_loop :: "u32 \<Rightarrow> frame_input list \<Rightarrow> snake_client \<Rightarrow> snake_client res" where
  "wait_loop red [] s = Inr s"
| "wait_loop red (i # is) s =
     (if sint (clientID s) < 0 \<and> \<not> fi_should_close i
      then let s' = fi_net i s
           in ebind (if C_IsConnected s' then HandleMessages red s' else Inr s') (wait_loop red is)
      else Inr s)"

text \<open>From the creation of the client on; \<open>delete client\<close> disconnects a second time.\<close>

definition client_main :: "u32 \<Rightarrow> u32 \<Rightarrow> bool \<Rightarrow> bool \<Rightarrow> frame_input list \<Rightarrow> frame_input list
    \<Rightarrow> snake_client res" where
  "client_main red white resolve_ok opened waits inputs =
     ebind main_grid (\<lambda>g.
     ebind (C_Connect resolve_ok opened (new_client (Some g))) (\<lambda>(_, s1).
     ebind (wait_loop red waits s1) (\<lambda>s2.
     ebind (game_loop red white g True inputs s2) (\<lambda>s3.
     Inr (C_Disconnect (C_Disconnect s3))))))"

section \<open>Well-formed clients\<close>

definition client_ok :: "grid \<Rightarrow> snake_client \<Rightarrow> bool" where
  "client_ok g s \<longleftrightarrow> gridPointer s = Some g \<and> grid_ok g \<and> clientID s \<in> fst ` set (cl_players s)
     \<and> (\<forall>kp\<in>set (cl_players s). player_ok g (snd kp))"

lemma own_player:
  assumes "client_ok g s"
  obtains p where "map_of (cl_players s) (clientID s) = Some p"
    "player_at (clientID s) s = p" "player_ok g p"
proof -
  obtain p where p: "map_of (cl_players s) (clientID s) = Some p"
    using assms by (auto simp: client_ok_def dest!: weak_map_of_SomeI)
  moreover have "player_ok g p"
    using map_of_SomeD [OF p] assms by (auto simp: client_ok_def)
  ultimately show thesis using that by (simp add: player_at_def)
qed

lemma touch_id: "map_of (cl_players s) k = Some p \<Longrightarrow> touch k s = s"
  by (simp add: touch_def set_player_def player_at_def update_triv)

lemma set_alist_update_snd: "x \<in> set (AList.update k v al) \<Longrightarrow> snd x = v \<or> x \<in> set al"
  by (induction al) (auto split: if_splits)

lemma client_ok_set_player:
  assumes "client_ok g s" "player_ok g p"
  shows "client_ok g (set_player k p s)"
proof -
  have "clientID s \<in> fst ` set (AList.update k p (cl_players s))"
    using assms(1) by (auto simp: client_ok_def dom_update)
  with assms show ?thesis
    by (auto simp: client_ok_def set_player_def dest!: set_alist_update_snd)
qed

lemma move_all_ok:
  assumes "\<forall>kp\<in>set ps. player_ok g (snd kp)"
  obtains ps' where "move_all ps = Inr ps'"
    "list_all2 (\<lambda>kp kp'. fst kp' = fst kp \<and> Move (snd kp) = Inr (snd kp') \<and> player_ok g (snd kp')
       \<and> alive (snd kp') = alive (snd kp) \<and> direction (snd kp') = direction (snd kp)) ps ps'"
proof -
  have "\<exists>ps'. move_all ps = Inr ps' \<and>
    list_all2 (\<lambda>kp kp'. fst kp' = fst kp \<and> Move (snd kp) = Inr (snd kp') \<and> player_ok g (snd kp')
       \<and> alive (snd kp') = alive (snd kp) \<and> direction (snd kp') = direction (snd kp)) ps ps'"
    using assms
  proof (induction ps)
    case (Cons kp ps)
    then obtain ps' where "move_all ps = Inr ps'" "list_all2 (\<lambda>kp kp'. fst kp' = fst kp
       \<and> Move (snd kp) = Inr (snd kp') \<and> player_ok g (snd kp')
       \<and> alive (snd kp') = alive (snd kp) \<and> direction (snd kp') = direction (snd kp)) ps ps'"
      by auto
    moreover obtain p' where "Move (snd kp) = Inr p'" "player_ok g p'"
      "alive p' = alive (snd kp)" "direction p' = direction (snd kp)"
      using Move_ok [of g "snd kp"] Cons.prems by auto
    ultimately show ?case by (intro exI [where x = "(fst kp, p') # ps'"]) simp
  qed simp
  with that show thesis by blast
qed

lemma list_all2_map_of:
  assumes "list_all2 (\<lambda>kp kp'. fst kp' = fst kp \<and> P (snd kp) (snd kp')) ps ps'"
  shows "(map_of ps k = None \<longleftrightarrow> map_of ps' k = None)
    \<and> (\<forall>p. map_of ps k = Some p \<longrightarrow> (\<exists>p'. map_of ps' k = Some p' \<and> P p p'))"
  using assms by (induction rule: list_all2_induct) auto

section \<open>Eating\<close>

lemma erase_first_nth:
  "c < length xs \<Longrightarrow> P (xs ! c) \<Longrightarrow> erase_first P (drop c xs) = drop (Suc c) xs"
  by (subst Cons_nth_drop_Suc [symmetric]) simp_all

lemma eat_loop_spec:
  assumes "map_of (cl_players s) (clientID s) = Some p" "tail p = h # ts"
  shows "eat_loop c s =
    (if \<exists>w\<in>set (drop c (cl_powerups s)). CheckCollision w h
     then ebind (AddLength 1 p) (\<lambda>p'. Inr (C_Send
            (put enc_powerup (PowerupData (pos_x h) (pos_y h)) (message_of PowerupEaten))
            ((set_player (clientID s) p' s)\<lparr>cl_powerups := take c (cl_powerups s)
               @ erase_first (\<lambda>w. CheckCollision w h) (drop c (cl_powerups s))\<rparr>)))
     else Inr s)"
proof (induction "length (cl_powerups s) - c" arbitrary: c)
  case 0
  then show ?case by (subst eat_loop.simps) simp
next
  case (Suc n)
  then have c: "c < length (cl_powerups s)" by simp
  have p: "player_at (clientID s) s = p" using assms(1) by (simp add: player_at_def)
  have D: "drop c (cl_powerups s) = cl_powerups s ! c # drop (Suc c) (cl_powerups s)"
    by (rule Cons_nth_drop_Suc [OF c, symmetric])
  have L: "eat_loop c s = (if CheckCollision (cl_powerups s ! c) h then EatPowerup c s
      else eat_loop (Suc c) s)"
    using c p assms by (subst eat_loop.simps) (simp add: touch_id Let_def GetHead_def)
  show ?case
  proof (cases "CheckCollision (cl_powerups s ! c) h")
    case True
    then have "PowerupData (pu_x (cl_powerups s ! c)) (pu_y (cl_powerups s ! c))
        = PowerupData (pos_x h) (pos_y h)"
      by (simp add: CheckCollision_def split: if_splits)
    with True c show ?thesis
      unfolding L D by (simp add: EatPowerup_def p Let_def)
  next
    case False
    then show ?thesis
      unfolding L D using Suc.hyps(1) [of "Suc c"] Suc.hyps(2) c
      by (simp add: take_Suc_conv_app_nth)
  qed
qed

lemma eat_loop_headless:
  assumes "map_of (cl_players s) (clientID s) = Some p" "tail p = []" "cl_powerups s \<noteq> []"
  shows "eat_loop 0 s = Inl Empty_Access"
  using assms by (subst eat_loop.simps) (simp add: touch_id GetHead_def player_at_def)

section \<open>Properties of a tick\<close>

lemma move_all_client:
  assumes "client_ok g s"
  obtains ps where "move_all (cl_players s) = Inr ps" "client_ok g (s\<lparr>cl_players := ps\<rparr>)"
    "\<forall>k p. map_of (cl_players s) k = Some p \<longrightarrow>
       (\<exists>p'. map_of ps k = Some p' \<and> Move p = Inr p' \<and> player_ok g p' \<and> alive p' = alive p)"
proof -
  have "\<forall>kp\<in>set (cl_players s). player_ok g (snd kp)"
    using assms by (simp add: client_ok_def)
  from move_all_ok [OF this] obtain ps where ps: "move_all (cl_players s) = Inr ps"
    "list_all2 (\<lambda>kp kp'. fst kp' = fst kp \<and> Move (snd kp) = Inr (snd kp') \<and> player_ok g (snd kp')
       \<and> alive (snd kp') = alive (snd kp) \<and> direction (snd kp') = direction (snd kp))
       (cl_players s) ps"
    by blast
  then have L: "list_all2 (\<lambda>kp kp'. fst kp' = fst kp
      \<and> (Move (snd kp) = Inr (snd kp') \<and> player_ok g (snd kp') \<and> alive (snd kp') = alive (snd kp)))
      (cl_players s) ps"
    by (auto elim: list_all2_mono)
  have "fst ` set ps = fst ` set (cl_players s)"
    using ps(2) by (induction rule: list_all2_induct) auto
  moreover have "\<forall>kp\<in>set ps. player_ok g (snd kp)"
    using list_all2_in_set [OF ps(2)] by blast
  ultimately have "client_ok g (s\<lparr>cl_players := ps\<rparr>)"
    using assms by (simp add: client_ok_def)
  with ps(1) show thesis
    using that list_all2_map_of [OF L] by blast
qed

lemma UpdateServer_eq:
  "map_of (cl_players s) (clientID s) = Some p \<Longrightarrow>
    UpdateServer s = C_Send (update_message (clientID s) p) s"
  by (simp add: UpdateServer_def touch_id player_at_def)

lemma C_Send_open:
  "connection_ptr s = Some k \<Longrightarrow> sock_open k \<Longrightarrow>
    C_Send m s = s\<lparr>connection_ptr := Some (Send m k)\<rparr>"
  by (simp add: C_Send_def C_IsConnected_def IsConnected_def)

lemma sock_open_Send [simp]: "sock_open (Send m k) = sock_open k"
  by (simp add: Send_def)

text \<open>The message of an eaten powerup at \<open>h\<close>.\<close>

definition eaten_message :: "position \<Rightarrow> message" where
  "eaten_message h = put enc_powerup (PowerupData (pos_x h) (pos_y h)) (message_of PowerupEaten)"

lemma AddLength_one:
  assumes "sint (food p) < 2 ^ 31 - 1"
  shows "AddLength 1 p = Inr (p\<lparr>food := food p + 1\<rparr>)"
  using assms sint_bounds_32 [of "food p"] by (simp add: AddLength_def c_add_def c_int_ok)

text \<open>Moving and eating, up to the call of \<open>HandleMessages\<close>.\<close>

lemma tick_until_messages:
  assumes "client_ok g s" "map_of (cl_players s) (clientID s) = Some p" "alive p"
    and "sint (food p) < 2 ^ 31 - 1" "connection_ptr s = Some k" "sock_open k"
  obtains p1 h t s1 where "Move p = Inr p1" "tail p1 = h # t" "player_ok g p1" "alive p1"
    "client_ok g s1" "c_in s1 = c_in s" "clientID s1 = clientID s"
    "tick red s = ebind (HandleMessages red s1) (\<lambda>s2. Inr (UpdateServer s2))"
    "if \<exists>w\<in>set (cl_powerups s). CheckCollision w h
     then map_of (cl_players s1) (clientID s) = Some (p1\<lparr>food := food p1 + 1\<rparr>)
       \<and> cl_powerups s1 = erase_first (\<lambda>w. CheckCollision w h) (cl_powerups s)
       \<and> connection_ptr s1 = Some (Send (eaten_message h) k)
     else map_of (cl_players s1) (clientID s) = Some p1
       \<and> cl_powerups s1 = cl_powerups s \<and> connection_ptr s1 = Some k"
proof -
  obtain ps where ps: "move_all (cl_players s) = Inr ps" "client_ok g (s\<lparr>cl_players := ps\<rparr>)"
    "\<forall>k p. map_of (cl_players s) k = Some p \<longrightarrow>
       (\<exists>p'. map_of ps k = Some p' \<and> Move p = Inr p' \<and> player_ok g p' \<and> alive p' = alive p)"
    using move_all_client [OF assms(1)] by blast
  then obtain p1 where p1: "map_of ps (clientID s) = Some p1" "Move p = Inr p1"
    "player_ok g p1" "alive p1"
    using assms(2,3) by blast
  then obtain h t where ht: "tail p1 = h # t"
    by (cases "tail p1") (auto simp: player_ok_def)
  let ?s0 = "s\<lparr>cl_players := ps\<rparr>"
  have f: "sint (food p1) < 2 ^ 31 - 1"
    using Move_food [OF p1(2)] assms(4) food_dec [of "food p"] by auto
  show thesis
  proof (cases "\<exists>w\<in>set (cl_powerups s). CheckCollision w h")
    case True
    let ?p2 = "p1\<lparr>food := food p1 + 1\<rparr>"
    let ?s1 = "C_Send (eaten_message h) ((set_player (clientID s) ?p2 ?s0)
      \<lparr>cl_powerups := erase_first (\<lambda>w. CheckCollision w h) (cl_powerups s)\<rparr>)"
    have "eat_loop 0 ?s0 = Inr ?s1"
      using True eat_loop_spec [of ?s0 p1 h t 0] p1(1) ht
      by (simp add: AddLength_one [OF f] eaten_message_def)
    then have "tick red s = ebind (HandleMessages red ?s1) (\<lambda>s2. Inr (UpdateServer s2))"
      using ps(1) by (simp add: tick_def)
    moreover have "player_ok g ?p2" using p1(3) by (simp add: player_ok_def)
    then have "client_ok g (set_player (clientID s) ?p2 ?s0)"
      by (rule client_ok_set_player [OF ps(2)])
    then have "client_ok g ?s1"
      by (simp add: client_ok_def)
    moreover have "map_of (cl_players ?s1) (clientID s) = Some ?p2"
      by (simp add: set_player_def update_conv')
    moreover have "connection_ptr ?s1 = Some (Send (eaten_message h) k)"
      using assms(5,6) by (subst C_Send_open) simp_all
    ultimately show thesis
      using that [of p1 h t ?s1] p1 ht True by simp
  next
    case False
    then have "eat_loop 0 ?s0 = Inr ?s0"
      using eat_loop_spec [of ?s0 p1 h t 0] p1(1) ht by simp
    then have "tick red s = ebind (HandleMessages red ?s0) (\<lambda>s2. Inr (UpdateServer s2))"
      using ps(1) by (simp add: tick_def)
    with that [of p1 h t ?s0] p1 ht ps(2) False assms(5) show thesis by simp
  qed
qed

lemma sample_client_ok:
  "client_ok sample_grid sample_client"
  "map_of (cl_players sample_client) (clientID sample_client) = Some heading_right"
  using heading_right_ok by (simp_all add: client_ok_def sample_client_simps player_ok_def)

lemma sample_food: "sint (food heading_right) < 2 ^ 31 - 1"
  by (simp add: heading_right_def)

text \<open>C16: A tick of a well-formed client whose snake lives and whose food is below its maximum, with an
  open socket and no message waiting: it cannot fail;
  the own snake makes its move; if its new head is on a powerup, the first such powerup goes,
  one unit of food is added and the server is told; then the server is sent the new tail and
  direction; the client stays well-formed.\<close>

theorem tick_spec:
  assumes "client_ok g s" "map_of (cl_players s) (clientID s) = Some p" "alive p"
    and "sint (food p) < 2 ^ 31 - 1" "connection_ptr s = Some k" "sock_open k" "c_in s = []"
  shows "\<exists>s' p1 p' h. tick red s = Inr s' \<and> client_ok g s' \<and> Move p = Inr p1 \<and> GetHead p1 = Inr h
    \<and> map_of (cl_players s') (clientID s') = Some p' \<and> clientID s' = clientID s
    \<and> (if \<exists>w\<in>set (cl_powerups s). CheckCollision w h
       then p' = p1\<lparr>food := food p1 + 1\<rparr>
         \<and> cl_powerups s' = erase_first (\<lambda>w. CheckCollision w h) (cl_powerups s)
         \<and> connection_ptr s' = Some (Send (update_message (clientID s) p') (Send (eaten_message h) k))
       else p' = p1 \<and> cl_powerups s' = cl_powerups s
         \<and> connection_ptr s' = Some (Send (update_message (clientID s) p') k))"
proof -
  obtain p1 h t s1 where A: "Move p = Inr p1" "tail p1 = h # t" "client_ok g s1"
    "c_in s1 = c_in s" "clientID s1 = clientID s"
    "tick red s = ebind (HandleMessages red s1) (\<lambda>s2. Inr (UpdateServer s2))"
    "if \<exists>w\<in>set (cl_powerups s). CheckCollision w h
     then map_of (cl_players s1) (clientID s) = Some (p1\<lparr>food := food p1 + 1\<rparr>)
       \<and> cl_powerups s1 = erase_first (\<lambda>w. CheckCollision w h) (cl_powerups s)
       \<and> connection_ptr s1 = Some (Send (eaten_message h) k)
     else map_of (cl_players s1) (clientID s) = Some p1
       \<and> cl_powerups s1 = cl_powerups s \<and> connection_ptr s1 = Some k"
    by (rule tick_until_messages [OF assms(1-6), of red]) blast
  obtain p' k' where p': "map_of (cl_players s1) (clientID s) = Some p'"
    "connection_ptr s1 = Some k'" "sock_open k'"
    using A(7) assms(6) by (auto split: if_splits)
  let ?s' = "s1\<lparr>connection_ptr := Some (Send (update_message (clientID s) p') k')\<rparr>"
  have "UpdateServer s1 = ?s'"
    using UpdateServer_eq [of s1 p'] p' A(5) by (simp add: C_Send_open)
  then have "tick red s = Inr ?s'"
    using A(4,6) assms(7) by (simp add: HandleMessages_Nil)
  moreover have "client_ok g ?s'" using A(3) by (simp add: client_ok_def)
  ultimately show ?thesis
    using A(1,2,5,7) p'
    by (intro exI [where x = ?s'] exI [where x = p1] exI [where x = p'] exI [where x = h])
       (auto simp: GetHead_def split: if_splits)
qed

theorem tick_spec_witness:
  "\<exists>s' p'. tick 1 sample_client = Inr s' \<and> client_ok sample_grid s'
    \<and> map_of (cl_players s') 10000 = Some p' \<and> clientID s' = 10000"
  using tick_spec [OF sample_client_ok heading_right_ok(2) sample_food sample_client_simps(5)
      sample_conn_idle(2) sample_client_simps(6), of 1]
  by (auto simp: sample_client_simps)

lemma tick_with_kill:
  assumes "client_ok g s" "map_of (cl_players s) (clientID s) = Some p" "alive p"
    and "sint (food p) < 2 ^ 31 - 1" "connection_ptr s = Some k" "sock_open k"
    and "map omsg (c_in s) = [put enc_u32 (clientID s) (message_of KillPlayer)]"
    and "2 \<le> length (cl_powerups s)"
  obtains s' q k' where "tick red s = Inr s'" "client_ok g s'" "clientID s' = clientID s"
    "map_of (cl_players s') (clientID s) = Some (Kill q)" "cl_powerups s' \<noteq> []"
    "connection_ptr s' = Some (Send (update_message (clientID s) (Kill q)) k')"
proof -
  obtain p1 h t s1 where A: "player_ok g p1" "client_ok g s1"
    "c_in s1 = c_in s" "clientID s1 = clientID s"
    "tick red s = ebind (HandleMessages red s1) (\<lambda>s2. Inr (UpdateServer s2))"
    "if \<exists>w\<in>set (cl_powerups s). CheckCollision w h
     then map_of (cl_players s1) (clientID s) = Some (p1\<lparr>food := food p1 + 1\<rparr>)
       \<and> cl_powerups s1 = erase_first (\<lambda>w. CheckCollision w h) (cl_powerups s)
       \<and> connection_ptr s1 = Some (Send (eaten_message h) k)
     else map_of (cl_players s1) (clientID s) = Some p1
       \<and> cl_powerups s1 = cl_powerups s \<and> connection_ptr s1 = Some k"
    by (rule tick_until_messages [OF assms(1-6), of red]) blast
  obtain q k' where q: "map_of (cl_players s1) (clientID s) = Some q" "player_ok g q"
    "connection_ptr s1 = Some k'" "sock_open k'" "cl_powerups s1 \<noteq> []"
    using A(1,6) assms(6,8) by (cases "cl_powerups s"; cases "List.tl (cl_powerups s)")
      (auto simp: player_ok_def split: if_splits)
  let ?s2 = "set_player (clientID s) (Kill q) (s1\<lparr>c_in := []\<rparr>)"
  obtain m where m: "c_in s = [m]" "omsg m = put enc_u32 (clientID s) (message_of KillPlayer)"
    using assms(7) by auto
  have "handle_message red (omsg m) (s1\<lparr>c_in := []\<rparr>) = Inr ?s2"
    using q(1) m(2) by (simp add: handle_message_def on_kill_def u32.get_put player_at_def)
  then have H: "HandleMessages red s1 = Inr ?s2"
    using HandleMessages_Cons [of s1 m "[]" red] m(1) A(3) by (simp add: HandleMessages_Nil)
  have M: "map_of (cl_players ?s2) (clientID ?s2) = Some (Kill q)" "clientID ?s2 = clientID s"
    using A(4) by (simp_all add: set_player_def update_conv')
  let ?s3 = "?s2\<lparr>connection_ptr := Some (Send (update_message (clientID s) (Kill q)) k')\<rparr>"
  have "tick red s = Inr ?s3"
    using A(5) H UpdateServer_eq [OF M(1)] M(2) q(3,4) by (simp add: C_Send_open)
  moreover have "client_ok g ?s3"
    using client_ok_set_player [OF A(2) player_ok_Kill [OF q(2)]]
    by (simp add: client_ok_def set_player_def)
  ultimately show thesis using that [of ?s3 q k'] M q(5) by simp
qed

lemma tick_of_killed:
  assumes "client_ok g s" "map_of (cl_players s) (clientID s) = Some (Kill q)" "cl_powerups s \<noteq> []"
  shows "tick red s = Inl Empty_Access"
proof -
  from move_all_client [OF assms(1)] obtain ps where ps: "move_all (cl_players s) = Inr ps"
    "\<forall>k p. map_of (cl_players s) k = Some p \<longrightarrow>
       (\<exists>p'. map_of ps k = Some p' \<and> Move p = Inr p' \<and> player_ok g p' \<and> alive p' = alive p)"
    by metis
  then obtain r where r: "map_of ps (clientID s) = Some r" "Move (Kill q) = Inr r"
    using assms(2) by blast
  moreover have "Move (Kill q) = Inr (Kill q)" by (simp add: Kill_def)
  ultimately have "map_of ps (clientID s) = Some (Kill q)" by simp
  moreover have "tail (Kill q) = []" by (simp add: Kill_def)
  ultimately have "eat_loop 0 (s\<lparr>cl_players := ps\<rparr>) = Inl Empty_Access"
    using assms(3) by (intro eat_loop_headless [where p = "Kill q"]) simp_all
  then show ?thesis using ps(1) by (simp add: tick_def)
qed

text \<open>C25: The message that kills the own player crashes the client: in the tick that handles it the
  tail is emptied and an \<open>UpdatePlayer\<close> message without a tail is sent, and in the next tick
  \<open>GetHead\<close> takes the front of the empty tail as soon as there is any powerup, which there
  always is in a running game.\<close>

theorem killed_client_crashes:
  assumes "client_ok g s" "map_of (cl_players s) (clientID s) = Some p" "alive p"
    and "sint (food p) < 2 ^ 31 - 1" "connection_ptr s = Some k" "sock_open k"
    and "map omsg (c_in s) = [put enc_u32 (clientID s) (message_of KillPlayer)]"
    and "2 \<le> length (cl_powerups s)"
  shows "\<exists>s1 p1 k1. tick red s = Inr s1 \<and> map_of (cl_players s1) (clientID s) = Some p1
    \<and> tail p1 = [] \<and> \<not> IsAlive p1
    \<and> connection_ptr s1 = Some (Send (update_message (clientID s) p1) k1)
    \<and> tick red s1 = Inl Empty_Access"
proof -
  obtain s' q k' where A: "tick red s = Inr s'" "client_ok g s'" "clientID s' = clientID s"
    "map_of (cl_players s') (clientID s) = Some (Kill q)" "cl_powerups s' \<noteq> []"
    "connection_ptr s' = Some (Send (update_message (clientID s) (Kill q)) k')"
    by (rule tick_with_kill [OF assms, of red])
  moreover have "tick red s' = Inl Empty_Access"
    using A(2-5) by (intro tick_of_killed) simp_all
  ultimately show ?thesis
    by (intro exI [where x = s'] exI [where x = "Kill q"] exI [where x = k'])
       (simp add: Kill_def IsAlive_def)
qed

theorem killed_client_crashes_witness:
  "\<exists>s1. tick 1 (sample_client\<lparr>c_in :=
       [\<lparr>remote = None, omsg = put enc_u32 10000 (message_of KillPlayer)\<rparr>]\<rparr>) = Inr s1
    \<and> tick 1 s1 = Inl Empty_Access"
proof -
  let ?s = "sample_client\<lparr>c_in := [\<lparr>remote = None, omsg = put enc_u32 10000 (message_of KillPlayer)\<rparr>]\<rparr>"
  have "client_ok sample_grid ?s" "map_of (cl_players ?s) (clientID ?s) = Some heading_right"
    using sample_client_ok by (simp_all add: client_ok_def)
  from killed_client_crashes [OF this heading_right_ok(2) sample_food, of sample_conn 1]
  show ?thesis by (auto simp: sample_client_simps sample_conn_idle)
qed

end
