(* ===== verification/Server_Interface.thy ===== *)
theory Server_Interface
  imports Handshake
begin

text \<open>
  \<open>src/Networking/server.h\<close>: the server framework. Connections are shared between the deque
  \<open>m_deqConnections\<close>, the queue of incoming messages and the handlers of asio, so they live in
  a store \<open>heap\<close> and a \<open>shared_ptr\<close> is \<open>Some p\<close> or \<open>None\<close> (\<open>nullptr\<close>). The class is meant
  to be derived from: its state is an extensible record and the virtual functions are
  parameters of the operations that call them. A handler or call runs to completion; what
  the asio thread and the main thread do to each other in between is in \<open>Server_Race\<close>.
\<close>

section \<open>State\<close>

record net_server =
  deq_conns :: "nat option list"
  heap :: "nat \<Rightarrow> connection"
  next_ptr :: nat
  q_in :: "owned_message queue"
  id_counter :: u32
  accepting :: bool
  context_running :: bool

type_synonym 's disconnect_fn = "nat option \<Rightarrow> 's \<Rightarrow> 's res"
type_synonym 's message_fn = "nat option \<Rightarrow> message \<Rightarrow> 's \<Rightarrow> 's res"

definition set_conn :: "nat \<Rightarrow> connection \<Rightarrow> 'a net_server_scheme \<Rightarrow> 'a net_server_scheme" where
  "set_conn p k s = s\<lparr>heap := (heap s)(p := k)\<rparr>"

definition is_connected :: "'a net_server_scheme \<Rightarrow> nat option \<Rightarrow> bool" where
  "is_connected s client = (case client of None \<Rightarrow> False | Some p \<Rightarrow> IsConnected (heap s p))"

text \<open>\<open>client->GetID()\<close> on a possibly null pointer.\<close>

definition GetID_of :: "'a net_server_scheme \<Rightarrow> nat option \<Rightarrow> u32 res" where
  "GetID_of s client = (case client of None \<Rightarrow> Inl Null_Deref | Some p \<Rightarrow> Inr (GetID (heap s p)))"

definition send_to :: "nat \<Rightarrow> message \<Rightarrow> 'a net_server_scheme \<Rightarrow> 'a net_server_scheme" where
  "send_to p m s = set_conn p (Send m (heap s p)) s"

section \<open>Start, stop, accept\<close>

definition WaitForClientConnection :: "'a net_server_scheme \<Rightarrow> 'a net_server_scheme" where
  "WaitForClientConnection s = s\<lparr>accepting := True\<rparr>"

text \<open>\<open>accept_throws\<close> and \<open>thread_throws\<close>: \<open>async_accept\<close>, or the creation of the thread,
  throws.\<close>

definition Start :: "bool \<Rightarrow> bool \<Rightarrow> 'a net_server_scheme \<Rightarrow> bool \<times> 'a net_server_scheme" where
  "Start accept_throws thread_throws s =
     (if accept_throws then (False, s)
      else
        let s1 = WaitForClientConnection s
        in if thread_throws then (False, s1) else (True, s1\<lparr>context_running := True\<rparr>))"

definition Stop :: "'a net_server_scheme \<Rightarrow> 'a net_server_scheme" where
  "Stop s = s\<lparr>context_running := False\<rparr>"

text \<open>
  The accept handler. \<open>remote_ok\<close>: \<open>remote_endpoint()\<close> of the accepted socket does not throw;
  \<open>now\<close> is the clock reading of the new connection; \<open>connect\<close> is \<open>OnClientConnect\<close>.
\<close>

definition on_accept :: "(nat \<Rightarrow> 'a net_server_scheme \<Rightarrow> bool res) \<Rightarrow> bool \<Rightarrow> bool \<Rightarrow> u64
    \<Rightarrow> 'a net_server_scheme \<Rightarrow> 'a net_server_scheme res" where
  "on_accept connect ec remote_ok now s0 =
     (let s = s0\<lparr>accepting := False\<rparr> in
      if ec then Inr (WaitForClientConnection s)
      else if \<not> remote_ok then Inl System_Error
      else
        let p = next_ptr s;
            s1 = set_conn p (new_connection O_Server True now) (s\<lparr>next_ptr := Suc p\<rparr>)
        in ebind (connect p s1) (\<lambda>allowed.
           Inr (WaitForClientConnection
             (if allowed then
                let s2 = s1\<lparr>deq_conns := deq_conns s1 @ [Some p]\<rparr>
                in set_conn p (ConnectToClient (id_counter s2) (heap s2 p))
                     (s2\<lparr>id_counter := id_counter s2 + 1\<rparr>)
              else s1))))"

text \<open>The handler of \<open>ReadValidation\<close>, with \<open>OnClientValidated\<close> as \<open>validated\<close>.\<close>

definition server_ReadValidation :: "(nat \<Rightarrow> 'a net_server_scheme \<Rightarrow> 'a net_server_scheme res)
    \<Rightarrow> nat \<Rightarrow> byte list option \<Rightarrow> 'a net_server_scheme \<Rightarrow> 'a net_server_scheme res" where
  "server_ReadValidation validated p r s =
     (case on_ReadValidation r (heap s p) of
        V_Closed k \<Rightarrow> Inr (set_conn p k s)
      | V_Answered k \<Rightarrow> Inr (set_conn p k s)
      | V_Accepted k \<Rightarrow> ebind (validated p (set_conn p k s)) (\<lambda>s'.
          Inr (set_conn p (ReadHeader (heap s' p)) s')))"

section \<open>Sending\<close>

definition erase_null :: "'a net_server_scheme \<Rightarrow> 'a net_server_scheme" where
  "erase_null s = s\<lparr>deq_conns := filter (\<lambda>c. c \<noteq> None) (deq_conns s)\<rparr>"

text \<open>
  \<open>MessageClient\<close>: \<open>client\<close> is a parameter by value, so \<open>client.reset()\<close> makes the following
  \<open>erase(remove(..., client))\<close> remove the null pointers of the deque.
\<close>

definition MessageClient :: "'a net_server_scheme disconnect_fn \<Rightarrow> nat option \<Rightarrow> message
    \<Rightarrow> 'a net_server_scheme \<Rightarrow> 'a net_server_scheme res" where
  "MessageClient disc client msg s =
     (if is_connected s client then Inr (send_to (the client) msg s)
      else ebind (disc client s) (\<lambda>s'. Inr (erase_null s')))"

text \<open>
  The range-for of \<open>MessageAllClients\<close>, as a recursion over the indices still to visit.
  \<open>OnClientDisconnect\<close> may itself broadcast; if that erases from the deque, the iterators of
  this loop are invalid.
\<close>

fun mac_loop :: "'a net_server_scheme disconnect_fn \<Rightarrow> message \<Rightarrow> nat option \<Rightarrow> nat list \<Rightarrow> bool
    \<Rightarrow> 'a net_server_scheme \<Rightarrow> ('a net_server_scheme \<times> bool) res" where
  "mac_loop disc msg ignore [] invalid s = Inr (s, invalid)"
| "mac_loop disc msg ignore (i # is) invalid s =
     (let client = deq_conns s ! i in
      if client = ignore then mac_loop disc msg ignore is invalid s
      else if is_connected s client
      then mac_loop disc msg ignore is invalid (send_to (the client) msg s)
      else ebind (disc client s) (\<lambda>s'.
        if length (deq_conns s') \<noteq> length (deq_conns s) then Inl Iterator_Invalid
        else mac_loop disc msg ignore is True (s'\<lparr>deq_conns := (deq_conns s')[i := None]\<rparr>)))"

definition MessageAllClients :: "'a net_server_scheme disconnect_fn \<Rightarrow> message \<Rightarrow> nat option
    \<Rightarrow> 'a net_server_scheme \<Rightarrow> 'a net_server_scheme res" where
  "MessageAllClients disc msg ignore s =
     ebind (mac_loop disc msg ignore [0..<length (deq_conns s)] False s) (\<lambda>(s', invalid).
       Inr (if invalid then erase_null s' else s'))"

section \<open>Update\<close>

function update_loop :: "'a net_server_scheme message_fn \<Rightarrow> nat \<Rightarrow> nat
    \<Rightarrow> 'a net_server_scheme \<Rightarrow> 'a net_server_scheme res" where
  "update_loop on_msg maxMessages count s =
     (if count < maxMessages \<and> \<not> IsEmpty (q_in s)
      then ebind (PopFront (q_in s)) (\<lambda>(msg, q).
           ebind (on_msg (remote msg) (omsg msg) (s\<lparr>q_in := q\<rparr>)) (\<lambda>s'.
           update_loop on_msg maxMessages (count + 1) s'))
      else Inr s)"
  by pat_completeness auto
termination
  by (relation "measure (\<lambda>(h, m, c, s). m - c)") auto

declare update_loop.simps [simp del]

text \<open>\<open>Update\<close>; \<open>None\<close>: it blocks in \<open>m_qMessagesIn.Wait()\<close>. \<open>size_t(-1)\<close> is the default.\<close>

definition max_size_t :: nat where "max_size_t = 2 ^ 64 - 1"

definition Update :: "'a net_server_scheme message_fn \<Rightarrow> nat \<Rightarrow> bool
    \<Rightarrow> 'a net_server_scheme \<Rightarrow> 'a net_server_scheme res option" where
  "Update on_msg maxMessages wait s =
     (if wait \<and> IsEmpty (q_in s) then None else Some (update_loop on_msg maxMessages 0 s))"

end
