(* ===== verification/Broadcast.thy ===== *)
theory Broadcast
  imports Server_Interface
begin

text \<open>
  What the operations of \<open>ServerInterface\<close> do, for any derived class: the broadcast when every
  connection is up, when one is lost and when several are lost (the laws a derived class has
  to give for \<open>OnClientDisconnect\<close> are the locale \<open>disconnect_hook\<close>), the message loop (locale
  \<open>message_handler\<close>), and the connection identifiers handed out by the accept handler.
\<close>

section \<open>Connections up and lost\<close>

definition conns_ok :: "'a net_server_scheme \<Rightarrow> bool" where
  "conns_ok s \<longleftrightarrow> None \<notin> set (deq_conns s) \<and> distinct (deq_conns s)"

definition linked :: "'a net_server_scheme \<Rightarrow> nat \<Rightarrow> bool" where
  "linked s p \<longleftrightarrow> Some p \<in> set (deq_conns s)"

definition up :: "'a net_server_scheme \<Rightarrow> nat \<Rightarrow> bool" where
  "up s p \<longleftrightarrow> sock_open (heap s p)"

lemma is_connected_simps [simp]:
  "is_connected s None = False" "is_connected s (Some p) = up s p"
  by (simp_all add: is_connected_def IsConnected_def up_def)

text \<open>Every connection of the deque but \<open>ignore\<close> is up.\<close>

definition all_up :: "'a net_server_scheme \<Rightarrow> nat option \<Rightarrow> bool" where
  "all_up s ignore \<longleftrightarrow> (\<forall>c\<in>set (deq_conns s). c \<noteq> ignore \<longrightarrow> is_connected s c)"

text \<open>Sending to a set of connections at once.\<close>

definition bcast :: "message \<Rightarrow> (nat \<Rightarrow> bool) \<Rightarrow> 'a net_server_scheme \<Rightarrow> 'a net_server_scheme" where
  "bcast m P s = s\<lparr>heap := (\<lambda>p. if P p then Send m (heap s p) else heap s p)\<rparr>"

lemma bcast_simps [simp]:
  "deq_conns (bcast m P s) = deq_conns s" "q_in (bcast m P s) = q_in s"
  "next_ptr (bcast m P s) = next_ptr s" "id_counter (bcast m P s) = id_counter s"
  "up (bcast m P s) = up s" "linked (bcast m P s) = linked s"
  "is_connected (bcast m P s) = is_connected s" "conns_ok (bcast m P s) = conns_ok s"
  "all_up (bcast m P s) = all_up s"
  by (simp_all add: bcast_def up_def linked_def is_connected_def conns_ok_def all_up_def
      IsConnected_def Send_def fun_eq_iff split: option.splits)

lemma heap_bcast: "heap (bcast m P s) p = (if P p then Send m (heap s p) else heap s p)"
  by (simp add: bcast_def)

lemma bcast_none: "\<forall>p. \<not> P p \<Longrightarrow> bcast m P s = s"
  by (simp add: bcast_def)

lemma send_to_simps [simp]:
  "deq_conns (send_to p m s) = deq_conns s" "q_in (send_to p m s) = q_in s"
  "up (send_to p m s) = up s" "is_connected (send_to p m s) = is_connected s"
  by (simp_all add: send_to_def set_conn_def up_def is_connected_def IsConnected_def Send_def
      fun_eq_iff split: option.splits)

lemma bcast_send_to:
  "\<not> P p \<Longrightarrow> bcast m P (send_to p m s) = bcast m (\<lambda>x. x = p \<or> P x) s"
  by (auto simp: bcast_def send_to_def set_conn_def fun_eq_iff)

lemma bcast_cong: "(\<And>p. P p = Q p) \<Longrightarrow> bcast m P s = bcast m Q s"
  by (simp add: bcast_def)

section \<open>The loop of MessageAllClients\<close>

text \<open>The indices of a stretch of the deque, by the connections at them.\<close>

lemma mac_loop_up:
  assumes "\<forall>i\<in>set is. deq_conns s ! i \<noteq> ign \<longrightarrow> is_connected s (deq_conns s ! i)"
    and "distinct (map (\<lambda>i. deq_conns s ! i) is)"
  shows "mac_loop disc m ign is fl s
    = Inr (bcast m (\<lambda>p. Some p \<noteq> ign \<and> Some p \<in> (\<lambda>i. deq_conns s ! i) ` set is) s, fl)"
  using assms
proof (induction "is" arbitrary: s)
  case Nil
  then show ?case by (simp add: bcast_none)
next
  case (Cons i "is")
  show ?case
  proof (cases "deq_conns s ! i = ign")
    case True
    with Cons show ?thesis by (auto intro!: bcast_cong)
  next
    case False
    with Cons.prems obtain p where p: "deq_conns s ! i = Some p" "up s p"
      by (cases "deq_conns s ! i") auto
    let ?P = "\<lambda>p. Some p \<noteq> ign \<and> Some p \<in> (\<lambda>i. deq_conns s ! i) ` set is"
    have "mac_loop disc m ign (i # is) fl s = Inr (bcast m ?P (send_to p m s), fl)"
      using False p Cons.prems Cons.IH [of "send_to p m s"] by simp
    moreover have "\<not> ?P p" using Cons.prems(2) p by auto
    ultimately show ?thesis
      using False p by (auto simp: bcast_send_to intro!: bcast_cong)
  qed
qed

lemma mac_loop_append:
  "mac_loop disc m ign (is @ js) fl s
     = ebind (mac_loop disc m ign is fl s) (\<lambda>(s', fl'). mac_loop disc m ign js fl' s')"
proof (induction "is" arbitrary: fl s)
  case (Cons i "is")
  show ?case
    by (simp add: Let_def Cons.IH ebind_assoc if_distrib [where f = "\<lambda>x. ebind x _"] cong: if_cong)
qed simp

text \<open>With every connection but the ignored one up, a broadcast sends the message to exactly
  these, whatever \<open>OnClientDisconnect\<close> does, and changes nothing else.\<close>

lemma MessageAllClients_up:
  assumes "conns_ok s" "all_up s ign"
  shows "MessageAllClients disc m ign s = Inr (bcast m (\<lambda>p. linked s p \<and> Some p \<noteq> ign) s)"
proof -
  let ?is = "[0..<length (deq_conns s)]"
  have M: "map (\<lambda>i. deq_conns s ! i) ?is = deq_conns s" by (rule map_nth)
  then have I: "(\<lambda>i. deq_conns s ! i) ` set ?is = set (deq_conns s)"
    by (metis set_map)
  have "\<forall>i\<in>set ?is. deq_conns s ! i \<in> set (deq_conns s)"
    by simp
  then have "mac_loop disc m ign ?is False s
      = Inr (bcast m (\<lambda>p. linked s p \<and> Some p \<noteq> ign) s, False)"
    using assms M
    by (subst mac_loop_up)
       (auto simp: all_up_def conns_ok_def linked_def I simp del: set_upt intro!: bcast_cong)
  then show ?thesis by (simp add: MessageAllClients_def)
qed

section \<open>Several connections lost\<close>

definition lost :: "'a net_server_scheme \<Rightarrow> nat \<Rightarrow> bool" where
  "lost s p \<longleftrightarrow> linked s p \<and> \<not> up s p"

definition two_lost :: "'a net_server_scheme \<Rightarrow> bool" where
  "two_lost s \<longleftrightarrow> conns_ok s \<and> (\<exists>a b. a \<noteq> b \<and> lost s a \<and> lost s b)"

lemma two_lost_bcast [simp]: "two_lost (bcast m P s) = two_lost s"
  by (simp add: two_lost_def lost_def)

lemma lost_bcast [simp]: "lost (bcast m P s) = lost s"
  by (simp add: lost_def fun_eq_iff)

lemma first_lost:
  assumes "conns_ok s" "lost s a" "Some a \<noteq> ign"
  obtains xs b ys where "deq_conns s = xs @ Some b # ys" "lost s b" "Some b \<noteq> ign"
    "\<forall>c\<in>set xs. c \<noteq> ign \<longrightarrow> is_connected s c"
proof -
  let ?P = "\<lambda>c. c \<noteq> ign \<and> \<not> is_connected s c"
  have "\<exists>c\<in>set (deq_conns s). ?P c"
    using assms by (auto simp: lost_def linked_def)
  from split_list_first_prop [OF this] obtain xs c ys where
    c: "deq_conns s = xs @ c # ys" "?P c" "\<forall>x\<in>set xs. \<not> ?P x"
    by blast
  moreover from c assms(1) obtain b where "c = Some b"
    by (cases c) (auto simp: conns_ok_def)
  ultimately show thesis
    using that [of xs b ys] by (auto simp: lost_def linked_def)
qed

text \<open>The loop up to the first lost connection.\<close>

lemma mac_loop_reaches:
  assumes "conns_ok s" "deq_conns s = xs @ c # ys" "\<forall>x\<in>set xs. x \<noteq> ign \<longrightarrow> is_connected s x"
  shows "mac_loop disc m ign [0..<length (deq_conns s)] fl s
    = mac_loop disc m ign (length xs # [Suc (length xs)..<length (deq_conns s)]) fl
        (bcast m (\<lambda>p. Some p \<noteq> ign \<and> Some p \<in> set xs) s)"
proof -
  have "[0..<length (deq_conns s)]
      = [0..<length xs] @ length xs # [Suc (length xs)..<length (deq_conns s)]"
    using upt_add_eq_append [of 0 "length xs" "Suc (length ys)"] assms(2)
    by (simp add: upt_conv_Cons del: upt_Suc)
  moreover have E: "map (\<lambda>i. deq_conns s ! i) [0..<length xs] = xs"
    using assms(2) by (intro nth_equalityI) (simp_all add: nth_append)
  then have I: "(\<lambda>i. deq_conns s ! i) ` set [0..<length xs] = set xs"
    by (metis set_map)
  moreover have "mac_loop disc m ign [0..<length xs] fl s
      = Inr (bcast m (\<lambda>p. Some p \<noteq> ign \<and> Some p \<in> set xs) s, fl)"
    using assms I E
    by (subst mac_loop_up) (auto simp: conns_ok_def simp del: set_upt)
  ultimately show ?thesis by (simp only: mac_loop_append ebind_Inr prod.case)
qed

lemma MessageAllClients_first_lost:
  assumes "conns_ok s" "lost s a" "Some a \<noteq> ign"
    and fails: "\<And>c s'. lost s' c \<Longrightarrow> two_lost s' = two_lost s \<Longrightarrow> disc (Some c) s' = Inl e"
  shows "MessageAllClients disc m ign s = Inl e"
proof -
  obtain xs b ys where b: "deq_conns s = xs @ Some b # ys" "lost s b" "Some b \<noteq> ign"
    "\<forall>c\<in>set xs. c \<noteq> ign \<longrightarrow> is_connected s c"
    using first_lost [OF assms(1-3)] by blast
  let ?s = "bcast m (\<lambda>p. Some p \<noteq> ign \<and> Some p \<in> set xs) s"
  have "deq_conns ?s ! length xs = Some b" "\<not> up s b" "disc (Some b) ?s = Inl e"
    using b by (auto simp: lost_def intro!: fails)
  then show ?thesis
    using b(3) mac_loop_reaches [OF assms(1) b(1,4), of disc m False]
    by (simp add: MessageAllClients_def)
qed

section \<open>What a derived class promises for OnClientDisconnect\<close>

definition only_lost :: "'a net_server_scheme \<Rightarrow> nat \<Rightarrow> bool" where
  "only_lost s q \<longleftrightarrow> conns_ok s \<and> lost s q \<and> (\<forall>p. lost s p \<longrightarrow> p = q)"

lemma only_lost_bcast [simp]: "only_lost (bcast m P s) = only_lost s"
  by (simp add: only_lost_def fun_eq_iff)

lemma lost_cases:
  assumes "conns_ok s"
  obtains "\<forall>ign. all_up s ign" | q where "only_lost s q" | "two_lost s"
proof (cases "\<exists>q. lost s q")
  case False
  have "is_connected s c" if "c \<in> set (deq_conns s)" for c
    using False assms that by (cases c) (auto simp: lost_def linked_def conns_ok_def)
  then show thesis using that(1) by (simp add: all_up_def)
next
  case True
  then obtain q where "lost s q" by blast
  with assms that(2) [of q] that(3) show thesis
    unfolding only_lost_def two_lost_def by metis
qed

lemma only_lost_all_up: "only_lost s q \<Longrightarrow> all_up s (Some q)"
proof -
  assume q: "only_lost s q"
  have "is_connected s c" if "c \<in> set (deq_conns s)" "c \<noteq> Some q" for c
    using q that by (cases c) (auto simp: only_lost_def conns_ok_def lost_def linked_def)
  then show ?thesis by (simp add: all_up_def)
qed

lemma erase_null_bcast:
  "filter (\<lambda>c. c \<noteq> None) xs = xs \<Longrightarrow> filter (\<lambda>c. c \<noteq> None) ys = ys \<Longrightarrow>
    erase_null (bcast m P (g\<lparr>deq_conns := xs @ None # ys\<rparr>)) = (bcast m P g)\<lparr>deq_conns := xs @ ys\<rparr>"
  by (cases g) (simp add: erase_null_def bcast_def cong: if_cong)

locale disconnect_hook =
  fixes disc :: "'a net_server_scheme disconnect_fn"
    and gone :: "nat \<Rightarrow> 'a net_server_scheme \<Rightarrow> 'a net_server_scheme"
  assumes disc_single: "only_lost s q \<Longrightarrow> disc (Some q) s = Inr (gone q s)"
    and disc_many: "two_lost s \<Longrightarrow> lost s q \<Longrightarrow> disc (Some q) s = Inl Stack_Overflow"
    and gone_deq: "deq_conns (gone q s) = deq_conns s"
    and gone_up: "up (gone q s) = up s"
begin

lemma broadcast_single:
  assumes q: "only_lost s q" and ign: "ign \<noteq> Some q" and d: "deq_conns s = xs @ Some q # ys"
  shows "MessageAllClients disc m ign s
    = Inr ((bcast m (\<lambda>p. Some p \<noteq> ign \<and> Some p \<in> set ys)
        (gone q (bcast m (\<lambda>p. Some p \<noteq> ign \<and> Some p \<in> set xs) s)))\<lparr>deq_conns := xs @ ys\<rparr>)"
proof -
  let ?s1 = "bcast m (\<lambda>p. Some p \<noteq> ign \<and> Some p \<in> set xs) s"
  let ?s2 = "(gone q ?s1)\<lparr>deq_conns := xs @ None # ys\<rparr>"
  let ?is = "[Suc (length xs)..<length (deq_conns s)]"
  have ok: "conns_ok s" "\<not> up s q" using q by (auto simp: only_lost_def lost_def)
  have conn: "\<forall>c\<in>set (deq_conns s). c \<noteq> Some q \<longrightarrow> is_connected s c"
    using only_lost_all_up [OF q] by (simp add: all_up_def)
  have sep: "Some q \<notin> set xs" "Some q \<notin> set ys" "distinct ys" "None \<notin> set xs" "None \<notin> set ys"
    using ok d by (auto simp: conns_ok_def)
  have up2: "up ?s2 = up s"
    using gone_up [of q ?s1] by (simp add: up_def fun_eq_iff)
  have E: "map (\<lambda>i. deq_conns ?s2 ! i) ?is = ys"
    using d by (intro nth_equalityI) (simp_all add: nth_append del: upt_Suc)
  have I: "(\<lambda>i. deq_conns ?s2 ! i) ` set ?is = set ys"
    using arg_cong [OF E, of set] by (simp only: set_map)
  have xs_up: "is_connected s c" if c: "c \<in> set xs" for c
  proof -
    have "c \<noteq> Some q" using sep(1) c by blast
    then show ?thesis using conn d c by simp
  qed
  have ys_up: "is_connected ?s2 c" if c: "c \<in> set ys" for c
  proof -
    obtain p where p: "c = Some p" using sep(5) c by (cases c) auto
    have "c \<noteq> Some q" using sep(2) c by blast
    then have "is_connected s c" using conn d c by simp
    then show ?thesis using up2 p by simp
  qed
  have "mac_loop disc m ign ?is True ?s2
      = Inr (bcast m (\<lambda>p. Some p \<noteq> ign \<and> Some p \<in> set ys) ?s2, True)"
    using I E ys_up sep(3) by (subst mac_loop_up) (auto simp del: set_upt)
  moreover have "mac_loop disc m ign [0..<length (deq_conns s)] False s
      = mac_loop disc m ign (length xs # ?is) False ?s1"
    using xs_up by (intro mac_loop_reaches [OF ok(1) d]) simp
  moreover have "mac_loop disc m ign (length xs # ?is) False ?s1 = mac_loop disc m ign ?is True ?s2"
    using d ok ign q by (simp add: disc_single gone_deq list_update_append)
  ultimately have "MessageAllClients disc m ign s
      = Inr (erase_null (bcast m (\<lambda>p. Some p \<noteq> ign \<and> Some p \<in> set ys) ?s2))"
    by (simp add: MessageAllClients_def)
  moreover have "filter (\<lambda>c. c \<noteq> None) xs = xs" "filter (\<lambda>c. c \<noteq> None) ys = ys"
    using sep(4,5) by (metis (mono_tags, lifting) filter_True)+
  ultimately show ?thesis by (simp add: erase_null_bcast)
qed

lemma broadcast_many:
  assumes "two_lost s"
  shows "MessageAllClients disc m ign s = Inl Stack_Overflow"
proof -
  obtain a b where ab: "a \<noteq> b" "lost s a" "lost s b" "conns_ok s"
    using assms by (auto simp: two_lost_def)
  then obtain c where "lost s c" "Some c \<noteq> ign" by (cases "ign = Some a") auto
  then show ?thesis
    using ab assms by (intro MessageAllClients_first_lost [of s c ign disc]) (auto intro: disc_many)
qed

lemma broadcast_returns_iff:
  assumes "conns_ok s"
  shows "(\<exists>s'. MessageAllClients disc m ign s = Inr s') \<longleftrightarrow> \<not> two_lost s"
  using assms
proof (cases rule: lost_cases)
  case 1
  then have "\<not> two_lost s"
    by (auto simp: two_lost_def lost_def linked_def all_up_def) (metis is_connected_simps(2) option.distinct(1))
  with 1 assms MessageAllClients_up [of s ign disc m] show ?thesis by auto
next
  case (2 q)
  then have n: "\<not> two_lost s" by (auto simp: two_lost_def only_lost_def)
  show ?thesis
  proof (cases "ign = Some q")
    case True
    with 2 n assms MessageAllClients_up [of s ign disc m] only_lost_all_up show ?thesis by auto
  next
    case False
    obtain xs ys where "deq_conns s = xs @ Some q # ys"
      using 2 by (meson lost_def linked_def only_lost_def split_list)
    with broadcast_single [OF 2 False] n show ?thesis by auto
  qed
next
  case 3
  with broadcast_many [OF 3, of m ign] show ?thesis by auto
qed

end

section \<open>The message loop\<close>

primrec process :: "'a net_server_scheme message_fn \<Rightarrow> owned_message list \<Rightarrow> owned_message list
    \<Rightarrow> 'a net_server_scheme \<Rightarrow> 'a net_server_scheme res" where
  "process h [] rest s = Inr s"
| "process h (m # ms) rest s =
     ebind (h (remote m) (omsg m) (s\<lparr>q_in := ms @ rest\<rparr>)) (process h ms rest)"

locale message_handler =
  fixes h :: "'a net_server_scheme message_fn"
  assumes keeps_queue: "h c m s = Inr s' \<Longrightarrow> q_in s' = q_in s"
begin

lemma process_queue: "process h ms rest s = Inr s' \<Longrightarrow> q_in s = ms @ rest \<Longrightarrow> q_in s' = rest"
proof (induction ms arbitrary: s)
  case (Cons m ms)
  then show ?case by (auto dest: keeps_queue)
qed simp

lemma update_loop_process:
  "update_loop h mx c s = process h (take (mx - c) (q_in s)) (drop (mx - c) (q_in s)) s"
proof (induction "mx - c" arbitrary: c s)
  case 0
  then show ?case by (subst update_loop.simps) simp
next
  case (Suc n)
  then have c: "c < mx" "mx - c = Suc n" "n = mx - Suc c" by simp_all
  show ?case
  proof (cases "q_in s")
    case Nil
    with c show ?thesis by (subst update_loop.simps) simp
  next
    case (Cons x xs)
    have "update_loop h mx (Suc c) s'
        = process h (take n xs) (drop n xs) s'"
      if "h (remote x) (omsg x) (s\<lparr>q_in := xs\<rparr>) = Inr s'" for s'
      using Suc.hyps(1) [OF c(3), of s'] keeps_queue [OF that] c(3) by simp
    with Cons c show ?thesis
      by (subst update_loop.simps) (auto intro!: ebind_cong)
  qed
qed

lemma Update_spec:
  assumes "Update h mx w s = Some r"
  shows "r = process h (take mx (q_in s)) (drop mx (q_in s)) s
    \<and> (\<forall>s'. r = Inr s' \<longrightarrow> q_in s' = drop mx (q_in s))"
proof -
  have r: "r = process h (take mx (q_in s)) (drop mx (q_in s)) s"
    using assms update_loop_process [of mx 0 s] by (auto simp: Update_def split: if_splits)
  moreover have "q_in s' = drop mx (q_in s)" if "r = Inr s'" for s'
    using process_queue r that by simp
  ultimately show ?thesis by blast
qed

end

section \<open>Identifiers of the connections\<close>

definition ids_ok :: "nat \<Rightarrow> 'a net_server_scheme \<Rightarrow> bool" where
  "ids_ok n s \<longleftrightarrow> conns_ok s \<and> id_counter s = 10000 + word_of_nat n
    \<and> (\<forall>p. linked s p \<longrightarrow> p < next_ptr s \<and> unat (conn_id (heap s p) - 10000) < n)
    \<and> (\<forall>p q. linked s p \<longrightarrow> linked s q \<longrightarrow> conn_id (heap s p) = conn_id (heap s q) \<longrightarrow> p = q)"

lemma ids_ok_alloc:
  assumes "ids_ok n s" "deq_conns t = deq_conns s" "heap t = (heap s)(next_ptr s := k)"
    "next_ptr t = Suc (next_ptr s)" "id_counter t = id_counter s"
  shows "ids_ok n t"
proof -
  have "\<forall>p. linked s p \<longrightarrow> p \<noteq> next_ptr s \<and> p < Suc (next_ptr s)"
    using assms(1) by (auto simp: ids_ok_def)
  then show ?thesis
    using assms by (simp add: ids_ok_def conns_ok_def linked_def)
qed

lemma ids_ok_link:
  assumes "ids_ok n s" "n < 2 ^ 32" "conn_id k = id_counter s"
    and t: "deq_conns t = deq_conns s @ [Some (next_ptr s)]" "heap t = (heap s)(next_ptr s := k)"
    "next_ptr t = Suc (next_ptr s)" "id_counter t = id_counter s + 1"
  shows "ids_ok (Suc n) t"
proof -
  let ?p = "next_ptr s"
  have un: "unat (word_of_nat n :: u32) = n" using assms(2) by (simp add: unat_of_nat)
  have k: "conn_id k - 10000 = word_of_nat n" using assms by (simp add: ids_ok_def)
  have old: "p \<noteq> ?p" "p < Suc ?p" "unat (conn_id (heap s p) - 10000) < n" if "linked s p" for p
    using assms(1) that by (auto simp: ids_ok_def)
  have new: "conn_id (heap s p) \<noteq> conn_id k" if "linked s p" for p
    using old(3) [OF that] un k by auto
  have L: "linked t p \<longleftrightarrow> linked s p \<or> p = ?p" for p
    by (auto simp: linked_def t)
  have "conns_ok t" using assms(1) old(1) by (auto simp: ids_ok_def conns_ok_def linked_def t)
  moreover have "id_counter t = 10000 + word_of_nat (Suc n)"
    using assms(1) by (simp add: ids_ok_def t)
  moreover have "p < next_ptr t \<and> unat (conn_id (heap t p) - 10000) < Suc n" if "linked t p" for p
    using old [of p] un k that by (auto simp: L t less_SucI)
  moreover have "p = q"
    if "linked t p" "linked t q" "conn_id (heap t p) = conn_id (heap t q)" for p q
    using assms(1) new [of p] new [of q] old(1) that by (auto simp: L t ids_ok_def split: if_splits)
  ultimately show ?thesis by (simp add: ids_ok_def)
qed

text \<open>The accept handler: nothing happened, a connection was refused, or one was approved.\<close>

lemma on_accept_cases:
  assumes "on_accept connect ec remote_ok now s = Inr s'"
  obtains (errored) "s' = s\<lparr>accepting := True\<rparr>"
  | (refused) "s' = s\<lparr>accepting := True, next_ptr := Suc (next_ptr s),
        heap := (heap s)(next_ptr s := new_connection O_Server True now)\<rparr>"
  | (approved) "s' = s\<lparr>accepting := True, next_ptr := Suc (next_ptr s),
        heap := (heap s)(next_ptr s := fresh_server_side (id_counter s) now),
        deq_conns := deq_conns s @ [Some (next_ptr s)], id_counter := id_counter s + 1\<rparr>"
  using assms
  by (cases s) (auto simp: on_accept_def set_conn_def WaitForClientConnection_def
      fresh_server_side_def Let_def split: if_splits)

end
