(* ===== verification/Game_Server.thy ===== *)
theory Game_Server
  imports Broadcast Powerups "HOL-Library.Stream"
begin

text \<open>
  \<open>src/SnekServer/server.h\<close>, \<open>server.cpp\<close> and \<open>main.cpp\<close>: the game server, a
  \<open>ServerInterface\<close> with the players, powerups and spawn points. The unordered map of players
  is an association list in its iteration order, which the standard leaves open; a new key is
  added last, and no result below depends on where. Colours come from \<open>rand()\<close> and \<open>ImColor\<close>
  and are arguments; the draws of \<open>std::random_device\<close> are the stream \<open>rng\<close>.

  The virtual calls make \<open>MessageAllClients\<close> and \<open>OnClientDisconnect\<close> recursive; the first
  argument of an operation that broadcasts is the depth the call stack has left for them.
\<close>

section \<open>State\<close>

record server = net_server +
  players :: "(u32 \<times> player_data) list"
  powerups :: "powerup_data list"
  sgrid :: "position list"
  spawnpoints :: "position list"
  game_started :: bool
  rng :: "nat stream"

section \<open>Construction\<close>

definition cell :: "nat \<Rightarrow> nat \<Rightarrow> position" where
  "cell a b = Pos (word_of_nat a) (word_of_nat b)"

definition GenerateGrid :: "server \<Rightarrow> server" where
  "GenerateGrid s = s\<lparr>sgrid := sgrid s
     @ concat (map (\<lambda>x. map (\<lambda>y. cell x y) [0..<GRIDHEIGHT]) [0..<GRIDWIDTH])\<rparr>"

definition GenerateSpawnpoints :: "server \<Rightarrow> server" where
  "GenerateSpawnpoints s = s\<lparr>spawnpoints := replicate 6 (Pos 0 0) @
     [cell (GRIDWIDTH div 4) (GRIDHEIGHT div 3),
      cell (2 * GRIDWIDTH div 4) (GRIDHEIGHT div 3),
      cell (3 * GRIDWIDTH div 4) (GRIDHEIGHT div 3),
      cell (GRIDWIDTH div 4) (2 * GRIDHEIGHT div 3),
      cell (2 * GRIDWIDTH div 4) (2 * GRIDHEIGHT div 3),
      cell (3 * GRIDWIDTH div 4) (2 * GRIDHEIGHT div 3)]\<rparr>"

definition new_server :: "nat stream \<Rightarrow> server" where
  "new_server r = GenerateSpawnpoints (GenerateGrid
     \<lparr>deq_conns = [], heap = (\<lambda>_. new_connection O_Server False 0), next_ptr = 0, q_in = [],
      id_counter = 10000, accepting = False, context_running = False,
      players = [], powerups = [], sgrid = [], spawnpoints = [], game_started = False, rng = r\<rparr>)"

section \<open>Disconnection and broadcast\<close>

primrec OnClientDisconnect :: "nat \<Rightarrow> server disconnect_fn" where
  "OnClientDisconnect 0 = (\<lambda>client s. Inl Stack_Overflow)"
| "OnClientDisconnect (Suc d) = (\<lambda>client s.
     ebind (GetID_of s client) (\<lambda>cid.
     ebind (MessageAllClients (OnClientDisconnect d)
              (put enc_u32 cid (message_of RemovePlayer)) client s) (\<lambda>s'.
     Inr (s'\<lparr>players := AList.delete cid (players s')\<rparr>))))"

definition broadcast :: "nat \<Rightarrow> message \<Rightarrow> nat option \<Rightarrow> server \<Rightarrow> server res" where
  "broadcast d = MessageAllClients (OnClientDisconnect d)"

definition SendKillMessage :: "nat \<Rightarrow> cint \<Rightarrow> server \<Rightarrow> server res" where
  "SendKillMessage d clientID s =
     broadcast d (put enc_u32 clientID (message_of KillPlayer)) None s"

section \<open>Free cells and powerups\<close>

text \<open>\<open>freeGridArray[x][y] = 1\<close>: outside the array the access is undefined.\<close>

definition mark_cell :: "cint \<times> cint \<Rightarrow> (nat \<Rightarrow> nat \<Rightarrow> nat) \<Rightarrow> (nat \<Rightarrow> nat \<Rightarrow> nat) res" where
  "mark_cell c a = (let (x, y) = c in
     if 0 \<le> sint x \<and> sint x < int GRIDWIDTH \<and> 0 \<le> sint y \<and> sint y < int GRIDHEIGHT
     then Inr (a(nat (sint x) := (a (nat (sint x)))(nat (sint y) := 1)))
     else Inl Index_Error)"

primrec mark_all :: "(cint \<times> cint) list \<Rightarrow> (nat \<Rightarrow> nat \<Rightarrow> nat) \<Rightarrow> (nat \<Rightarrow> nat \<Rightarrow> nat) res" where
  "mark_all [] a = Inr a"
| "mark_all (c # cs) a = ebind (mark_cell c a) (mark_all cs)"

definition tail_cells :: "server \<Rightarrow> (cint \<times> cint) list" where
  "tail_cells s =
     concat (map (\<lambda>pl. map (\<lambda>p. (pos_x p, pos_y p)) (pd_tail (snd pl))) (players s))"

definition powerup_cells :: "server \<Rightarrow> (cint \<times> cint) list" where
  "powerup_cells s = map (\<lambda>w. (pw_x w, pw_y w)) (powerups s)"

definition GetFreeGrid :: "server \<Rightarrow> position list res" where
  "GetFreeGrid s =
     ebind (mark_all (tail_cells s) (\<lambda>_ _. 0)) (\<lambda>a1.
     ebind (mark_all (powerup_cells s) a1) (\<lambda>a.
     Inr (concat (map (\<lambda>x. concat (map (\<lambda>y. if a x y = 0 then [cell x y] else [])
            [0..<GRIDHEIGHT])) [0..<GRIDWIDTH]))))"

definition GeneratePowerup :: "nat \<Rightarrow> server \<Rightarrow> server res" where
  "GeneratePowerup d s =
     ebind (GetFreeGrid s) (\<lambda>freeGrid.
     if freeGrid = [] then Inl Bad_Range
     else
       let spawnPos = freeGrid ! (shd (rng s) mod length freeGrid);
           powerup = PowerupData (pos_x spawnPos) (pos_y spawnPos);
           s1 = s\<lparr>rng := stl (rng s), powerups := powerups s @ [powerup]\<rparr>
       in broadcast d (put enc_powerup powerup (message_of NewPowerup)) None s1)"

definition DeletePowerup :: "nat \<Rightarrow> powerup_data \<Rightarrow> nat option \<Rightarrow> server \<Rightarrow> server res" where
  "DeletePowerup d powerup ignoreClient s =
     (let msg = put enc_powerup powerup (message_of PowerupEaten);
          s1 = s\<lparr>powerups := erase_first
            (\<lambda>w. pw_x w = pw_x powerup \<and> pw_y w = pw_y powerup) (powerups s)\<rparr>
      in broadcast d msg ignoreClient s1)"

text \<open>A field that \<open>OnClientDisconnect\<close> and \<open>Send\<close> leave alone is left alone by a broadcast.\<close>

lemma mac_loop_keeps:
  assumes "\<And>c s s'. disc c s = Inr s' \<Longrightarrow> f s' = f s" "\<And>p m s. f (send_to p m s) = f s"
    and "\<And>s ds. f (s\<lparr>deq_conns := ds\<rparr>) = f s"
  shows "mac_loop disc m ign is fl s = Inr (s', fl') \<Longrightarrow> f s' = f s"
proof (induction "is" arbitrary: fl s)
  case (Cons i "is")
  note IH = Cons.IH [of fl s] Cons.IH [of fl "send_to (the (deq_conns s ! i)) m s"]
  consider "deq_conns s ! i = ign"
    | "deq_conns s ! i \<noteq> ign" "is_connected s (deq_conns s ! i)"
    | "deq_conns s ! i \<noteq> ign" "\<not> is_connected s (deq_conns s ! i)"
    by blast
  then show ?case
  proof cases
    case 1
    with Cons.prems IH show ?thesis by simp
  next
    case 2
    with Cons.prems IH show ?thesis by (simp add: assms(2))
  next
    case 3
    with Cons.prems obtain t where t: "disc (deq_conns s ! i) s = Inr t"
      "mac_loop disc m ign is True (t\<lparr>deq_conns := (deq_conns t)[i := None]\<rparr>) = Inr (s', fl')"
      by (auto split: if_splits)
    with Cons.IH assms(1,3) show ?thesis by metis
  qed
qed simp

lemma MessageAllClients_keeps:
  assumes "\<And>c s s'. disc c s = Inr s' \<Longrightarrow> f s' = f s" "\<And>p m s. f (send_to p m s) = f s"
    and "\<And>s ds. f (s\<lparr>deq_conns := ds\<rparr>) = f s"
    and "MessageAllClients disc m ign s = Inr s'"
  shows "f s' = f s"
  using assms(4)
  by (auto simp: MessageAllClients_def erase_null_def assms(3) split: if_splits
      dest!: mac_loop_keeps [of disc f, OF assms(1,2,3), rotated -1])

definition game_fields ::
    "server \<Rightarrow> powerup_data list \<times> position list \<times> position list \<times> bool \<times> nat stream
      \<times> owned_message queue \<times> u32 \<times> nat \<times> bool \<times> bool" where
  "game_fields s = (powerups s, sgrid s, spawnpoints s, game_started s, rng s, q_in s,
     id_counter s, next_ptr s, accepting s, context_running s)"

lemma OnClientDisconnect_keeps: "OnClientDisconnect d c s = Inr s' \<Longrightarrow> game_fields s' = game_fields s"
proof (induction d arbitrary: c s s')
  case (Suc d)
  then obtain cid s1 where s1: "s' = s1\<lparr>players := AList.delete cid (players s1)\<rparr>"
    "MessageAllClients (OnClientDisconnect d) (put enc_u32 cid (message_of RemovePlayer)) c s = Inr s1"
    by auto
  have "game_fields s1 = game_fields s"
    by (rule MessageAllClients_keeps [OF _ _ _ s1(2)])
       (auto simp: game_fields_def send_to_def set_conn_def dest!: Suc.IH)
  with s1(1) show ?case by (simp add: game_fields_def)
qed simp

lemma broadcast_keeps: "broadcast d m ign s = Inr s' \<Longrightarrow> game_fields s' = game_fields s"
  unfolding broadcast_def
  by (erule MessageAllClients_keeps [rotated -1])
     (auto simp: game_fields_def send_to_def set_conn_def dest!: OnClientDisconnect_keeps)

lemma GeneratePowerup_count:
  "GeneratePowerup d s = Inr s' \<Longrightarrow> length (powerups s') = Suc (length (powerups s))"
  by (auto simp: GeneratePowerup_def Let_def game_fields_def split: if_splits dest!: broadcast_keeps)

text \<open>\<open>while (powerups.size() < powerupCount) GeneratePowerup();\<close>\<close>

function generate_powerups :: "nat \<Rightarrow> nat \<Rightarrow> server \<Rightarrow> server res" where
  "generate_powerups d n s =
     (if length (powerups s) < n
      then ebind (GeneratePowerup d s) (\<lambda>s'. generate_powerups d n s')
      else Inr s)"
  by pat_completeness auto
termination
  by (relation "measure (\<lambda>(d, n, s). n - length (powerups s))") (auto dest: GeneratePowerup_count)

declare generate_powerups.simps [simp del]

section \<open>Clients coming\<close>

text \<open>\<open>ip_ok\<close>: \<open>client->GetIP()\<close>, evaluated for the log line, does not throw.\<close>

definition OnClientConnect :: "bool \<Rightarrow> nat \<Rightarrow> server \<Rightarrow> bool res" where
  "OnClientConnect ip_ok client s =
     (if \<not> ip_ok then Inl System_Error
      else if 0 < length (spawnpoints s) then Inr (\<not> game_started s)
      else Inr False)"

definition AddPlayerToMsg :: "message \<Rightarrow> player_data \<Rightarrow> message" where
  "AddPlayerToMsg msg pl =
     put enc_u64 (word_of_nat (length (pd_tail pl))) (put_all enc_pos (pd_tail pl) msg)"

definition state_message :: "server \<Rightarrow> u32 \<Rightarrow> message" where
  "state_message s cid =
     (let m1 = fold (\<lambda>(i, pl) m. put enc_u32 i (put enc_u32 (pd_color pl) (AddPlayerToMsg m pl)))
                 (players s) (message_of ServerValidation);
          m2 = put enc_u64 (word_of_nat (length (players s))) m1;
          m3 = put_all enc_powerup (powerups s) m2;
          m4 = put enc_u64 (word_of_nat (length (powerups s))) m3
      in put enc_u32 cid m4)"

definition newcomer_message :: "player_data \<Rightarrow> u32 \<Rightarrow> message" where
  "newcomer_message pl cid =
     put enc_u32 cid (put enc_u32 (pd_color pl) (AddPlayerToMsg (message_of NewPlayer) pl))"

text \<open>\<open>players.size() % 2 * players.size() / 2 + 1\<close>\<close>

definition powerup_count :: "nat \<Rightarrow> nat" where
  "powerup_count n = n mod 2 * n div 2 + 1"

definition OnClientValidated :: "nat \<Rightarrow> u32 \<Rightarrow> nat \<Rightarrow> server \<Rightarrow> server res" where
  "OnClientValidated d col client s =
     ebind (back_of (spawnpoints s)) (\<lambda>spawnpoint.
     let s1 = s\<lparr>spawnpoints := butlast (spawnpoints s)\<rparr>;
         player = \<lparr>pd_direction = Up, pd_tail = [Pos (pos_x spawnpoint) (pos_y spawnpoint)],
                   pd_color = col\<rparr>;
         cid = GetID (heap s1 client);
         s2 = s1\<lparr>players := AList.update cid player (players s1)\<rparr>;
         s3 = send_to client (state_message s2 cid) s2
     in ebind (broadcast d (newcomer_message player cid) (Some client) s3) (\<lambda>s4.
        generate_powerups d (powerup_count (length (players s4))) s4))"

section \<open>Collisions\<close>

definition same_cell :: "position \<Rightarrow> position \<Rightarrow> bool" where
  "same_cell p q = (pos_x p = pos_x q \<and> pos_y p = pos_y q)"

text \<open>\<open>players[clientID].tail[0]\<close>: a missing player is created with an empty tail.\<close>

definition head_of :: "server \<Rightarrow> cint \<Rightarrow> position res" where
  "head_of s clientID =
     (case map_of (players s) clientID of None \<Rightarrow> Inl Empty_Access | Some pl \<Rightarrow> front_of (pd_tail pl))"

primrec any_hit :: "position res \<Rightarrow> position list \<Rightarrow> bool res" where
  "any_hit h [] = Inr False"
| "any_hit h (p # ps) = ebind h (\<lambda>q. if same_cell p q then Inr True else any_hit h ps)"

fun collides :: "cint \<Rightarrow> position res \<Rightarrow> (u32 \<times> player_data) list \<Rightarrow> bool res" where
  "collides clientID h [] = Inr False"
| "collides clientID h ((cid, pl) # rest) =
     ebind (if cid = clientID then any_hit h (drop 4 (pd_tail pl)) else any_hit h (pd_tail pl))
       (\<lambda>hit. if hit then Inr True else collides clientID h rest)"

definition PlayerCollision :: "nat \<Rightarrow> cint \<Rightarrow> server \<Rightarrow> server res" where
  "PlayerCollision d clientID s =
     ebind (collides clientID (head_of s clientID) (players s)) (\<lambda>hit.
       if hit then SendKillMessage d clientID s else Inr s)"

section \<open>Messages from clients\<close>

definition on_powerup_eaten :: "nat \<Rightarrow> nat option \<Rightarrow> message \<Rightarrow> server \<Rightarrow> server res" where
  "on_powerup_eaten d client msg s =
     ebind (GetID_of s client) (\<lambda>_.
     ebind (get dec_powerup 8 msg) (\<lambda>(eatenPowerup, _).
     ebind (DeletePowerup d eatenPowerup client s) (\<lambda>s1.
     GeneratePowerup d s1)))"

definition on_update_player :: "nat \<Rightarrow> nat option \<Rightarrow> message \<Rightarrow> server \<Rightarrow> server res" where
  "on_update_player d client msg s =
     ebind (broadcast d msg client s) (\<lambda>s1.
     ebind (get dec_u32 4 msg) (\<lambda>(clientID, m1).
     ebind (GetID_of s1 client) (\<lambda>cid.
     case map_of (players s1) cid of
       None \<Rightarrow> Inl Out_Of_Range
     | Some pl \<Rightarrow>
       ebind (get dec_dir 4 m1) (\<lambda>(dir, m2).
       ebind (get dec_u64 8 m2) (\<lambda>(tailLength, m3).
       ebind (get_front dec_pos 8 (unat tailLength) [] m3) (\<lambda>(tl, m4).
       PlayerCollision d clientID
         (s1\<lparr>players := AList.update cid (pl\<lparr>pd_direction := dir, pd_tail := tl\<rparr>) (players s1)\<rparr>)))))))"

definition on_start_game :: "nat \<Rightarrow> nat option \<Rightarrow> message \<Rightarrow> server \<Rightarrow> server res" where
  "on_start_game d client msg s =
     ebind (GetID_of s client) (\<lambda>_. broadcast d msg None (s\<lparr>game_started := True\<rparr>))"

definition OnMessage :: "nat \<Rightarrow> server message_fn" where
  "OnMessage d client msg s =
     (case msg_type msg of
        PowerupEaten \<Rightarrow> on_powerup_eaten d client msg s
      | UpdatePlayer \<Rightarrow> on_update_player d client msg s
      | StartGame \<Rightarrow> on_start_game d client msg s
      | _ \<Rightarrow> Inr s)"

text \<open>One iteration of the main loop, \<open>server.Update(-1, true)\<close>.\<close>

definition server_iteration :: "nat \<Rightarrow> server \<Rightarrow> server res option" where
  "server_iteration d s = Update (OnMessage d) max_size_t True s"

text \<open>
  \<open>main\<close>: \<open>while (run)\<close> never ends; \<open>nets\<close> is what the asio thread does before each
  iteration, or before each wake-up while \<open>Wait\<close> blocks. \<open>bind_ok\<close>: the acceptor can be bound
  to the port. The result of \<open>Start\<close> is not used.
\<close>

primrec server_loop :: "nat \<Rightarrow> (server \<Rightarrow> server) list \<Rightarrow> server \<Rightarrow> server res" where
  "server_loop d [] s = Inr s"
| "server_loop d (net # nets) s =
     (case server_iteration d (net s) of
        None \<Rightarrow> server_loop d nets (net s)
      | Some r \<Rightarrow> ebind r (server_loop d nets))"

definition server_main :: "bool \<Rightarrow> bool \<Rightarrow> bool \<Rightarrow> nat stream \<Rightarrow> nat
    \<Rightarrow> (server \<Rightarrow> server) list \<Rightarrow> server res" where
  "server_main bind_ok accept_throws thread_throws r d nets =
     (if \<not> bind_ok then Inl System_Error
      else let (_, s) = Start accept_throws thread_throws (new_server r) in server_loop d nets s)"

text \<open>Sample states for the witnesses: two players; the second connection is up or lost.\<close>

definition sample_pd :: "cint \<Rightarrow> player_data" where
  "sample_pd a = \<lparr>pd_direction = Up, pd_tail = [Pos a a], pd_color = 1\<rparr>"

definition sample_server :: "bool \<Rightarrow> server" where
  "sample_server second_up =
     \<lparr>deq_conns = [Some 0, Some 1],
      heap = (\<lambda>p. (new_connection O_Server (p = 0 \<or> second_up) 0)
        \<lparr>conn_id := if p = 0 then 10000 else 10001\<rparr>),
      next_ptr = 2, q_in = [\<lparr>remote = Some 0, omsg = message_of StartGame\<rparr>], id_counter = 10002,
      accepting = True, context_running = True,
      players = [(10000, sample_pd 5), (10001, sample_pd 6)], powerups = [PowerupData 3 3],
      sgrid = [], spawnpoints = [Pos 10 10], game_started = False, rng = sconst 0\<rparr>"

lemma sample_server_fields:
  "deq_conns (sample_server b) = [Some 0, Some 1]" "q_in (sample_server b)
     = [\<lparr>remote = Some 0, omsg = message_of StartGame\<rparr>]"
  "players (sample_server b) = [(10000, sample_pd 5), (10001, sample_pd 6)]"
  "powerups (sample_server b) = [PowerupData 3 3]" "spawnpoints (sample_server b) = [Pos 10 10]"
  "conn_id (heap (sample_server b) p) = (if p = 0 then 10000 else 10001)"
  "tasks (heap (sample_server b) p) = []"
  by (simp_all add: sample_server_def new_connection_def Let_def)

lemma sample_server_up:
  "up (sample_server b) p \<longleftrightarrow> p = 0 \<or> b" "linked (sample_server b) p \<longleftrightarrow> p = 0 \<or> p = 1"
  "conns_ok (sample_server b)" "all_up (sample_server True) ign" "only_lost (sample_server False) 1"
  by (auto simp: up_def linked_def conns_ok_def all_up_def only_lost_def lost_def sample_server_def
      new_connection_def Let_def)

end
