(* ===== verification/Server_Disconnect.thy ===== *)
theory Server_Disconnect
  imports Game_Server
begin

text \<open>
  How the game server copes with lost connections: its \<open>OnClientDisconnect\<close> satisfies the
  contract of \<open>disconnect_hook\<close>, so the broadcast lemmas of \<open>Broadcast\<close> hold for it; its
  \<open>OnMessage\<close> satisfies that of \<open>message_handler\<close>.
\<close>

text \<open>The game's own fields do not matter for the connections.\<close>

lemma net_upd [simp, keeps]:
  "linked (s\<lparr>players := ps\<rparr>) = linked (s :: server)"
  "up (s\<lparr>players := ps\<rparr>) = up (s :: server)"
  "is_connected (s\<lparr>players := ps\<rparr>) = is_connected (s :: server)"
  "conns_ok (s\<lparr>players := ps\<rparr>) = conns_ok (s :: server)"
  "all_up (s\<lparr>players := ps\<rparr>) = all_up (s :: server)"
  "linked (s\<lparr>powerups := ws\<rparr>) = linked (s :: server)"
  "up (s\<lparr>powerups := ws\<rparr>) = up (s :: server)"
  "is_connected (s\<lparr>powerups := ws\<rparr>) = is_connected (s :: server)"
  "conns_ok (s\<lparr>powerups := ws\<rparr>) = conns_ok (s :: server)"
  "all_up (s\<lparr>powerups := ws\<rparr>) = all_up (s :: server)"
  "linked (s\<lparr>spawnpoints := sp\<rparr>) = linked (s :: server)"
  "up (s\<lparr>spawnpoints := sp\<rparr>) = up (s :: server)"
  "is_connected (s\<lparr>spawnpoints := sp\<rparr>) = is_connected (s :: server)"
  "conns_ok (s\<lparr>spawnpoints := sp\<rparr>) = conns_ok (s :: server)"
  "all_up (s\<lparr>spawnpoints := sp\<rparr>) = all_up (s :: server)"
  "linked (s\<lparr>game_started := b\<rparr>) = linked (s :: server)"
  "up (s\<lparr>game_started := b\<rparr>) = up (s :: server)"
  "is_connected (s\<lparr>game_started := b\<rparr>) = is_connected (s :: server)"
  "conns_ok (s\<lparr>game_started := b\<rparr>) = conns_ok (s :: server)"
  "all_up (s\<lparr>game_started := b\<rparr>) = all_up (s :: server)"
  "linked (s\<lparr>rng := r\<rparr>) = linked (s :: server)"
  "up (s\<lparr>rng := r\<rparr>) = up (s :: server)"
  "is_connected (s\<lparr>rng := r\<rparr>) = is_connected (s :: server)"
  "conns_ok (s\<lparr>rng := r\<rparr>) = conns_ok (s :: server)"
  "all_up (s\<lparr>rng := r\<rparr>) = all_up (s :: server)"
  by (simp_all add: linked_def up_def is_connected_def conns_ok_def all_up_def fun_eq_iff
      split: option.splits)

section \<open>The contracts\<close>

definition remove_message :: "server \<Rightarrow> nat \<Rightarrow> message" where
  "remove_message s q = put enc_u32 (conn_id (heap s q)) (message_of RemovePlayer)"

definition drop_client :: "nat \<Rightarrow> server \<Rightarrow> server" where
  "drop_client q s = (bcast (remove_message s q) (\<lambda>p. linked s p \<and> p \<noteq> q) s)
     \<lparr>players := AList.delete (conn_id (heap s q)) (players s)\<rparr>"

lemma OnClientDisconnect_single:
  "only_lost s q \<Longrightarrow> OnClientDisconnect (Suc d) (Some q) s = Inr (drop_client q s)"
proof -
  assume q: "only_lost s q"
  then have "conns_ok s" by (simp add: only_lost_def)
  then have "MessageAllClients (OnClientDisconnect d) (remove_message s q) (Some q) s
      = Inr (bcast (remove_message s q) (\<lambda>p. linked s p \<and> p \<noteq> q) s)"
    using MessageAllClients_up [OF _ only_lost_all_up [OF q]] by simp
  then show ?thesis
    by (simp add: GetID_of_def GetID_def remove_message_def drop_client_def bcast_def)
qed

lemma OnClientDisconnect_many:
  "two_lost s \<Longrightarrow> lost s q \<Longrightarrow> OnClientDisconnect d (Some q) s = Inl Stack_Overflow"
proof (induction d arbitrary: s q)
  case 0
  then show ?case by simp
next
  case (Suc d)
  obtain a where a: "lost s a" "a \<noteq> q" "conns_ok s"
    using Suc.prems unfolding two_lost_def by metis
  have "MessageAllClients (OnClientDisconnect d) m (Some q) s = Inl Stack_Overflow" for m
    using a Suc.prems(1)
    by (intro MessageAllClients_first_lost [of s a]) (auto intro: Suc.IH)
  then show ?case by (simp add: GetID_of_def)
qed

lemma drop_client_simps [simp]:
  "deq_conns (drop_client q s) = deq_conns s" "up (drop_client q s) = up s"
  by (simp_all add: drop_client_def up_def bcast_def Send_def fun_eq_iff)

interpretation dc: disconnect_hook "OnClientDisconnect (Suc d)" drop_client for d
  by unfold_locales (auto intro: OnClientDisconnect_single OnClientDisconnect_many
      simp del: OnClientDisconnect.simps)

lemma game_fields_players [simp]: "game_fields (s\<lparr>players := ps\<rparr>) = game_fields s"
  by (simp add: game_fields_def)

lemma q_in_eq: "game_fields s = game_fields t \<Longrightarrow> q_in s = q_in t"
  by (simp add: game_fields_def)

lemma PlayerCollision_keeps: "PlayerCollision d c s = Inr s' \<Longrightarrow> game_fields s' = game_fields s"
  by (auto simp: PlayerCollision_def SendKillMessage_def split: if_splits dest: broadcast_keeps)

lemma GeneratePowerup_keeps: "GeneratePowerup d s = Inr s' \<Longrightarrow> q_in s' = q_in s"
  by (auto simp: GeneratePowerup_def Let_def game_fields_def split: if_splits dest!: broadcast_keeps)

lemma DeletePowerup_keeps: "DeletePowerup d w c s = Inr s' \<Longrightarrow> q_in s' = q_in s"
  by (auto simp: DeletePowerup_def Let_def game_fields_def dest!: broadcast_keeps)

lemma on_update_player_keeps: "on_update_player d c m s = Inr s' \<Longrightarrow> game_fields s' = game_fields s"
  by (auto simp: on_update_player_def split: option.splits prod.splits
      dest!: broadcast_keeps PlayerCollision_keeps)

lemma OnMessage_queue: "OnMessage d c m s = Inr s' \<Longrightarrow> q_in s' = q_in s"
proof -
  assume h: "OnMessage d c m s = Inr s'"
  show ?thesis
  proof (cases "msg_type m")
    case PowerupEaten
    with h show ?thesis
      by (auto simp: OnMessage_def on_powerup_eaten_def dest!: GeneratePowerup_keeps DeletePowerup_keeps)
  next
    case UpdatePlayer
    with h show ?thesis
      by (auto simp: OnMessage_def dest!: on_update_player_keeps q_in_eq)
  next
    case StartGame
    with h show ?thesis
      by (auto simp: OnMessage_def on_start_game_def game_fields_def dest!: broadcast_keeps)
  qed (use h in \<open>auto simp: OnMessage_def\<close>)
qed

interpretation om: message_handler "OnMessage d" for d
  by unfold_locales (rule OnMessage_queue)

section \<open>Properties\<close>

text \<open>C8: A broadcast of the server comes back exactly if at most one connection of the deque is
  lost; with two or more lost, \<open>OnClientDisconnect\<close> and \<open>MessageAllClients\<close> call each other
  for ever, so at every depth of the stack the result is a stack overflow.\<close>

theorem broadcast_returns_iff_one_lost:
  assumes "conns_ok s"
  shows "((\<exists>s'. broadcast (Suc d) m ign s = Inr s') \<longleftrightarrow> \<not> two_lost s)
    \<and> (two_lost s \<longrightarrow> broadcast (Suc d) m ign s = Inl Stack_Overflow)"
  using dc.broadcast_returns_iff [OF assms] dc.broadcast_many unfolding broadcast_def by blast

theorem broadcast_returns_iff_one_lost_witness:
  "\<exists>s'. broadcast 1 (message_of StartGame) None (sample_server False) = Inr s'"
proof -
  have "\<not> two_lost (sample_server False)"
    using sample_server_up(5) by (auto simp: two_lost_def only_lost_def)
  with broadcast_returns_iff_one_lost [OF sample_server_up(3), of 0] show ?thesis by simp
qed

text \<open>C9: A broadcast that finds exactly one lost connection, which is not the ignored one: the
  connections before it in the deque are sent the message and then its removal, those after it
  the removal and then the message, an ignored connection only the removal; the player of the
  lost connection is erased and the connection leaves the deque; all else is unchanged.\<close>

theorem broadcast_one_lost:
  assumes "only_lost s q" "ign \<noteq> Some q" "deq_conns s = xs @ Some q # ys"
  shows "\<exists>s'. broadcast (Suc d) m ign s = Inr s'
    \<and> deq_conns s' = xs @ ys \<and> game_fields s' = game_fields s
    \<and> players s' = AList.delete (conn_id (heap s q)) (players s)
    \<and> (\<forall>p. tasks (heap s' p) = tasks (heap s p) @
        (if Some p \<in> set xs \<and> Some p \<noteq> ign then [T_Send m] else [])
        @ (if Some p \<in> set (xs @ ys) then [T_Send (remove_message s q)] else [])
        @ (if Some p \<in> set ys \<and> Some p \<noteq> ign then [T_Send m] else []))"
proof -
  let ?s1 = "bcast m (\<lambda>p. Some p \<noteq> ign \<and> Some p \<in> set xs) s"
  let ?s' = "(bcast m (\<lambda>p. Some p \<noteq> ign \<and> Some p \<in> set ys) (drop_client q ?s1))
    \<lparr>deq_conns := xs @ ys\<rparr>"
  have b: "broadcast (Suc d) m ign s = Inr ?s'"
    unfolding broadcast_def by (rule dc.broadcast_single [OF assms])
  have id: "conn_id (heap ?s1 q) = conn_id (heap s q)"
    by (simp add: heap_bcast Send_def)
  then have rm: "remove_message ?s1 q = remove_message s q"
    by (simp add: remove_message_def)
  have sep: "Some q \<notin> set xs" "Some q \<notin> set ys" "set xs \<inter> set ys = {}"
    using assms by (auto simp: only_lost_def conns_ok_def)
  have "tasks (heap ?s' p) = tasks (heap s p) @
        (if Some p \<in> set xs \<and> Some p \<noteq> ign then [T_Send m] else [])
        @ (if Some p \<in> set (xs @ ys) then [T_Send (remove_message s q)] else [])
        @ (if Some p \<in> set ys \<and> Some p \<noteq> ign then [T_Send m] else [])" for p
    using sep assms(3)
    by (auto simp: heap_bcast drop_client_def rm linked_def Send_def)
  moreover have "game_fields ?s' = game_fields s" "deq_conns ?s' = xs @ ys"
    by (simp_all add: game_fields_def drop_client_def bcast_def)
  moreover have "players ?s' = AList.delete (conn_id (heap s q)) (players s)"
    using id by (simp add: drop_client_def) (simp add: bcast_def)
  ultimately show ?thesis using b by blast
qed

theorem broadcast_one_lost_witness:
  "\<exists>s'. broadcast 1 (message_of StartGame) None (sample_server False) = Inr s'
    \<and> deq_conns s' = [Some 0] \<and> players s' = [(10000, sample_pd 5)]
    \<and> tasks (heap s' 0) = [T_Send (message_of StartGame),
         T_Send (put enc_u32 10001 (message_of RemovePlayer))]"
  using broadcast_one_lost [OF sample_server_up(5), of None "[Some 0]" "[]" 0 "message_of StartGame"]
  by (auto simp: sample_server_fields remove_message_def)

text \<open>\<open>MessageClient\<close> to a lost connection announces the disconnect and erases the player but
  leaves the lost connection in the deque, against its comment "Reset client and delete it from
  queue": it resets its own copy of the pointer first, and then erases the null pointers.\<close>

lemma MessageClient_keeps_lost:
  assumes "only_lost s q"
  shows "\<exists>s'. MessageClient (OnClientDisconnect (Suc d)) (Some q) m s = Inr s'
    \<and> Some q \<in> set (deq_conns s') \<and> \<not> is_connected s' (Some q)
    \<and> players s' = AList.delete (conn_id (heap s q)) (players s)"
proof -
  have q: "\<not> up s q" "Some q \<in> set (deq_conns s)"
    using assms by (auto simp: only_lost_def lost_def linked_def)
  have "MessageClient (OnClientDisconnect (Suc d)) (Some q) m s = Inr (erase_null (drop_client q s))"
    using q dc.disc_single [OF assms, of d] by (simp add: MessageClient_def del: OnClientDisconnect.simps)
  moreover have "\<not> up (erase_null (drop_client q s)) q"
    using q(1) by (simp add: erase_null_def up_def drop_client_def bcast_def Send_def)
  ultimately show ?thesis
    using q(2) by (simp add: erase_null_def) (simp add: drop_client_def bcast_def)
qed

lemma MessageClient_keeps_lost_example:
  "\<exists>s'. MessageClient (OnClientDisconnect 1) (Some 1) (message_of StartGame) (sample_server False) = Inr s'
    \<and> Some 1 \<in> set (deq_conns s') \<and> \<not> is_connected s' (Some 1)
    \<and> players s' = [(10000, sample_pd 5)]"
  using MessageClient_keeps_lost [OF sample_server_up(5), of 0 "message_of StartGame"]
  by (simp add: sample_server_fields del: OnClientDisconnect.simps)

text \<open>\<open>Update\<close> handles the messages that are in the queue when it gets to run in the order of
  their arrival, at most \<open>maxMessages\<close> of them, and leaves the others; it blocks exactly if it
  is told to wait and the queue is empty.\<close>

lemma Update_in_order:
  "(Update (OnMessage d) mx w s = None \<longleftrightarrow> w \<and> q_in s = [])
   \<and> (\<forall>r. Update (OnMessage d) mx w s = Some r \<longrightarrow>
        r = process (OnMessage d) (take mx (q_in s)) (drop mx (q_in s)) s
        \<and> (\<forall>s'. r = Inr s' \<longrightarrow> q_in s' = drop mx (q_in s)))"
proof (intro conjI allI impI)
  show "Update (OnMessage d) mx w s = None \<longleftrightarrow> w \<and> q_in s = []"
    by (simp add: Update_def)
next
  fix r assume "Update (OnMessage d) mx w s = Some r"
  from om.Update_spec [OF this]
  show "r = process (OnMessage d) (take mx (q_in s)) (drop mx (q_in s)) s"
    and "\<And>s'. r = Inr s' \<Longrightarrow> q_in s' = drop mx (q_in s)" by blast+
qed

lemma Update_in_order_example:
  "\<exists>r. Update (OnMessage 1) 5 True (sample_server True) = Some r
    \<and> r = process (OnMessage 1) [\<lparr>remote = Some 0, omsg = message_of StartGame\<rparr>] [] (sample_server True)"
  using Update_in_order [of 1 5 True "sample_server True"] by (auto simp: sample_server_fields)

end
