(* ===== verification/Server_Grid.thy ===== *)
theory Server_Grid
  imports Server_Disconnect
begin

text \<open>
  Free cells and powerups on the server: \<open>GetFreeGrid\<close> lists exactly the free cells of the
  40 x 30 grid, \<open>GeneratePowerup\<close> puts a powerup on one of them, and what happens when a
  position lies outside the grid or no cell is free.
\<close>

section \<open>Cells\<close>

definition pos_ok :: "position \<Rightarrow> bool" where
  "pos_ok p \<longleftrightarrow> 0 \<le> sint (pos_x p) \<and> sint (pos_x p) < int GRIDWIDTH
     \<and> 0 \<le> sint (pos_y p) \<and> sint (pos_y p) < int GRIDHEIGHT"

abbreviation pos_of :: "cint \<times> cint \<Rightarrow> position" where
  "pos_of c \<equiv> Pos (fst c) (snd c)"

definition occupied :: "server \<Rightarrow> (cint \<times> cint) set" where
  "occupied s = set (tail_cells s) \<union> set (powerup_cells s)"

definition all_cells :: "position list" where
  "all_cells = concat (map (\<lambda>x. map (\<lambda>y. cell x y) [0..<GRIDHEIGHT]) [0..<GRIDWIDTH])"

lemma sint_of_small_nat: "n < 2 ^ 30 \<Longrightarrow> sint (word_of_nat n :: cint) = int n"
  using sint_word_small [of "int n"] by simp

lemma cell_coords:
  "x < GRIDWIDTH \<Longrightarrow> sint (pos_x (cell x y)) = int x"
  "y < GRIDHEIGHT \<Longrightarrow> sint (pos_y (cell x y)) = int y"
  by (simp_all add: cell_def grid_dims sint_of_small_nat)

lemma cell_of_pos: "pos_ok p \<Longrightarrow> cell (nat (sint (pos_x p))) (nat (sint (pos_y p))) = p"
  by (cases p) (simp add: pos_ok_def cell_def)

lemma pos_ok_cell: "x < GRIDWIDTH \<Longrightarrow> y < GRIDHEIGHT \<Longrightarrow> pos_ok (cell x y)"
  by (simp add: pos_ok_def cell_coords)

lemma cell_inj:
  assumes "cell x y = cell x' y'" "x < GRIDWIDTH" "x' < GRIDWIDTH" "y < GRIDHEIGHT" "y' < GRIDHEIGHT"
  shows "x = x' \<and> y = y'"
  using assms by (metis cell_coords of_nat_eq_iff)

lemma set_all_cells: "set all_cells = {p. pos_ok p}"
proof (intro set_eqI iffI)
  fix p assume "p \<in> set all_cells"
  then show "p \<in> {p. pos_ok p}" by (auto simp: all_cells_def pos_ok_cell)
next
  fix p assume "p \<in> {p. pos_ok p}"
  then have ok: "pos_ok p" by simp
  then have "nat (sint (pos_x p)) < GRIDWIDTH" "nat (sint (pos_y p)) < GRIDHEIGHT"
    by (simp_all add: pos_ok_def nat_less_iff)
  with cell_of_pos [OF ok, symmetric] show "p \<in> set all_cells"
    unfolding all_cells_def by force
qed

lemma distinct_concat_cells:
  assumes "distinct xs" "\<forall>x\<in>set xs. x < GRIDWIDTH"
  shows "distinct (concat (map (\<lambda>x. map (\<lambda>y. cell x y) [0..<GRIDHEIGHT]) xs))"
  using assms
proof (induction xs)
  case (Cons x xs)
  have "inj_on (\<lambda>y. cell x y) {0..<GRIDHEIGHT}"
    using Cons.prems by (auto intro!: inj_onI dest: cell_inj)
  with Cons show ?case by (auto simp: distinct_map dest!: cell_inj)
qed simp

lemma distinct_all_cells: "distinct all_cells"
  unfolding all_cells_def by (rule distinct_concat_cells) simp_all

lemma length_all_cells: "length all_cells = 1200"
  by (simp add: all_cells_def length_concat o_def grid_dims sum_list_triv)

lemma card_pos_ok: "card {p. pos_ok p} = 1200"
  using distinct_card [OF distinct_all_cells] by (simp add: set_all_cells length_all_cells)

lemma finite_pos_ok: "finite {p. pos_ok p}"
  by (metis List.finite_set set_all_cells)

section \<open>Marking\<close>

definition cell_at :: "nat \<Rightarrow> nat \<Rightarrow> cint \<times> cint \<Rightarrow> bool" where
  "cell_at x y c \<longleftrightarrow> x = nat (sint (fst c)) \<and> y = nat (sint (snd c))"

lemma mark_all_ok:
  "\<forall>c\<in>set cs. pos_ok (pos_of c) \<Longrightarrow>
    mark_all cs a = Inr (\<lambda>x y. if \<exists>c\<in>set cs. cell_at x y c then 1 else a x y)"
proof (induction cs arbitrary: a)
  case (Cons c cs)
  have "mark_cell c a = Inr (\<lambda>x y. if cell_at x y c then 1 else a x y)"
    using Cons.prems by (cases c) (auto simp: mark_cell_def pos_ok_def cell_at_def fun_eq_iff)
  with Cons show ?case by (auto simp: fun_eq_iff)
qed simp

lemma mark_all_bad: "\<exists>c\<in>set cs. \<not> pos_ok (pos_of c) \<Longrightarrow> mark_all cs a = Inl Index_Error"
proof (induction cs arbitrary: a)
  case (Cons c cs)
  then show ?case
    by (cases c) (auto simp: mark_cell_def pos_ok_def ebind_def split: sum.splits)
qed simp

lemma cell_at_cell: "pos_ok (pos_of c) \<Longrightarrow> x < GRIDWIDTH \<Longrightarrow> y < GRIDHEIGHT \<Longrightarrow>
    cell_at x y c \<longleftrightarrow> cell x y = pos_of c"
proof
  assume "pos_ok (pos_of c)" "cell_at x y c"
  then show "cell x y = pos_of c"
    using cell_of_pos [of "pos_of c"] by (simp add: cell_at_def)
next
  assume "x < GRIDWIDTH" "y < GRIDHEIGHT" "cell x y = pos_of c"
  then show "cell_at x y c"
    using cell_coords(1) [of x y] cell_coords(2) [of y x] by (simp add: cell_at_def)
qed

lemma concat_map_if: "concat (map (\<lambda>y. if P y then [f y] else []) ys) = map f (filter P ys)"
  by (induction ys) auto

lemma concat_map_filter_cells:
  assumes "\<forall>x\<in>set xs. x < GRIDWIDTH"
    and "\<And>x y. x < GRIDWIDTH \<Longrightarrow> y < GRIDHEIGHT \<Longrightarrow> P x y \<longleftrightarrow> Q (cell x y)"
  shows "concat (map (\<lambda>x. concat (map (\<lambda>y. if P x y then [cell x y] else []) [0..<GRIDHEIGHT])) xs)
    = filter Q (concat (map (\<lambda>x. map (\<lambda>y. cell x y) [0..<GRIDHEIGHT]) xs))"
  using assms(1)
proof (induction xs)
  case (Cons x xs)
  have "filter (\<lambda>y. P x y) [0..<GRIDHEIGHT] = filter (\<lambda>y. Q (cell x y)) [0..<GRIDHEIGHT]"
    using Cons.prems assms(2) by (intro filter_cong) auto
  with Cons show ?case by (simp add: concat_map_if filter_map o_def)
qed simp

definition cells_ok :: "server \<Rightarrow> bool" where
  "cells_ok s \<longleftrightarrow> (\<forall>c\<in>occupied s. pos_ok (pos_of c))"

definition is_free :: "server \<Rightarrow> position \<Rightarrow> bool" where
  "is_free s p \<longleftrightarrow> (pos_x p, pos_y p) \<notin> occupied s"

lemma GetFreeGrid_eq:
  assumes "cells_ok s"
  shows "GetFreeGrid s = Inr (filter (is_free s) all_cells)"
proof -
  let ?a = "\<lambda>x y. if \<exists>c\<in>occupied s. cell_at x y c then 1 else (0 :: nat)"
  have "mark_all (tail_cells s) (\<lambda>_ _. 0)
      = Inr (\<lambda>x y. if \<exists>c\<in>set (tail_cells s). cell_at x y c then 1 else 0)"
    using assms by (intro mark_all_ok) (auto simp: cells_ok_def occupied_def)
  moreover have "mark_all (powerup_cells s)
      (\<lambda>x y. if \<exists>c\<in>set (tail_cells s). cell_at x y c then 1 else 0) = Inr ?a"
    using assms by (subst mark_all_ok) (auto simp: cells_ok_def occupied_def fun_eq_iff)
  ultimately have "GetFreeGrid s = Inr (concat (map (\<lambda>x. concat (map (\<lambda>y.
      if ?a x y = 0 then [cell x y] else []) [0..<GRIDHEIGHT])) [0..<GRIDWIDTH]))"
    by (simp add: GetFreeGrid_def)
  moreover have "(?a x y = 0) \<longleftrightarrow> is_free s (cell x y)" if "x < GRIDWIDTH" "y < GRIDHEIGHT" for x y
    using assms that
    by (auto simp: is_free_def cells_ok_def cell_at_cell)
  ultimately show ?thesis
    unfolding all_cells_def by (subst (asm) concat_map_filter_cells) auto
qed

lemma GetFreeGrid_bad:
  assumes "\<not> cells_ok s"
  shows "GetFreeGrid s = Inl Index_Error"
proof (cases "\<exists>c\<in>set (tail_cells s). \<not> pos_ok (pos_of c)")
  case True
  then show ?thesis by (simp add: GetFreeGrid_def mark_all_bad)
next
  case False
  with assms have "\<exists>c\<in>set (powerup_cells s). \<not> pos_ok (pos_of c)"
    by (auto simp: cells_ok_def occupied_def)
  with False show ?thesis
    by (simp add: GetFreeGrid_def mark_all_ok mark_all_bad)
qed

lemma length_free:
  assumes "cells_ok s"
  shows "length (filter (is_free s) all_cells) = 1200 - card (occupied s)"
proof -
  let ?O = "pos_of ` occupied s"
  have fin: "finite (occupied s)" by (simp add: occupied_def)
  have "card ?O = card (occupied s)"
    by (rule card_image) (auto simp: inj_on_def prod_eq_iff)
  moreover have "set (filter (is_free s) all_cells) = {p. pos_ok p} - ?O"
    by (force simp: set_all_cells is_free_def)
  moreover have "?O \<subseteq> {p. pos_ok p}" using assms by (auto simp: cells_ok_def)
  ultimately show ?thesis
    using distinct_card [of "filter (is_free s) all_cells"] distinct_all_cells
      card_Diff_subset [of ?O "{p. pos_ok p}"] fin
    by (simp add: card_pos_ok)
qed

lemma occupied_sample: "occupied (sample_server b) = {(5, 5), (6, 6), (3, 3)}"
  by (auto simp: occupied_def tail_cells_def powerup_cells_def sample_server_fields sample_pd_def)

lemma sample_cells: "cells_ok (sample_server b)" "card (occupied (sample_server b)) = 3"
  by (simp_all add: cells_ok_def occupied_sample pos_ok_def grid_dims)

section \<open>Properties\<close>

text \<open>C17: \<open>GetFreeGrid\<close> returns each free cell of the grid exactly once and no other position, in
  total 1200 minus the number of distinct occupied cells, if all snakes and powerups are on the
  grid; if some position is outside, it accesses \<open>freeGridArray\<close> out of bounds.\<close>

theorem GetFreeGrid_exact:
  "if cells_ok s
   then \<exists>fs. GetFreeGrid s = Inr fs \<and> distinct fs \<and> set fs = {p. pos_ok p \<and> is_free s p}
      \<and> length fs = 1200 - card (occupied s)
   else GetFreeGrid s = Inl Index_Error"
  using distinct_all_cells
  by (auto simp: GetFreeGrid_eq GetFreeGrid_bad length_free set_all_cells)

definition powerup_pos :: "powerup_data \<Rightarrow> position" where
  "powerup_pos w = Pos (pw_x w) (pw_y w)"

lemma occupied_add_powerup:
  "occupied (s\<lparr>rng := r, powerups := powerups s @ [w]\<rparr>) = insert (pw_x w, pw_y w) (occupied s)"
  by (auto simp: occupied_def tail_cells_def powerup_cells_def)

lemma occupied_bcast [simp]: "occupied (bcast m P s) = occupied s"
  by (simp add: occupied_def tail_cells_def powerup_cells_def bcast_def)

lemma broadcast_up:
  "conns_ok s \<Longrightarrow> all_up s ign \<Longrightarrow> broadcast d m ign s = Inr (bcast m (\<lambda>p. linked s p \<and> Some p \<noteq> ign) s)"
  unfolding broadcast_def by (rule MessageAllClients_up)

definition powerup_message :: "powerup_data \<Rightarrow> message" where
  "powerup_message w = put enc_powerup w (message_of NewPowerup)"

lemma GeneratePowerup_up:
  assumes "conns_ok s" "all_up s None" "cells_ok s" "card (occupied s) < 1200"
  obtains w where "GeneratePowerup d s = Inr (bcast (powerup_message w) (linked s)
      (s\<lparr>rng := stl (rng s), powerups := powerups s @ [w]\<rparr>))"
    "pos_ok (powerup_pos w)" "is_free s (powerup_pos w)"
proof -
  let ?fs = "filter (is_free s) all_cells"
  let ?p = "?fs ! (shd (rng s) mod length ?fs)"
  let ?w = "PowerupData (pos_x ?p) (pos_y ?p)"
  have ne: "?fs \<noteq> []" using length_free [OF assms(3)] assms(4) by auto
  then have "?p \<in> set ?fs" by (intro nth_mem) simp
  then have "pos_ok ?p" "is_free s ?p" by (auto simp: set_all_cells)
  moreover have "powerup_pos ?w = ?p" by (simp add: powerup_pos_def)
  moreover have "GeneratePowerup d s = Inr (bcast (powerup_message ?w) (linked s)
      (s\<lparr>rng := stl (rng s), powerups := powerups s @ [?w]\<rparr>))"
    using ne assms(1,2)
    by (simp add: GeneratePowerup_def GetFreeGrid_eq [OF assms(3)] powerup_message_def Let_def
        broadcast_up)
  ultimately show thesis using that [of ?w] by simp
qed

lemma cells_ok_add_powerup:
  "cells_ok s \<Longrightarrow> pos_ok (powerup_pos w) \<Longrightarrow>
    cells_ok (s\<lparr>rng := r, powerups := powerups s @ [w]\<rparr>)"
  by (simp add: cells_ok_def occupied_add_powerup powerup_pos_def)

text \<open>With every connection up and a free cell left, \<open>GeneratePowerup\<close> adds one powerup at
  the end of the list, on a cell of the grid on which there was neither a snake nor a powerup,
  and sends it to every connection, changing nothing else but the random source.\<close>

lemma GeneratePowerup_spec:
  assumes "conns_ok s" "all_up s None" "cells_ok s" "card (occupied s) < 1200"
  shows "\<exists>w s'. GeneratePowerup d s = Inr s' \<and> powerups s' = powerups s @ [w]
    \<and> pos_ok (powerup_pos w) \<and> is_free s (powerup_pos w) \<and> cells_ok s'
    \<and> players s' = players s \<and> deq_conns s' = deq_conns s
    \<and> (\<forall>p. tasks (heap s' p) = tasks (heap s p)
        @ (if linked s p then [T_Send (put enc_powerup w (message_of NewPowerup))] else []))"
proof -
  obtain w where w: "GeneratePowerup d s = Inr (bcast (powerup_message w) (linked s)
      (s\<lparr>rng := stl (rng s), powerups := powerups s @ [w]\<rparr>))" (is "_ = Inr ?s'")
    "pos_ok (powerup_pos w)" "is_free s (powerup_pos w)"
    using GeneratePowerup_up [OF assms] by blast
  have "cells_ok ?s'"
    using cells_ok_add_powerup [OF assms(3) w(2)] by (simp add: cells_ok_def)
  moreover have "powerups ?s' = powerups s @ [w]" "players ?s' = players s"
    by (simp_all add: bcast_def)
  moreover have "tasks (heap ?s' p) = tasks (heap s p)
      @ (if linked s p then [T_Send (put enc_powerup w (message_of NewPowerup))] else [])" for p
    by (simp add: heap_bcast Send_def powerup_message_def)
  ultimately show ?thesis using w by (intro exI [where x = w] exI [where x = ?s']) simp
qed

lemma GeneratePowerup_spec_example:
  "\<exists>w s'. GeneratePowerup 0 (sample_server True) = Inr s' \<and> powerups s' = [PowerupData 3 3, w]
    \<and> pos_ok (powerup_pos w) \<and> is_free (sample_server True) (powerup_pos w)
    \<and> tasks (heap s' 1) = [T_Send (put enc_powerup w (message_of NewPowerup))]"
  using GeneratePowerup_spec [OF sample_server_up(3,4) sample_cells(1), of 0]
  by (auto simp: sample_cells sample_server_fields sample_server_up)

text \<open>When a snake piece or powerup lies outside the grid, generating a powerup is an access
  out of bounds; when every cell is occupied, it is \<open>uniform_int_distribution(0, -1)\<close>, which
  is undefined too. The server checks neither.\<close>

lemma GeneratePowerup_undefined:
  assumes "\<not> cells_ok s \<or> card (occupied s) = 1200"
  shows "GeneratePowerup d s = Inl (if cells_ok s then Bad_Range else Index_Error)"
proof (cases "cells_ok s")
  case True
  with assms have "filter (is_free s) all_cells = []"
    using length_free [OF True] by simp
  with True show ?thesis by (simp add: GeneratePowerup_def GetFreeGrid_eq)
next
  case False
  then show ?thesis by (simp add: GeneratePowerup_def GetFreeGrid_bad)
qed

lemma GeneratePowerup_undefined_example:
  "GeneratePowerup 0 ((sample_server True)\<lparr>powerups := [PowerupData (-1) 0]\<rparr>) = Inl Index_Error"
proof -
  have "\<not> cells_ok ((sample_server True)\<lparr>powerups := [PowerupData (-1) 0]\<rparr>)"
    by (simp add: cells_ok_def occupied_def powerup_cells_def pos_ok_def)
  with GeneratePowerup_undefined [of _ 0] show ?thesis by simp
qed

end
