(* ===== verification/Server_Game.thy ===== *)
theory Server_Game
  imports Server_Messages
begin

text \<open>
  The life of a game at the server: construction, approval and validation of clients, the
  invariant that well-formed messages keep, powerups that are eaten, and the situations in
  which the server fails.
\<close>

section \<open>Construction and approval\<close>

text \<open>The server starts with a grid of all 1200 cells, each once, and twelve spawn points, all
  on the grid; taken from the back, as \<open>OnClientValidated\<close> does, the first six are distinct,
  but the last six are all (0, 0), left by \<open>std::vector<Position>(6)\<close> in front of the six that
  are added.\<close>

lemma new_server_spawnpoints:
  "set (sgrid (new_server r)) = {p. pos_ok p} \<and> distinct (sgrid (new_server r))
   \<and> set (spawnpoints (new_server r)) \<subseteq> {p. pos_ok p}
   \<and> (\<exists>six. rev (spawnpoints (new_server r)) = six @ replicate 6 (Pos 0 0)
        \<and> length six = 6 \<and> distinct six \<and> Pos 0 0 \<notin> set six)"
proof -
  have g: "sgrid (new_server r) = all_cells"
    by (simp add: new_server_def GenerateGrid_def GenerateSpawnpoints_def all_cells_def)
  have sp: "spawnpoints (new_server r) = replicate 6 (Pos 0 0)
      @ [cell 10 10, cell 20 10, cell 30 10, cell 10 20, cell 20 20, cell 30 20]"
    by (simp add: new_server_def GenerateSpawnpoints_def grid_dims)
  have ok: "pos_ok (Pos 0 0)" "pos_ok (cell 10 10)" "pos_ok (cell 20 10)" "pos_ok (cell 30 10)"
    "pos_ok (cell 10 20)" "pos_ok (cell 20 20)" "pos_ok (cell 30 20)"
    by (simp_all add: pos_ok_cell grid_dims) (simp add: pos_ok_def grid_dims)
  have "set (spawnpoints (new_server r)) \<subseteq> {p. pos_ok p}"
    using ok by (simp add: sp)
  moreover have "rev (spawnpoints (new_server r))
      = [cell 30 20, cell 20 20, cell 10 20, cell 30 10, cell 20 10, cell 10 10]
        @ replicate 6 (Pos 0 0)"
    by (simp add: sp)
  moreover have "distinct [cell 30 20, cell 20 20, cell 10 20, cell 30 10, cell 20 10, cell 10 10]"
    "Pos 0 0 \<notin> set [cell 30 20, cell 20 20, cell 10 20, cell 30 10, cell 20 10, cell 10 10]"
    by (simp_all add: cell_def)
  ultimately show ?thesis
    using set_all_cells distinct_all_cells g
    by (intro conjI exI [where x = "[cell 30 20, cell 20 20, cell 10 20, cell 30 10, cell 20 10, cell 10 10]"]) simp_all
qed

text \<open>A new connection is approved exactly while the game has not started and a spawn point is
  left; a started game refuses everybody.\<close>

lemma OnClientConnect_iff:
  "OnClientConnect True p s = Inr (spawnpoints s \<noteq> [] \<and> \<not> game_started s)"
  by (simp add: OnClientConnect_def)

section \<open>Validation of a client\<close>

text \<open>The invariant of the running game.\<close>

definition game_ok :: "server \<Rightarrow> bool" where
  "game_ok s \<longleftrightarrow> conns_ok s \<and> all_up s None \<and> cells_ok s \<and> distinct (map fst (players s))"

text \<open>\<open>s'\<close> is \<open>s\<close> with the powerups \<open>ws\<close> added and announced.\<close>

definition adds_powerups :: "powerup_data list \<Rightarrow> server \<Rightarrow> server \<Rightarrow> bool" where
  "adds_powerups ws s s' \<longleftrightarrow> powerups s' = powerups s @ ws \<and> players s' = players s
     \<and> spawnpoints s' = spawnpoints s \<and> game_started s' = game_started s
     \<and> deq_conns s' = deq_conns s \<and> q_in s' = q_in s
     \<and> (\<forall>p. tasks (heap s' p) = tasks (heap s p)
          @ (if linked s p then map (\<lambda>w. T_Send (powerup_message w)) ws else []))"

lemma adds_powerups_refl: "adds_powerups [] s s"
  by (simp add: adds_powerups_def)

lemma adds_powerups_trans:
  "adds_powerups ws s t \<Longrightarrow> adds_powerups vs t u \<Longrightarrow> adds_powerups (ws @ vs) s u"
  by (simp add: adds_powerups_def linked_def)

lemma finite_occupied: "finite (occupied s)"
  by (simp add: occupied_def)

lemma Pos_eta [simp]: "Pos (pos_x p) (pos_y p) = p"
  by (cases p) simp

lemma GeneratePowerup_adds:
  assumes "conns_ok s" "all_up s None" "cells_ok s" "card (occupied s) < 1200"
  shows "\<exists>w s'. GeneratePowerup d s = Inr s' \<and> adds_powerups [w] s s' \<and> is_free s (powerup_pos w)
    \<and> conns_ok s' \<and> all_up s' None \<and> cells_ok s' \<and> card (occupied s') = Suc (card (occupied s))"
proof -
  obtain w where w: "GeneratePowerup d s = Inr (bcast (powerup_message w) (linked s)
      (s\<lparr>rng := stl (rng s), powerups := powerups s @ [w]\<rparr>))" (is "_ = Inr ?s'")
    "pos_ok (powerup_pos w)" "is_free s (powerup_pos w)"
    using GeneratePowerup_up [OF assms] by blast
  have "adds_powerups [w] s ?s'"
    by (simp add: adds_powerups_def heap_bcast Send_def) (simp add: bcast_def)
  moreover have "cells_ok ?s'"
    using cells_ok_add_powerup [OF assms(3) w(2)] by (simp add: cells_ok_def)
  moreover have "card (occupied ?s') = Suc (card (occupied s))"
    using w(3) by (simp add: occupied_add_powerup is_free_def powerup_pos_def finite_occupied)
  ultimately show ?thesis using w assms by (intro exI [where x = w] exI [where x = ?s']) simp
qed

lemma generate_powerups_adds:
  assumes "conns_ok s" "all_up s None" "cells_ok s"
    and "card (occupied s) + (n - length (powerups s)) \<le> 1200"
  shows "\<exists>ws s'. generate_powerups d n s = Inr s' \<and> adds_powerups ws s s'
    \<and> length ws = n - length (powerups s) \<and> conns_ok s' \<and> all_up s' None \<and> cells_ok s'"
  using assms
proof (induction "n - length (powerups s)" arbitrary: s)
  case 0
  then have "generate_powerups d n s = Inr s" by (subst generate_powerups.simps) simp
  with 0 show ?case by (intro exI [where x = "[]"] exI [where x = s]) (simp add: adds_powerups_refl)
next
  case (Suc k)
  then have lt: "length (powerups s) < n" "card (occupied s) < 1200" by simp_all
  obtain w s1 where s1:
    "GeneratePowerup d s = Inr s1" "adds_powerups [w] s s1" "conns_ok s1" "all_up s1 None"
    "cells_ok s1" "card (occupied s1) = Suc (card (occupied s))"
    using GeneratePowerup_adds [OF Suc.prems(1-3) lt(2), of d] by blast
  have len: "length (powerups s1) = Suc (length (powerups s))"
    using s1(2) by (simp add: adds_powerups_def)
  have "k = n - length (powerups s1)" using Suc.hyps(2) len by simp
  moreover have "card (occupied s1) + (n - length (powerups s1)) \<le> 1200"
    using Suc.prems(4) len s1(6) lt by simp
  ultimately obtain ws s' where s': "generate_powerups d n s1 = Inr s'" "adds_powerups ws s1 s'"
    "length ws = n - length (powerups s1)" "conns_ok s'" "all_up s' None" "cells_ok s'"
    using Suc.hyps(1) [of s1] s1 by blast
  have "generate_powerups d n s = Inr s'"
    using lt s1(1) s'(1) by (subst generate_powerups.simps) simp
  moreover have "adds_powerups ([w] @ ws) s s'"
    using s1(2) s'(2) by (rule adds_powerups_trans)
  moreover have "length ([w] @ ws) = n - length (powerups s)"
    using s'(3) len lt by simp
  ultimately show ?case using s'(4-6) by blast
qed

lemma set_alist_update: "set (AList.update k v al) \<subseteq> insert (k, v) (set al)"
  by (induction al) auto

lemma keys_alist_update: "map fst (AList.update k v al) =
    (if k \<in> fst ` set al then map fst al else map fst al @ [k])"
  by (induction al) auto

lemma cells_ok_players:
  assumes "cells_ok s" "\<forall>p\<in>set (pd_tail pl). pos_ok p"
  shows "cells_ok (s\<lparr>players := AList.update i pl (players s)\<rparr>)"
proof -
  have "\<forall>x\<in>set (AList.update i pl (players s)). \<forall>p\<in>set (pd_tail (snd x)). pos_ok p"
  proof
    fix x assume "x \<in> set (AList.update i pl (players s))"
    then have "x = (i, pl) \<or> x \<in> set (players s)" using set_alist_update by fastforce
    then show "\<forall>p\<in>set (pd_tail (snd x)). pos_ok p"
    proof
      assume x: "x \<in> set (players s)"
      show ?thesis
      proof
        fix p assume "p \<in> set (pd_tail (snd x))"
        with x have "(pos_x p, pos_y p) \<in> occupied s"
          by (auto simp: occupied_def tail_cells_def)
        then have "pos_ok (pos_of (pos_x p, pos_y p))"
          using assms(1) unfolding cells_ok_def by blast
        then show "pos_ok p" by simp
      qed
    qed (simp add: assms(2))
  qed
  moreover have "\<forall>c\<in>set (powerup_cells s). pos_ok (pos_of c)"
    using assms(1) by (simp add: cells_ok_def occupied_def)
  ultimately show ?thesis
    by (auto simp: cells_ok_def occupied_def tail_cells_def powerup_cells_def)
qed

lemma cells_ok_cong:
  "players s = players t \<Longrightarrow> powerups s = powerups t \<Longrightarrow> cells_ok s = cells_ok t"
  by (simp add: cells_ok_def occupied_def tail_cells_def powerup_cells_def)

lemma send_to_bcast: "send_to p m s = bcast m (\<lambda>q. q = p) s"
  by (auto simp: send_to_def set_conn_def bcast_def fun_eq_iff)

text \<open>The state right after the new player has been announced.\<close>

definition announced :: "u32 \<Rightarrow> nat \<Rightarrow> position \<Rightarrow> server \<Rightarrow> server" where
  "announced col p spawn s =
     (let cid = conn_id (heap s p);
          pl = \<lparr>pd_direction = Up, pd_tail = [spawn], pd_color = col\<rparr>;
          s2 = s\<lparr>spawnpoints := butlast (spawnpoints s), players := AList.update cid pl (players s)\<rparr>
      in bcast (newcomer_message pl cid) (\<lambda>q. linked s q \<and> q \<noteq> p)
           (bcast (state_message s2 cid) (\<lambda>q. q = p) s2))"

lemma OnClientValidated_up:
  assumes "conns_ok s" "all_up s None" "spawnpoints s = sps @ [spawn]"
  shows "OnClientValidated d col p s = generate_powerups d
    (powerup_count (length (players (announced col p spawn s)))) (announced col p spawn s)"
proof -
  let ?pl = "\<lparr>pd_direction = Up, pd_tail = [spawn], pd_color = col\<rparr>"
  let ?cid = "conn_id (heap s p)"
  let ?s2 = "s\<lparr>spawnpoints := sps, players := AList.update ?cid ?pl (players s)\<rparr>"
  have "all_up (bcast (state_message ?s2 ?cid) (\<lambda>q. q = p) ?s2) (Some p)"
    using assms(1,2) by (simp add: all_up_ignore)
  then have "broadcast d (newcomer_message ?pl ?cid) (Some p) (bcast (state_message ?s2 ?cid) (\<lambda>q. q = p) ?s2)
      = Inr (announced col p spawn s)"
    using assms by (subst broadcast_up) (simp_all add: announced_def Let_def)
  then show ?thesis
    using assms(3) by (simp add: OnClientValidated_def GetID_def send_to_bcast Let_def)
qed

lemma announced_simps [simp]:
  "players (announced col p spawn s) = AList.update (conn_id (heap s p))
     \<lparr>pd_direction = Up, pd_tail = [spawn], pd_color = col\<rparr> (players s)"
  "powerups (announced col p spawn s) = powerups s"
  "spawnpoints (announced col p spawn s) = butlast (spawnpoints s)"
  "deq_conns (announced col p spawn s) = deq_conns s"
  "conns_ok (announced col p spawn s) = conns_ok s"
  "all_up (announced col p spawn s) = all_up s"
  "linked (announced col p spawn s) = linked s"
  by (simp_all add: announced_def Let_def) (simp_all add: bcast_def)

lemma tasks_announced:
  "linked s q \<Longrightarrow> tasks (heap (announced col p spawn s) q) = tasks (heap s q) @ [T_Send
     (if q = p then state_message (s\<lparr>spawnpoints := butlast (spawnpoints s),
          players := players (announced col p spawn s)\<rparr>) (conn_id (heap s p))
      else newcomer_message \<lparr>pd_direction = Up, pd_tail = [spawn], pd_color = col\<rparr>
          (conn_id (heap s p)))]"
  unfolding announced_simps by (simp add: announced_def Let_def heap_bcast Send_def)

lemma powerup_count_le: "powerup_count n \<le> n div 2 + 1"
  by (cases "even n") (auto simp: powerup_count_def mod_2_eq_odd)

lemma cells_ok_announced:
  assumes "cells_ok s" "pos_ok spawn"
  shows "cells_ok (announced col p spawn s)"
proof -
  have "cells_ok (s\<lparr>players := players (announced col p spawn s)\<rparr>)"
    using assms by (simp add: cells_ok_players)
  then show ?thesis
    by (subst cells_ok_cong [of _ "s\<lparr>players := players (announced col p spawn s)\<rparr>"]) simp_all
qed

lemma card_occupied_announced:
  "card (occupied (announced col p spawn s)) \<le> Suc (card (occupied s))"
proof -
  have "occupied (announced col p spawn s) \<subseteq> insert (pos_x spawn, pos_y spawn) (occupied s)"
    using set_alist_update
    by (fastforce simp: occupied_def tail_cells_def powerup_cells_def)
  then have "card (occupied (announced col p spawn s))
      \<le> card (insert (pos_x spawn, pos_y spawn) (occupied s))"
    by (intro card_mono) (simp_all add: occupied_def)
  also have "\<dots> \<le> Suc (card (occupied s))"
    by (simp add: card_insert_if occupied_def)
  finally show ?thesis .
qed

lemma sample_game_ok: "game_ok (sample_server True)"
  by (simp add: game_ok_def sample_server_up sample_cells sample_server_fields)

text \<open>The validation of a client in a well-formed game.\<close>

lemma OnClientValidated_result:
  assumes "game_ok s" "spawnpoints s = sps @ [spawn]" "pos_ok spawn"
    and "card (occupied s) + length (players s) < 1199"
  shows "\<exists>s' ws. OnClientValidated d col p s = Inr s' \<and> spawnpoints s' = sps
    \<and> players s' = AList.update (conn_id (heap s p))
         \<lparr>pd_direction = Up, pd_tail = [spawn], pd_color = col\<rparr> (players s)
    \<and> powerups s' = powerups s @ ws
    \<and> length (powerups s') = max (length (powerups s)) (powerup_count (length (players s')))
    \<and> (\<forall>q. linked s q \<longrightarrow> tasks (heap s' q) = tasks (heap s q)
         @ [T_Send (if q = p
              then state_message (s\<lparr>spawnpoints := sps, players := players s'\<rparr>) (conn_id (heap s p))
              else newcomer_message \<lparr>pd_direction = Up, pd_tail = [spawn], pd_color = col\<rparr>
                     (conn_id (heap s p)))]
         @ map (\<lambda>w. T_Send (powerup_message w)) ws)
    \<and> game_ok s'"
proof -
  let ?a = "announced col p spawn s"
  let ?n = "powerup_count (length (players ?a))"
  have ok: "conns_ok s" "all_up s None" "cells_ok s" "distinct (map fst (players s))"
    using assms(1) by (simp_all add: game_ok_def)
  have "length (players ?a) \<le> Suc (length (players s))"
    by (simp add: length_alist_update)
  then have "card (occupied ?a) + (?n - length (powerups ?a)) \<le> 1200"
    using card_occupied_announced [of col p spawn s] powerup_count_le [of "length (players ?a)"]
      assms(4) by linarith
  then obtain ws s' where s': "generate_powerups d ?n ?a = Inr s'" "adds_powerups ws ?a s'"
    "length ws = ?n - length (powerups ?a)" "conns_ok s'" "all_up s' None" "cells_ok s'"
    using generate_powerups_adds [of ?a ?n d] ok cells_ok_announced [OF ok(3) assms(3)] by auto
  have "OnClientValidated d col p s = Inr s'"
    using OnClientValidated_up [OF ok(1,2) assms(2)] s'(1) by simp
  moreover have "players s' = players ?a" "powerups s' = powerups s @ ws" "spawnpoints s' = sps"
    using s'(2) assms(2) by (simp_all add: adds_powerups_def)
  moreover have "tasks (heap s' q) = tasks (heap s q) @ [T_Send (if q = p
              then state_message (s\<lparr>spawnpoints := sps, players := players ?a\<rparr>) (conn_id (heap s p))
              else newcomer_message \<lparr>pd_direction = Up, pd_tail = [spawn], pd_color = col\<rparr>
                     (conn_id (heap s p)))]
         @ map (\<lambda>w. T_Send (powerup_message w)) ws" if "linked s q" for q
    using s'(2) that by (simp add: adds_powerups_def tasks_announced assms(2))
  moreover have "game_ok s'"
    using s' ok by (simp add: game_ok_def adds_powerups_def distinct_update)
  ultimately show ?thesis
    using s'(3) by (intro exI [where x = s'] exI [where x = ws]) simp
qed

text \<open>C7: When a client is validated in a well-formed game with room on the grid, it gets the last
  spawn point and a player of one piece heading up, it is sent the whole state (its own player
  included), everyone else the newcomer, and then powerups are added and announced to all until
  there are as many as \<open>powerup_count\<close> asks for; the game stays well-formed.\<close>

theorem OnClientValidated_spec:
  assumes "game_ok s" "spawnpoints s = sps @ [spawn]" "pos_ok spawn"
    and "card (occupied s) + length (players s) < 1199"
  shows "\<exists>s' ws. OnClientValidated d col p s = Inr s' \<and> spawnpoints s' = sps
    \<and> players s' = AList.update (conn_id (heap s p))
         \<lparr>pd_direction = Up, pd_tail = [spawn], pd_color = col\<rparr> (players s)
    \<and> powerups s' = powerups s @ ws
    \<and> length (powerups s') = max (length (powerups s)) (powerup_count (length (players s')))
    \<and> (\<forall>q. linked s q \<longrightarrow> tasks (heap s' q) = tasks (heap s q)
         @ [T_Send (if q = p
              then state_message (s\<lparr>spawnpoints := sps, players := players s'\<rparr>) (conn_id (heap s p))
              else newcomer_message \<lparr>pd_direction = Up, pd_tail = [spawn], pd_color = col\<rparr>
                     (conn_id (heap s p)))]
         @ map (\<lambda>w. T_Send (powerup_message w)) ws)
    \<and> game_ok s'"
  using assms by (rule OnClientValidated_result)

theorem OnClientValidated_spec_witness:
  "\<exists>s'. OnClientValidated 0 9 1 (sample_server True) = Inr s' \<and> spawnpoints s' = []
    \<and> map_of (players s') 10001 = Some \<lparr>pd_direction = Up, pd_tail = [Pos 10 10], pd_color = 9\<rparr>
    \<and> game_ok s'"
proof -
  have "pos_ok (Pos 10 10)" by (simp add: pos_ok_def grid_dims)
  then show ?thesis
    using OnClientValidated_spec [OF sample_game_ok, of "[]" "Pos 10 10" 0 9 1]
    by (auto simp: sample_cells sample_server_fields)
qed

section \<open>Messages of clients in a running game\<close>

definition same_powerup :: "powerup_data \<Rightarrow> powerup_data \<Rightarrow> bool" where
  "same_powerup w v \<longleftrightarrow> pw_x v = pw_x w \<and> pw_y v = pw_y w"

lemma same_powerup_fun: "same_powerup w = (\<lambda>v. pw_x v = pw_x w \<and> pw_y v = pw_y w)"
  by (simp add: same_powerup_def fun_eq_iff)

lemma erase_first_subset: "set (erase_first P xs) \<subseteq> set xs"
  by (induction xs) auto

text \<open>What \<open>DeletePowerup\<close> makes of a state in which every connection is up, by the lemma below.\<close>

definition eaten :: "powerup_data \<Rightarrow> nat \<Rightarrow> server \<Rightarrow> server" where
  "eaten w p s = bcast (put enc_powerup w (message_of PowerupEaten)) (\<lambda>q. linked s q \<and> q \<noteq> p)
     (s\<lparr>powerups := erase_first (same_powerup w) (powerups s)\<rparr>)"

lemma DeletePowerup_up:
  assumes "conns_ok s" "all_up s None"
  shows "DeletePowerup d w (Some p) s = Inr (eaten w p s)"
  using assms
  by (simp add: DeletePowerup_def Let_def broadcast_up all_up_ignore eaten_def same_powerup_fun)

lemma eaten_simps [simp]:
  "conns_ok (eaten w p s) = conns_ok s" "all_up (eaten w p s) = all_up s"
  "players (eaten w p s) = players s" "linked (eaten w p s) = linked s"
  "powerups (eaten w p s) = erase_first (same_powerup w) (powerups s)"
  "spawnpoints (eaten w p s) = spawnpoints s"
  by (simp_all add: eaten_def) (simp_all add: bcast_def)

lemma occupied_eaten: "occupied (eaten w p s) \<subseteq> occupied s"
  using erase_first_subset
  by (fastforce simp: occupied_def tail_cells_def powerup_cells_def)

lemma cells_ok_eaten: "cells_ok s \<Longrightarrow> cells_ok (eaten w p s)"
  using occupied_eaten by (fastforce simp: cells_ok_def)

lemma card_occupied_eaten: "card (occupied (eaten w p s)) \<le> card (occupied s)"
  by (rule card_mono [OF finite_occupied occupied_eaten])

lemma get_powerup: "body m = b @ enc_powerup w \<Longrightarrow> get dec_powerup 8 m = Inr (w, with_body m b)"
  by (rule pw.get_enc) simp_all

lemma on_powerup_eaten_up:
  assumes "game_ok s" "body m = b @ enc_powerup w" "card (occupied s) < 1200"
  obtains w' s' where "on_powerup_eaten d (Some p) m s = Inr s'"
    "adds_powerups [w'] (eaten w p s) s'" "is_free (eaten w p s) (powerup_pos w')" "game_ok s'"
proof -
  have ok: "conns_ok s" "all_up s None" "cells_ok s" "distinct (map fst (players s))"
    using assms(1) by (simp_all add: game_ok_def)
  have "card (occupied (eaten w p s)) < 1200"
    using card_occupied_eaten assms(3) by (rule le_less_trans)
  then obtain w' s' where s': "GeneratePowerup d (eaten w p s) = Inr s'"
    "adds_powerups [w'] (eaten w p s) s'" "is_free (eaten w p s) (powerup_pos w')"
    "conns_ok s'" "all_up s' None" "cells_ok s'"
    using GeneratePowerup_adds [of "eaten w p s" d] ok by (auto simp: cells_ok_eaten)
  have "on_powerup_eaten d (Some p) m s = Inr s'"
    using s'(1) by (simp add: on_powerup_eaten_def GetID_of_def get_powerup [OF assms(2)]
        DeletePowerup_up [OF ok(1,2)])
  moreover have "game_ok s'"
    using s' ok(4) by (simp add: game_ok_def adds_powerups_def)
  ultimately show thesis using that s' by blast
qed

lemma PowerupEaten_result:
  assumes "game_ok s" "msg_type m = PowerupEaten" "body m = b @ enc_powerup w"
    and "card (occupied s) < 1200"
  shows "\<exists>s' w' s1. OnMessage d (Some p) m s = Inr s'
    \<and> powerups s' = erase_first (same_powerup w) (powerups s) @ [w']
    \<and> length (powerups s') = length (powerups s)
        + (if \<exists>v\<in>set (powerups s). same_powerup w v then 0 else 1)
    \<and> DeletePowerup d w (Some p) s = Inr s1 \<and> is_free s1 (powerup_pos w') \<and> players s' = players s
    \<and> (\<forall>q. linked s q \<longrightarrow> tasks (heap s' q) = tasks (heap s q)
         @ (if q = p then [] else [T_Send (put enc_powerup w (message_of PowerupEaten))])
         @ [T_Send (powerup_message w')])
    \<and> game_ok s'"
proof -
  obtain w' s' where s': "on_powerup_eaten d (Some p) m s = Inr s'"
    "adds_powerups [w'] (eaten w p s) s'" "is_free (eaten w p s) (powerup_pos w')" "game_ok s'"
    using on_powerup_eaten_up [OF assms(1,3,4)] by metis
  have "length (erase_first (same_powerup w) (powerups s)) + 1 = length (powerups s)
      + (if \<exists>v\<in>set (powerups s). same_powerup w v then 0 else 1)"
    using length_pos_if_in_set [of _ "powerups s"] by (auto simp: length_erase_first Suc_le_eq)
  moreover have "tasks (heap (eaten w p s) q) = tasks (heap s q)
      @ (if q = p then [] else [T_Send (put enc_powerup w (message_of PowerupEaten))])"
    if "linked s q" for q
    using that by (simp add: eaten_def heap_bcast Send_def)
  moreover have "DeletePowerup d w (Some p) s = Inr (eaten w p s)"
    using assms(1) by (auto simp: game_ok_def intro: DeletePowerup_up)
  ultimately show ?thesis
    using s' assms(2)
    by (intro exI [where x = s'] exI [where x = w'] exI [where x = "eaten w p s"])
      (simp add: adds_powerups_def OnMessage_def)
qed

text \<open>C24: A \<open>PowerupEaten\<close> message in a well-formed game removes the first powerup on the cell it
  names, if there is one, and adds one new powerup on a cell that is free then, after
  \<open>DeletePowerup\<close>; the others are
  sent both changes in this order, the sender only the new powerup. So the number of powerups
  stays the same for a powerup that is there, and grows by one for one that is not, as
  happens when two clients report the same powerup.\<close>

theorem PowerupEaten_spec:
  assumes "game_ok s" "msg_type m = PowerupEaten" "body m = b @ enc_powerup w"
    and "card (occupied s) < 1200"
  shows "\<exists>s' w' s1. OnMessage d (Some p) m s = Inr s'
    \<and> powerups s' = erase_first (same_powerup w) (powerups s) @ [w']
    \<and> length (powerups s') = length (powerups s)
        + (if \<exists>v\<in>set (powerups s). same_powerup w v then 0 else 1)
    \<and> DeletePowerup d w (Some p) s = Inr s1 \<and> is_free s1 (powerup_pos w') \<and> players s' = players s
    \<and> (\<forall>q. linked s q \<longrightarrow> tasks (heap s' q) = tasks (heap s q)
         @ (if q = p then [] else [T_Send (put enc_powerup w (message_of PowerupEaten))])
         @ [T_Send (powerup_message w')])
    \<and> game_ok s'"
  using assms by (rule PowerupEaten_result)

theorem PowerupEaten_spec_witness:
  "\<exists>s'. OnMessage 0 (Some 0) (put enc_powerup (PowerupData 3 3) (message_of PowerupEaten))
      (sample_server True) = Inr s' \<and> length (powerups s') = 1 \<and> game_ok s'"
  using PowerupEaten_spec [OF sample_game_ok,
      of "put enc_powerup (PowerupData 3 3) (message_of PowerupEaten)" "[]" "PowerupData 3 3" 0 0]
  by (auto simp: sample_cells sample_server_fields same_powerup_def)

text \<open>The messages a correct client sends once it is validated.\<close>

definition client_message :: "server \<Rightarrow> nat \<Rightarrow> message \<Rightarrow> bool" where
  "client_message s p m \<longleftrightarrow>
     (case msg_type m of
        UpdatePlayer \<Rightarrow> conn_id (heap s p) \<in> fst ` set (players s)
          \<and> (\<exists>ps dir. body m = update_body ps dir (conn_id (heap s p)) \<and> canonical_dir dir
               \<and> ps \<noteq> [] \<and> length ps < 2 ^ 64 \<and> (\<forall>q\<in>set ps. pos_ok q))
      | PowerupEaten \<Rightarrow> (\<exists>b w. body m = b @ enc_powerup w)
      | _ \<Rightarrow> True)"

lemma game_ok_bcast [simp]: "game_ok (bcast m P s) = game_ok s"
  using cells_ok_cong [of "bcast m P s" s] by (simp add: game_ok_def) (simp add: bcast_def)

lemma PlayerCollision_ok:
  "game_ok s \<Longrightarrow> head_of s c = Inr h \<Longrightarrow> \<exists>s'. PlayerCollision d c s = Inr s' \<and> game_ok s'"
  by (subst PlayerCollision_up) (simp_all add: game_ok_def [THEN iffD1])

lemma on_update_player_ok:
  assumes "game_ok s" "client_message s p m" "msg_type m = UpdatePlayer"
  shows "\<exists>s'. on_update_player d (Some p) m s = Inr s' \<and> game_ok s'"
proof -
  let ?cid = "conn_id (heap s p)"
  obtain ps dir pl where m: "body m = update_body ps dir ?cid" "canonical_dir dir" "ps \<noteq> []"
    "length ps < 2 ^ 64" "\<forall>q\<in>set ps. pos_ok q" "map_of (players s) ?cid = Some pl"
    using assms(2,3) by (auto simp: client_message_def dest!: weak_map_of_SomeI)
  have ok: "conns_ok s" "all_up s None" "cells_ok s" "distinct (map fst (players s))"
    using assms(1) by (simp_all add: game_ok_def)
  let ?pl = "pl\<lparr>pd_direction := dir, pd_tail := ps\<rparr>"
  let ?t = "(relay m p s)\<lparr>players := AList.update ?cid ?pl (players s)\<rparr>"
  have t: "?t = bcast m (\<lambda>q. linked s q \<and> q \<noteq> p) (s\<lparr>players := AList.update ?cid ?pl (players s)\<rparr>)"
    by (simp add: relay_def bcast_def cong: if_cong)
  have "cells_ok (s\<lparr>players := AList.update ?cid ?pl (players s)\<rparr>)"
    by (rule cells_ok_players [OF ok(3)]) (simp add: m(5))
  then have okt: "game_ok ?t"
    unfolding t game_ok_bcast using ok by (simp add: game_ok_def distinct_update)
  have "head_of ?t ?cid = Inr (hd ps)"
    using m(3) by (cases ps) (simp_all add: head_of_def update_conv')
  from PlayerCollision_ok [OF okt this] obtain s' where
    "PlayerCollision d ?cid ?t = Inr s'" "game_ok s'" by blast
  with on_update_player_up [OF ok(1,2) m(6,1,2,4), of d] show ?thesis by simp
qed



text \<open>An \<open>UpdatePlayer\<close> message that is processed after its sender's player was erased throws
  \<open>std::out_of_range\<close> out of \<open>OnMessage\<close>, after it has been relayed: \<open>main\<close> does not catch it, so a
  message still queued when its sender is lost stops the server.\<close>

lemma UpdatePlayer_of_erased_player:
  assumes "conns_ok s" "all_up s None" "msg_type m = UpdatePlayer" "4 \<le> length (body m)"
    and "map_of (players s) (conn_id (heap s p)) = None"
  shows "OnMessage d (Some p) m s = Inl Out_Of_Range"
proof -
  have "\<exists>c m'. get dec_u32 4 m = Inr (c, m')"
    using assms(4) by (simp add: get_def msg_pop_def Let_def)
  moreover have "broadcast d m (Some p) s = Inr (relay m p s)"
    using assms(1,2) by (simp add: broadcast_up all_up_ignore relay_def)
  ultimately show ?thesis
    using assms(3,5)
    by (auto simp: OnMessage_def on_update_player_def GetID_of_def GetID_def relay_def heap_bcast Send_def)
qed

lemma UpdatePlayer_of_erased_player_example:
  "OnMessage 0 (Some 0) ((message_of UpdatePlayer)\<lparr>body := update_body [Pos 5 4] Up 10000\<rparr>)
     ((sample_server True)\<lparr>players := []\<rparr>) = Inl Out_Of_Range"
  by (rule UpdatePlayer_of_erased_player)
     (simp_all add: sample_server_up length_update_body)

end
