(* ===== verification/Protocol.thy ===== *)
theory Protocol
  imports Client_Main Server_Game "HOL-Library.Multiset"
begin

text \<open>
  Client and server together: what one side builds with \<open>operator<<\<close> the other takes apart with
  \<open>operator>>\<close>, message by message, and what follows for the game: a newcomer gets the server's
  state, an update reaches the server and every other client, the powerups of all agree -- and
  starting the game and killing a player do what they should not.
\<close>

section \<open>UpdatePlayer\<close>

lemma body_update_message:
  "body (update_message cid p) = update_body (tail p) (direction p) cid"
  by (simp add: update_message_def update_body_def GetDirection_def)

lemma update_message_simps [simp]:
  "msg_type (update_message cid p) = UpdatePlayer" "synced (update_message cid p)"
  by (simp_all add: update_message_def)

lemma on_update_parsed:
  assumes "body m = update_body ps dir cid" "canonical_dir dir" "length ps < 2 ^ 64"
  shows "on_update m c = Inr (set_player cid ((player_at cid c)\<lparr>direction := dir, tail := ps\<rparr>) c)"
proof -
  obtain m1 m2 m3 m4 where "get dec_u32 4 m = Inr (cid, m1)" "get dec_dir 4 m1 = Inr (dir, m2)"
    "get dec_u64 8 m2 = Inr (word_of_nat (length ps), m3)"
    "get_front dec_pos 8 (unat (word_of_nat (length ps) :: u64)) [] m3 = Inr (ps, m4)"
    using parse_update [OF assms] by metis
  then show ?thesis by (simp add: on_update_def SetDirection_def)
qed

text \<open>C4: The update a client sends reaches the server and every other client unchanged: the server
  relays it and stores the sender's own tail and direction under its identifier before it
  tests for a collision, and a client that handles the relayed message gives that player
  exactly this tail and direction; neither changes any other player.\<close>

theorem update_reaches_everyone:
  assumes "conns_ok s" "all_up s None" "conn_id (heap s q) = cid"
    and "map_of (players s) cid = Some pl"
    and "canonical_dir (direction p)" "length (tail p) < 2 ^ 64"
  shows "(\<exists>s1. OnMessage d (Some q) (update_message cid p) s = PlayerCollision d cid s1
      \<and> map_of (players s1) cid
          = Some \<lparr>pd_direction = direction p, pd_tail = tail p, pd_color = pd_color pl\<rparr>
      \<and> (\<forall>i. i \<noteq> cid \<longrightarrow> map_of (players s1) i = map_of (players s) i)
      \<and> (\<forall>q'. heap s1 q' = (if linked s q' \<and> q' \<noteq> q then Send (update_message cid p) (heap s q')
                             else heap s q')))
    \<and> (\<exists>c'. handle_message red (update_message cid p) c = Inr c'
      \<and> player_at cid c' = (player_at cid c)\<lparr>direction := direction p, tail := tail p\<rparr>
      \<and> (\<forall>i. i \<noteq> cid \<longrightarrow> map_of (cl_players c') i = map_of (cl_players c) i))"
proof
  let ?m = "update_message cid p"
  let ?t = "(relay ?m q s)\<lparr>players := AList.update cid
    (pl\<lparr>pd_direction := direction p, pd_tail := tail p\<rparr>) (players s)\<rparr>"
  have "OnMessage d (Some q) ?m s = PlayerCollision d cid ?t"
    using on_update_player_up [of s q pl ?m "tail p" "direction p" cid d] assms
    by (simp add: OnMessage_def body_update_message)
  then show "\<exists>s1. OnMessage d (Some q) ?m s = PlayerCollision d cid s1
      \<and> map_of (players s1) cid
          = Some \<lparr>pd_direction = direction p, pd_tail = tail p, pd_color = pd_color pl\<rparr>
      \<and> (\<forall>i. i \<noteq> cid \<longrightarrow> map_of (players s1) i = map_of (players s) i)
      \<and> (\<forall>q'. heap s1 q' = (if linked s q' \<and> q' \<noteq> q then Send ?m (heap s q') else heap s q'))"
    by (intro exI [where x = ?t]) (simp add: update_conv' relay_def heap_bcast)
  show "\<exists>c'. handle_message red ?m c = Inr c'
      \<and> player_at cid c' = (player_at cid c)\<lparr>direction := direction p, tail := tail p\<rparr>
      \<and> (\<forall>i. i \<noteq> cid \<longrightarrow> map_of (cl_players c') i = map_of (cl_players c) i)"
    using on_update_parsed [of ?m "tail p" "direction p" cid c] assms(5,6)
    by (auto simp: handle_message_def body_update_message set_player_def update_conv' player_at_def)
qed

theorem update_reaches_everyone_witness:
  "(\<exists>s1. OnMessage 0 (Some 0) (update_message 10000 heading_right) (sample_server True)
        = PlayerCollision 0 10000 s1
      \<and> map_of (players s1) 10000
          = Some \<lparr>pd_direction = Right, pd_tail = [Pos 6 5, Pos 5 5], pd_color = 1\<rparr>)
    \<and> (\<exists>c'. handle_message 1 (update_message 10000 heading_right) (new_client None) = Inr c'
      \<and> tail (player_at 10000 c') = [Pos 6 5, Pos 5 5])"
proof -
  have H: "tail heading_right = [Pos 6 5, Pos 5 5]" "direction heading_right = Right"
    "pd_color (sample_pd 5) = 1"
    by (simp_all add: heading_right_def sample_pd_def)
  show ?thesis
    using update_reaches_everyone [OF sample_server_up(3,4), of 0 10000 "sample_pd 5" heading_right 0
      1 "new_client None"]
    by (auto simp: sample_server_fields H)
qed

text \<open>C26: The update of a killed player stops the server: after \<open>Kill\<close> the client reports an empty
  tail, and as soon as any other player has a piece, the collision test of the server reads
  \<open>tail[0]\<close> of the empty deque it has just stored.\<close>

theorem killed_update_crashes_server:
  assumes "conns_ok s" "all_up s None" "conn_id (heap s q) = cid"
    and "map_of (players s) cid = Some pl" "canonical_dir (direction p)"
    and "(other, pl') \<in> set (players s)" "other \<noteq> cid" "pd_tail pl' \<noteq> []"
  shows "OnMessage d (Some q) (update_message cid (Kill p)) s = Inl Empty_Access"
proof -
  let ?m = "update_message cid (Kill p)"
  let ?t = "(relay ?m q s)\<lparr>players := AList.update cid
    (pl\<lparr>pd_direction := direction p, pd_tail := []\<rparr>) (players s)\<rparr>"
  have "OnMessage d (Some q) ?m s = PlayerCollision d cid ?t"
    using on_update_player_up [of s q pl ?m "[]" "direction p" cid d] assms
    by (simp add: OnMessage_def body_update_message) (simp add: Kill_def)
  moreover have "(other, pl') \<in> set (players ?t)"
    using assms(6,7) by (simp add: alist_update_other)
  then have "PlayerCollision d cid ?t = Inl Empty_Access"
    using assms(7,8) by (intro PlayerCollision_no_head) (simp_all add: update_conv')
  ultimately show ?thesis by simp
qed

theorem killed_update_crashes_server_witness:
  "OnMessage 0 (Some 0) (update_message 10000 (Kill heading_right)) (sample_server True)
     = Inl Empty_Access"
  by (rule killed_update_crashes_server [OF sample_server_up(3,4), of 0 10000 "sample_pd 5" _
        10001 "sample_pd 6"])
     (simp_all add: sample_server_fields, simp_all add: heading_right_def sample_pd_def)

section \<open>The state for a newcomer\<close>

definition player_bytes :: "u32 \<times> player_data \<Rightarrow> byte list" where
  "player_bytes ipl = concat (map enc_pos (pd_tail (snd ipl)))
     @ enc_u64 (word_of_nat (length (pd_tail (snd ipl)))) @ enc_u32 (pd_color (snd ipl))
     @ enc_u32 (fst ipl)"

definition state_body :: "server \<Rightarrow> u32 \<Rightarrow> byte list" where
  "state_body s cid = concat (map player_bytes (players s))
     @ enc_u64 (word_of_nat (length (players s))) @ concat (map enc_powerup (powerups s))
     @ enc_u64 (word_of_nat (length (powerups s))) @ enc_u32 cid"

lemma body_players_fold:
  "body (fold (\<lambda>(i, pl) m. put enc_u32 i (put enc_u32 (pd_color pl) (AddPlayerToMsg m pl))) ps m)
    = body m @ concat (map player_bytes ps)"
  by (induction ps arbitrary: m) (auto simp: player_bytes_def AddPlayerToMsg_def)

lemma type_players_fold:
  "msg_type (fold (\<lambda>(i, pl) m. put enc_u32 i (put enc_u32 (pd_color pl) (AddPlayerToMsg m pl))) ps m)
    = msg_type m"
  by (induction ps arbitrary: m) (auto simp: AddPlayerToMsg_def)

lemma state_message_simps:
  "body (state_message s cid) = state_body s cid"
  "msg_type (state_message s cid) = ServerValidation"
  by (simp_all add: state_message_def state_body_def body_players_fold type_players_fold Let_def)

text \<open>The player a client makes of the bytes.\<close>

definition player_of :: "grid option \<Rightarrow> player_data \<Rightarrow> player" where
  "player_of g pl = (new_player g (pd_color pl))\<lparr>tail := pd_tail pl\<rparr>"

lemma read_player_parsed:
  assumes "body m = b @ player_bytes ipl" "length (pd_tail (snd ipl)) < 2 ^ 64"
  obtains m' where "read_player g m = Inr (fst ipl, player_of g (snd ipl), m')" "body m' = b"
proof -
  let ?pl = "snd ipl"
  let ?T = "concat (map enc_pos (pd_tail ?pl))"
  let ?L = "enc_u64 (word_of_nat (length (pd_tail ?pl)))"
  have 1: "get dec_u32 4 m = Inr (fst ipl, with_body m (b @ ?T @ ?L @ enc_u32 (pd_color ?pl)))"
    using assms(1) by (intro u32.get_enc) (simp_all add: player_bytes_def)
  have 2: "get dec_u32 4 (with_body m (b @ ?T @ ?L @ enc_u32 (pd_color ?pl)))
      = Inr (pd_color ?pl, with_body m (b @ ?T @ ?L))"
    by (subst u32.get_enc [where b = "b @ ?T @ ?L"]) simp_all
  have 3: "get dec_u64 8 (with_body m (b @ ?T @ ?L))
      = Inr (word_of_nat (length (pd_tail ?pl)), with_body m (b @ ?T))"
    by (subst u64.get_enc [where b = "b @ ?T"]) simp_all
  have 4: "get_front dec_pos 8 (length (pd_tail ?pl)) [] (with_body m (b @ ?T))
      = Inr (pd_tail ?pl, if pd_tail ?pl = [] then with_body m (b @ ?T) else with_body m b)"
    by (subst pos.get_front_enc [where b = b]) (simp_all add: list_all_iff)
  have "read_player g m = Inr (fst ipl, player_of g ?pl,
      if pd_tail ?pl = [] then with_body m (b @ ?T) else with_body m b)"
    using 4 assms(2)
    by (simp add: read_player_def 1 2 3 unat_size_t new_player_def player_of_def)
  then show thesis using that by (cases "pd_tail ?pl = []") simp_all
qed

lemma read_players_parsed:
  assumes "body m = b @ concat (map player_bytes ps)"
    and "\<forall>ipl\<in>set ps. length (pd_tail (snd ipl)) < 2 ^ 64"
  shows "\<exists>m'. read_players (length ps) m c = Inr (m',
      fold (\<lambda>ipl. set_player (fst ipl) (player_of (gridPointer c) (snd ipl))) (rev ps) c)"
  using assms
proof (induction ps arbitrary: m c rule: rev_induct)
  case (snoc ipl ps)
  then have "body m = (b @ concat (map player_bytes ps)) @ player_bytes ipl"
    "length (pd_tail (snd ipl)) < 2 ^ 64" by simp_all
  from read_player_parsed [OF this] obtain m1 where m1:
    "read_player (gridPointer c) m = Inr (fst ipl, player_of (gridPointer c) (snd ipl), m1)"
    "body m1 = b @ concat (map player_bytes ps)" by blast
  with snoc.IH [OF m1(2), of "set_player (fst ipl) (player_of (gridPointer c) (snd ipl)) c"] snoc.prems
  show ?case by simp
qed simp

lemma read_powerups_parsed:
  assumes "body m = b @ concat (map enc_powerup ws)"
  shows "\<exists>m'. read_powerups red (length ws) acc m = Inr (acc
      @ map (\<lambda>w. new_powerup (pw_x w) (pw_y w) red) (rev ws), m') \<and> body m' = b"
  using assms
proof (induction ws arbitrary: m acc rule: rev_induct)
  case (snoc w ws)
  have "get dec_powerup 8 m = Inr (w, with_body m (b @ concat (map enc_powerup ws)))"
    using snoc.prems by (intro pw.get_enc) simp_all
  with snoc.IH [of "with_body m (b @ concat (map enc_powerup ws))"
      "acc @ [new_powerup (pw_x w) (pw_y w) red]"] show ?case by simp
qed simp

lemma map_of_set_players:
  assumes "distinct (map fst ps)"
  shows "map_of (cl_players (fold (\<lambda>ipl. set_player (fst ipl) (f (snd ipl))) (rev ps) c)) k
    = (case map_of ps k of Some pl \<Rightarrow> Some (f pl) | None \<Rightarrow> map_of (cl_players c) k)"
  using assms
proof (induction ps)
  case (Cons ipl ps)
  then show ?case
    by (cases ipl) (auto simp: set_player_def update_conv' split: option.splits)
qed simp

lemma fold_set_players_fields:
  "clientID (fold (\<lambda>ipl. set_player (fst ipl) (f (snd ipl))) ps c) = clientID c"
  "cl_powerups (fold (\<lambda>ipl. set_player (fst ipl) (f (snd ipl))) ps c) = cl_powerups c"
  by (induction ps arbitrary: c) simp_all

text \<open>C5: A newcomer that handles the server's state message learns its identifier and gets exactly
  the server's players, with their tails and colours; of the powerups it gets every one, in
  reverse order, but in front of them as many phantom powerups at (0, 0), since the vector is
  first built with that many elements and then appended to.\<close>

theorem newcomer_gets_state:
  assumes "distinct (map fst (players s))" "length (players s) < 2 ^ 64"
    and "length (powerups s) < 2 ^ 64" "\<forall>ipl\<in>set (players s). length (pd_tail (snd ipl)) < 2 ^ 64"
  shows "\<exists>c'. handle_message red (state_message s cid) c = Inr c' \<and> clientID c' = cid
    \<and> cl_powerups c' = replicate (length (powerups s)) default_powerup
        @ map (\<lambda>w. new_powerup (pw_x w) (pw_y w) red) (rev (powerups s))
    \<and> (\<forall>k. map_of (cl_players c') k = (case map_of (players s) k of
          Some pl \<Rightarrow> Some ((new_player (gridPointer c) (pd_color pl))\<lparr>tail := pd_tail pl\<rparr>)
        | None \<Rightarrow> map_of (cl_players c) k))"
proof -
  let ?m = "state_message s cid"
  let ?P = "concat (map player_bytes (players s))"
  let ?N = "enc_u64 (word_of_nat (length (players s)))"
  let ?W = "concat (map enc_powerup (powerups s))"
  let ?K = "enc_u64 (word_of_nat (length (powerups s)))"
  let ?ws = "replicate (length (powerups s)) default_powerup
    @ map (\<lambda>w. new_powerup (pw_x w) (pw_y w) red) (rev (powerups s))"
  have 1: "get dec_u32 4 ?m = Inr (cid, with_body ?m (?P @ ?N @ ?W @ ?K))"
    by (intro u32.get_enc) (simp_all add: state_message_simps state_body_def)
  have 2: "get dec_u64 8 (with_body ?m (?P @ ?N @ ?W @ ?K))
      = Inr (word_of_nat (length (powerups s)), with_body ?m (?P @ ?N @ ?W))"
    by (subst u64.get_enc [where b = "?P @ ?N @ ?W"]) simp_all
  obtain m3 where 3: "read_powerups red (length (powerups s))
      (replicate (length (powerups s)) default_powerup) (with_body ?m (?P @ ?N @ ?W)) = Inr (?ws, m3)"
    "body m3 = ?P @ ?N"
    using read_powerups_parsed [of "with_body ?m (?P @ ?N @ ?W)" "?P @ ?N" "powerups s" red
        "replicate (length (powerups s)) default_powerup"] by auto
  have 4: "get dec_u64 8 m3 = Inr (word_of_nat (length (players s)), with_body m3 ?P)"
    using 3(2) by (intro u64.get_enc) simp_all
  let ?c = "c\<lparr>clientID := cid, cl_powerups := ?ws\<rparr>"
  let ?c' = "fold (\<lambda>ipl. set_player (fst ipl) (player_of (gridPointer c) (snd ipl)))
    (rev (players s)) ?c"
  obtain m5 where 5: "read_players (length (players s)) (with_body m3 ?P) ?c = Inr (m5, ?c')"
    using read_players_parsed [of "with_body m3 ?P" "[]" "players s" ?c] assms(4) by auto
  have "handle_message red ?m c = Inr ?c'"
    using 3(1) 5 assms(2,3)
    by (simp add: handle_message_def state_message_simps on_server_validation_def 1 2 4 unat_size_t)
  moreover have "map_of (cl_players ?c') k = (case map_of (players s) k of
          Some pl \<Rightarrow> Some ((new_player (gridPointer c) (pd_color pl))\<lparr>tail := pd_tail pl\<rparr>)
        | None \<Rightarrow> map_of (cl_players c) k)" for k
    using map_of_set_players [OF assms(1), of "player_of (gridPointer c)" ?c k]
    by (simp add: player_of_def cong: option.case_cong)
  ultimately show ?thesis
    by (intro exI [where x = ?c']) (simp add: fold_set_players_fields)
qed

theorem newcomer_gets_state_witness:
  "\<exists>c'. handle_message 1 (state_message (sample_server True) 10001) (new_client None) = Inr c'
    \<and> clientID c' = 10001 \<and> cl_powerups c' = [default_powerup, new_powerup 3 3 1]
    \<and> map_of (cl_players c') 10000 = Some ((new_player None 1)\<lparr>tail := [Pos 5 5]\<rparr>)"
  using newcomer_gets_state [of "sample_server True" 1 10001 "new_client None"]
  by (auto simp: sample_server_fields sample_pd_def new_client_def)

section \<open>Powerups\<close>

definition cl_cells :: "snake_client \<Rightarrow> (cint \<times> cint) list" where
  "cl_cells c = map (\<lambda>w. (pu_x w, pu_y w)) (cl_powerups c)"

lemma map_erase_first: "map f (erase_first (\<lambda>x. f x = y) xs) = remove1 y (map f xs)"
  by (induction xs) auto

lemma cells_erase:
  "map (\<lambda>w. (pu_x w, pu_y w)) (erase_first (\<lambda>v. pu_x v = a \<and> pu_y v = b) ws)
     = remove1 (a, b) (map (\<lambda>w. (pu_x w, pu_y w)) ws)"
  using map_erase_first [of "\<lambda>w. (pu_x w, pu_y w)" "(a, b)" ws] by simp

lemma powerup_cells_eaten:
  "powerup_cells (eaten v p s) = remove1 (pw_x v, pw_y v) (powerup_cells s)"
  using map_erase_first [of "\<lambda>w. (pw_x w, pw_y w)" "(pw_x v, pw_y v)" "powerups s"]
  by (simp add: powerup_cells_def same_powerup_fun)

lemma show_new_powerup:
  "handle_message red (powerup_message w) c
    = Inr (c\<lparr>cl_powerups := cl_powerups c @ [new_powerup (pw_x w) (pw_y w) red]\<rparr>)"
  by (simp add: handle_message_def powerup_message_def on_new_powerup_def pw.get_put)

lemma hide_powerup:
  "handle_message red (put enc_powerup w (message_of PowerupEaten)) c
    = Inr (c\<lparr>cl_powerups := erase_first (\<lambda>v. pu_x v = pw_x w \<and> pu_y v = pw_y w) (cl_powerups c)\<rparr>)"
  by (simp add: handle_message_def on_powerup_gone_def pw.get_put)

lemma cl_cells_simps [simp]:
  "cl_cells (c\<lparr>c_in := q\<rparr>) = cl_cells c" "cl_cells (C_Send m c) = cl_cells c"
  "cl_cells (set_player k p c) = cl_cells c"
  by (simp_all add: cl_cells_def)

lemma cl_cells_show:
  "cl_cells (c\<lparr>cl_powerups := cl_powerups c @ [new_powerup x y red]\<rparr>) = cl_cells c @ [(x, y)]"
  by (simp add: cl_cells_def new_powerup_def)

lemma cl_cells_hide:
  "cl_cells (c\<lparr>cl_powerups := erase_first (\<lambda>v. pu_x v = x \<and> pu_y v = y) (cl_powerups c)\<rparr>)
    = remove1 (x, y) (cl_cells c)"
  by (simp add: cl_cells_def cells_erase)

definition incoming :: "message list \<Rightarrow> owned_message queue" where
  "incoming = map (\<lambda>m. \<lparr>remote = None, omsg = m\<rparr>)"

lemma cells_after_eating:
  "\<exists>c'. HandleMessages red (c\<lparr>c_in := incoming [put enc_powerup v (message_of PowerupEaten), powerup_message w]\<rparr>)
      = Inr c' \<and> cl_cells c' = remove1 (pw_x v, pw_y v) (cl_cells c) @ [(pw_x w, pw_y w)]"
  "\<exists>c'. HandleMessages red (c\<lparr>c_in := incoming [powerup_message w]\<rparr>) = Inr c'
      \<and> cl_cells c' = cl_cells c @ [(pw_x w, pw_y w)]"
proof -
  have new: "HandleMessages red (b\<lparr>c_in := incoming [powerup_message w]\<rparr>)
      = Inr (b\<lparr>c_in := [], cl_powerups := cl_powerups b @ [new_powerup (pw_x w) (pw_y w) red]\<rparr>)" for b
    by (simp add: incoming_def HandleMessages_Cons show_new_powerup HandleMessages_Nil)
  then show "\<exists>c'. HandleMessages red (c\<lparr>c_in := incoming [powerup_message w]\<rparr>) = Inr c'
      \<and> cl_cells c' = cl_cells c @ [(pw_x w, pw_y w)]"
    by (simp add: cl_cells_def new_powerup_def)
  let ?c1 = "c\<lparr>cl_powerups := erase_first (\<lambda>u. pu_x u = pw_x v \<and> pu_y u = pw_y v) (cl_powerups c)\<rparr>"
  have "HandleMessages red (c\<lparr>c_in := incoming [put enc_powerup v (message_of PowerupEaten), powerup_message w]\<rparr>)
      = HandleMessages red (?c1\<lparr>c_in := incoming [powerup_message w]\<rparr>)"
    by (simp add: incoming_def HandleMessages_Cons hide_powerup)
  then show "\<exists>c'. HandleMessages red (c\<lparr>c_in := incoming [put enc_powerup v (message_of PowerupEaten), powerup_message w]\<rparr>)
      = Inr c' \<and> cl_cells c' = remove1 (pw_x v, pw_y v) (cl_cells c) @ [(pw_x w, pw_y w)]"
    using new [of ?c1] cl_cells_hide [where c = c and x = "pw_x v" and y = "pw_y v"] by (simp add: cl_cells_def new_powerup_def)
qed

lemma mset_take_drop: "i < length xs \<Longrightarrow> mset (take i xs @ drop (Suc i) xs) + {#xs ! i#} = mset xs"
  by (metis add_mset_add_single id_take_nth_drop mset.simps(2) mset_append union_mset_add_mset_right)

definition sample_eater :: "connection option \<Rightarrow> snake_client" where
  "sample_eater k = (new_client None)\<lparr>cl_powerups := [default_powerup, new_powerup 3 3 1], connection_ptr := k\<rparr>"

text \<open>C27: The powerups are replicated. In a well-formed game with a free cell, let clients show the
  cells of the server's powerups and, each, some phantoms of its own. When one of them, connected, eats a powerup that the server has, it sends
  the message; the server deletes the powerup, generates another and tells everyone; and when the
  clients have handled what the server sent to them, each shows the cells of the server's powerups
  again, and its phantoms as before, which therefore never go away in this exchange. The one that
  ate has removed the powerup itself, and is told of the new one only.\<close>

theorem powerups_replicated:
  assumes "game_ok s" "card (occupied s) < 1200"
    and "mset (cl_cells e) = mset (powerup_cells s) + own_phantoms"
    and "EatPowerup i e = Inr e1" "connection_ptr e = Some k" "sock_open k"
    and "w = PowerupData (pu_x (cl_powerups e ! i)) (pu_y (cl_powerups e ! i))" "w \<in> set (powerups s)"
  shows "\<exists>msg s' own others. connection_ptr e1 = Some (Send msg k)
    \<and> OnMessage d (Some p) msg s = Inr s' \<and> game_ok s'
    \<and> (\<forall>q. linked s q \<longrightarrow> tasks (heap s' q) = tasks (heap s q) @ map T_Send (if q = p then own else others))
    \<and> (\<exists>e2. HandleMessages red (e1\<lparr>c_in := incoming own\<rparr>) = Inr e2
         \<and> mset (cl_cells e2) = mset (powerup_cells s') + own_phantoms)
    \<and> (\<forall>c phantoms. mset (cl_cells c) = mset (powerup_cells s) + phantoms \<longrightarrow>
         (\<exists>c'. HandleMessages red (c\<lparr>c_in := incoming others\<rparr>) = Inr c'
           \<and> mset (cl_cells c') = mset (powerup_cells s') + phantoms))"
proof -
  let ?msg = "put enc_powerup w (message_of PowerupEaten)" and ?x = "(pw_x w, pw_y w)"
  have i: "i < length (cl_powerups e)"
    using assms(4) by (auto simp: EatPowerup_def split: if_splits)
  obtain pl where e1: "e1 = C_Send ?msg ((set_player (clientID e) pl e)
      \<lparr>cl_powerups := take i (cl_powerups e) @ drop (Suc i) (cl_powerups e)\<rparr>)"
    using assms(4) i by (auto simp: EatPowerup_def Let_def assms(7) [symmetric])
  have sent: "connection_ptr e1 = Some (Send ?msg k)"
    using assms(5,6) by (simp add: e1 C_Send_def C_IsConnected_def IsConnected_def)
  have cell: "cl_cells e ! i = ?x" using i by (simp add: cl_cells_def assms(7))
  have "cl_cells e1 = take i (cl_cells e) @ drop (Suc i) (cl_cells e)"
    by (simp add: e1) (simp add: cl_cells_def take_map drop_map)
  then have eater: "mset (cl_cells e1) + {#?x#} = mset (cl_cells e)"
    using mset_take_drop [of i "cl_cells e"] i cell by (simp add: cl_cells_def)
  obtain s' w' where s': "OnMessage d (Some p) ?msg s = Inr s'"
    "powerups s' = erase_first (same_powerup w) (powerups s) @ [w']" "game_ok s'"
    "\<And>q. linked s q \<Longrightarrow> tasks (heap s' q) = tasks (heap s q)
       @ (if q = p then [] else [T_Send ?msg]) @ [T_Send (powerup_message w')]"
    using PowerupEaten_result [OF assms(1) _ _ assms(2), of ?msg "[]" w d p] by auto
  have cells: "powerup_cells s' = remove1 ?x (powerup_cells s) @ [(pw_x w', pw_y w')]"
    using powerup_cells_eaten [of w p s] s'(2) by (simp add: powerup_cells_def)
  have there: "?x \<in># mset (powerup_cells s)"
    using assms(8) by (auto simp: powerup_cells_def)
  obtain e2 where e2: "HandleMessages red (e1\<lparr>c_in := incoming [powerup_message w']\<rparr>) = Inr e2"
    "cl_cells e2 = cl_cells e1 @ [(pw_x w', pw_y w')]"
    using cells_after_eating(2) by blast
  have "mset (cl_cells e1) = (mset (powerup_cells s) - {#?x#}) + own_phantoms"
  proof -
    have "mset (cl_cells e1) = mset (cl_cells e) - {#?x#}" using eater by (metis add_diff_cancel_right')
    then show ?thesis using there by (simp add: assms(3))
  qed
  then have own: "mset (cl_cells e2) = mset (powerup_cells s') + own_phantoms"
    by (simp add: e2(2) cells)
  have other: "\<exists>c'. HandleMessages red (c\<lparr>c_in := incoming [?msg, powerup_message w']\<rparr>) = Inr c'
      \<and> mset (cl_cells c') = mset (powerup_cells s') + phantoms"
    if c: "mset (cl_cells c) = mset (powerup_cells s) + phantoms" for c phantoms
  proof -
    obtain c' where c': "HandleMessages red (c\<lparr>c_in := incoming [?msg, powerup_message w']\<rparr>) = Inr c'"
      "cl_cells c' = remove1 ?x (cl_cells c) @ [(pw_x w', pw_y w')]"
      using cells_after_eating(1) by blast
    have "mset (remove1 ?x (cl_cells c)) = (mset (powerup_cells s) - {#?x#}) + phantoms"
      using there by (simp add: c)
    then show ?thesis using c' by (simp add: cells)
  qed
  show ?thesis
    using sent s' e2(1) own other
    by (intro exI [of _ ?msg] exI [of _ s'] exI [of _ "[powerup_message w']"]
        exI [of _ "[?msg, powerup_message w']"]) auto
qed

theorem powerups_replicated_witness:
  "\<exists>e1 msg s' own e2. EatPowerup 1 (sample_eater (Some sample_conn)) = Inr e1
    \<and> connection_ptr e1 = Some (Send msg sample_conn)
    \<and> OnMessage 0 (Some 0) msg (sample_server True) = Inr s'
    \<and> HandleMessages 1 (e1\<lparr>c_in := incoming own\<rparr>) = Inr e2
    \<and> mset (cl_cells e2) = mset (powerup_cells s') + {#(0, 0)#}"
proof -
  let ?e = "sample_eater (Some sample_conn)"
  have cells: "powerup_cells (sample_server True) = [(3, 3)]"
    by (simp add: powerup_cells_def sample_server_fields)
  have e: "mset (cl_cells ?e) = mset (powerup_cells (sample_server True)) + {#(0, 0)#}"
    unfolding cells by (simp add: sample_eater_def cl_cells_def default_powerup_def new_powerup_def)
  obtain e1 where e1: "EatPowerup 1 ?e = Inr e1"
    by (simp add: EatPowerup_def sample_eater_def AddLength_def player_at_def new_client_def default_player_def
        c_add_def c_int_def Let_def)
  have "PowerupData (pu_x (cl_powerups ?e ! 1)) (pu_y (cl_powerups ?e ! 1)) \<in> set (powerups (sample_server True))"
    by (simp add: sample_eater_def new_powerup_def sample_server_fields)
  from powerups_replicated [OF sample_game_ok _ e e1 _ sample_conn_idle(2) refl this, of 0 0 1]
  show ?thesis using e1 by (simp add: sample_cells sample_eater_def) blast
qed

section \<open>StartGame\<close>

lemma enc_pos_as_header:
  "dec_header (enc_pos h) = \<lparr>msg_id = type_of_code (pos_x h), body_size = pos_y h\<rparr>"
  by (simp add: dec_header_def enc_pos_def)

text \<open>What the server makes of a \<open>StartGame\<close> after an update, and what it sends on.\<close>

definition stale_start :: "message \<Rightarrow> message" where
  "stale_start u = (message_of StartGame)\<lparr>body := body u\<rparr>"

lemma stale_start_simps [simp]:
  "msg_type (stale_start u) = StartGame" "body_size (header (stale_start u)) = 0"
  "body (stale_start u) = body u"
  by (simp_all add: stale_start_def) (simp add: message_of_def new_message_def)

lemma recv_update_then_start:
  assumes "reads k = [R_Header]" "sendable u" "body u \<noteq> []"
  shows "\<exists>k'. recv q (frames [u, message_of StartGame]) (k, []) = ([], k', [own q k u, own q k (stale_start u)])"
proof -
  have S: "list_all sendable [u, message_of StartGame]"
    using assms(2) sendable_samples(2) by simp
  obtain hd' where "recv q (frames [u, message_of StartGame] @ []) (k, [])
      = recv q [] (k\<lparr>tmp_in := \<lparr>header = hd', body = last_body (body (tmp_in k)) [u, message_of StartGame]\<rparr>\<rparr>,
        [] @ map (own q k) (delivered (body (tmp_in k)) [u, message_of StartGame]))"
    using recv_frames [OF assms(1) S, of q "[]" "[]"] by blast
  then show ?thesis
    using assms(1,3) by (simp add: recv_nothing stale_start_def)
qed

lemma relay_start:
  assumes "conns_ok s" "all_up s None" "msg_type m = StartGame"
  obtains s' where "OnMessage d (Some q) m s = Inr s'" "game_started s'"
    "\<forall>q'. linked s q' \<longrightarrow> tasks (heap s' q') = tasks (heap s q') @ [T_Send m]"
proof -
  let ?s' = "bcast m (linked s) (s\<lparr>game_started := True\<rparr>)"
  have "OnMessage d (Some q) m s = Inr ?s'"
    using assms by (simp add: OnMessage_def on_start_game_def GetID_of_def broadcast_up)
  moreover have "game_started ?s'"
    "\<forall>q'. linked s q' \<longrightarrow> tasks (heap ?s' q') = tasks (heap s q') @ [T_Send m]"
    by (simp_all add: heap_bcast Send_def) (simp add: bcast_def)
  ultimately show thesis by (rule that)
qed

text \<open>C18: Starting the game breaks the stream to every client. The header-only \<open>StartGame\<close> of a client
  that has sent an update reaches \<open>OnMessage\<close> with the body of the update still in it; the
  server relays header and body to everyone; and a client that receives this takes the head of
  the starting player for the header of the next message: its type is the column and its
  length the row.\<close>

theorem StartGame_desynchronises:
  assumes "reads k = [R_Header]" "owner_type k = O_Server"
    and "tail p = h # t" "8 * length (tail p) + 16 < 2 ^ 32"
    and "conns_ok s" "all_up s None" "reads r = [R_Header]"
  shows "\<exists>k' m s'. recv q (frames [update_message cid p, message_of StartGame]) (k, [])
        = ([], k', [own q k (update_message cid p), own q k m])
    \<and> OnMessage d (Some q) m s = Inr s' \<and> game_started s'
    \<and> (\<forall>q'. linked s q' \<longrightarrow> tasks (heap s' q') = tasks (heap s q') @ [T_Send m])
    \<and> (\<exists>rest r1. \<forall>bs. recv self (frame_bytes m @ bs) (r, [])
        = recv self (rest @ bs) (on_ReadHeader self (Some (enc_pos h)) r1))
    \<and> dec_header (enc_pos h) = \<lparr>msg_id = type_of_code (pos_x h), body_size = pos_y h\<rparr>"
proof -
  let ?u = "update_message cid p"
  let ?m = "stale_start ?u"
  have "sendable ?u"
    using assms(4) by (simp add: sendable_def body_update_message length_update_body)
  moreover have "body ?u \<noteq> []"
    using assms(3) by (simp add: body_update_message update_body_def)
  ultimately obtain k' where R: "recv q (frames [?u, message_of StartGame]) (k, [])
      = ([], k', [own q k ?u, own q k ?m])"
    using recv_update_then_start [OF assms(1)] by blast
  obtain s' where O: "OnMessage d (Some q) ?m s = Inr s'" "game_started s'"
    "\<forall>q'. linked s q' \<longrightarrow> tasks (heap s' q') = tasks (heap s q') @ [T_Send ?m]"
    by (rule relay_start [OF assms(5,6), of ?m d q]) simp
  let ?rest = "concat (map enc_pos t) @ enc_u64 (word_of_nat (length (tail p)))
      @ enc_dir (direction p) @ enc_u32 cid"
  let ?r1 = "(r\<lparr>tmp_in := (tmp_in r)\<lparr>header := header ?m\<rparr>\<rparr>, [own self r ((tmp_in r)\<lparr>header := header ?m\<rparr>)])"
  have "body ?m = enc_pos h @ ?rest"
    using assms(3) by (simp add: body_update_message update_body_def)
  then have "recv self (frame_bytes ?m @ bs) (r, [])
      = recv self (?rest @ bs) (on_ReadHeader self (Some (enc_pos h)) ?r1)" for bs
    using recv_empty_header [of r "header ?m" self "enc_pos h @ ?rest @ bs" "[]"] assms(7)
    by (simp add: frame_bytes_def recv_header pos.enc_length)
  then have "\<exists>rest r1. \<forall>bs. recv self (frame_bytes ?m @ bs) (r, [])
        = recv self (rest @ bs) (on_ReadHeader self (Some (enc_pos h)) r1)"
    by blast
  with R O enc_pos_as_header [of h] show ?thesis
    by (intro exI [where x = k'] exI [where x = ?m] exI [where x = s'] conjI)
qed

theorem StartGame_desynchronises_witness:
  "\<exists>k' m s'. recv 0 (frames [update_message 10000 heading_right, message_of StartGame])
        (sample_reader\<lparr>owner_type := O_Server\<rparr>, [])
      = ([], k', [own 0 (sample_reader\<lparr>owner_type := O_Server\<rparr>) (update_message 10000 heading_right),
          own 0 (sample_reader\<lparr>owner_type := O_Server\<rparr>) m])
    \<and> OnMessage 0 (Some 0) m (sample_server True) = Inr s'
    \<and> (\<exists>rest r1. \<forall>bs. recv 1 (frame_bytes m @ bs) (sample_reader, [])
        = recv 1 (rest @ bs) (on_ReadHeader 1 (Some (enc_pos (Pos 6 5))) r1))
    \<and> dec_header (enc_pos (Pos 6 5)) = \<lparr>msg_id = type_of_code 6, body_size = 5\<rparr>"
proof -
  have "reads (sample_reader\<lparr>owner_type := O_Server\<rparr>) = [R_Header]"
    "owner_type (sample_reader\<lparr>owner_type := O_Server\<rparr>) = O_Server"
    by (simp_all add: sample_reader_simps)
  moreover have "tail heading_right = Pos 6 5 # [Pos 5 5]" by (simp add: heading_right_def)
  moreover have "8 * length (tail heading_right) + 16 < 2 ^ 32" by (simp add: heading_right_def)
  ultimately show ?thesis
    using StartGame_desynchronises [OF _ _ _ _ sample_server_up(3,4) sample_reader_simps(1),
      of "sample_reader\<lparr>owner_type := O_Server\<rparr>" heading_right "Pos 6 5" "[Pos 5 5]" 0 10000 0 1]
    unfolding position.simps by blast
qed

end
