(* ===== verification/Server_Run.thy ===== *)
theory Server_Run
  imports Server_Game
begin

text \<open>
  The server as a whole, run by its events: connections accepted or refused, validations,
  completed reads and writes, posted lambdas, and iterations of the main loop, in any order. Every
  handler of the asio thread is one step. The invariant \<open>srv_inv\<close> relates the connections of the
  framework to the players of the game.
\<close>

section \<open>Steps\<close>

text \<open>
  A connection exists as long as a shared pointer to it is left, in the deque or in a message that
  waits in the queue. The lambdas capture \<open>this\<close> only: a handler of a connection that is gone is
  undefined behaviour, and no step. A read that has been performed completes with success also if
  the socket has been closed since.
\<close>

definition referenced :: "server \<Rightarrow> nat \<Rightarrow> bool" where
  "referenced s p \<longleftrightarrow> linked s p \<or> (\<exists>x \<in> set (q_in s). remote x = Some p)"

inductive srv_step :: "nat \<Rightarrow> server \<Rightarrow> server \<Rightarrow> bool" for d where
  validation: "referenced s p \<Longrightarrow> R_Validation \<in> set (reads (heap s p)) \<Longrightarrow>
    server_ReadValidation (OnClientValidated d col) p r s = Inr s' \<Longrightarrow> srv_step d s s'"
| read_header: "referenced s p \<Longrightarrow> R_Header \<in> set (reads (heap s p)) \<Longrightarrow>
    on_ReadHeader p r (heap s p, q_in s) = (k, q) \<Longrightarrow> srv_step d s ((set_conn p k s)\<lparr>q_in := q\<rparr>)"
| read_body: "referenced s p \<Longrightarrow> R_Body \<in> set (reads (heap s p)) \<Longrightarrow>
    on_ReadBody p r (heap s p, q_in s) = (k, q) \<Longrightarrow> srv_step d s ((set_conn p k s)\<lparr>q_in := q\<rparr>)"
| task: "referenced s p \<Longrightarrow> run_task (heap s p) = Inr k \<Longrightarrow> srv_step d s (set_conn p k s)"
| write_header: "referenced s p \<Longrightarrow> W_Header \<in> set (writes (heap s p)) \<Longrightarrow>
    on_WriteHeader ec (heap s p) = Inr k \<Longrightarrow> srv_step d s (set_conn p k s)"
| write_body: "referenced s p \<Longrightarrow> W_Body \<in> set (writes (heap s p)) \<Longrightarrow>
    on_WriteBody ec (heap s p) = Inr k \<Longrightarrow> srv_step d s (set_conn p k s)"
| write_validation: "referenced s p \<Longrightarrow> W_Validation \<in> set (writes (heap s p)) \<Longrightarrow>
    srv_step d s (set_conn p (on_WriteValidation ec (heap s p)) s)"
| update: "server_iteration d s = Some (Inr s') \<Longrightarrow> srv_step d s s'"

text \<open>\<open>srv_reach r d n s\<close>: \<open>s\<close> is reached from the start with \<open>n\<close> connections approved.\<close>

inductive srv_reach :: "nat stream \<Rightarrow> nat \<Rightarrow> nat \<Rightarrow> server \<Rightarrow> bool" for r d where
  start: "srv_reach r d 0 (new_server r)"
| step: "srv_reach r d n s \<Longrightarrow> srv_step d s s' \<Longrightarrow> srv_reach r d n s'"
| accept: "srv_reach r d n s \<Longrightarrow> on_accept (OnClientConnect ip_ok) ec remote_ok now s = Inr s' \<Longrightarrow>
    srv_reach r d (n + (length (deq_conns s') - length (deq_conns s))) s'"

section \<open>The invariant\<close>

definition registered :: "server \<Rightarrow> u32 \<Rightarrow> bool" where
  "registered s i \<longleftrightarrow> i \<in> fst ` set (players s)"

definition reading :: "connection \<Rightarrow> bool" where
  "reading k \<longleftrightarrow> R_Header \<in> set (reads k) \<or> R_Body \<in> set (reads k)"

text \<open>A connection reads one thing at a time, and has been validated if a message of it waits.\<close>

definition reads_ok :: "server \<Rightarrow> bool" where
  "reads_ok s \<longleftrightarrow> (\<forall>p. length (reads (heap s p)) \<le> 1)
     \<and> (\<forall>x \<in> set (q_in s). \<forall>p. remote x = Some p
          \<longrightarrow> p < next_ptr s \<and> R_Validation \<notin> set (reads (heap s p)))"

definition srv_inv :: "nat \<Rightarrow> server \<Rightarrow> bool" where
  "srv_inv n s \<longleftrightarrow> ids_ok n s \<and> distinct (map fst (players s))
     \<and> (\<forall>p. owner_type (heap s p) = O_Server)
     \<and> (\<forall>i. registered s i \<longrightarrow> (\<exists>p. linked s p \<and> conn_id (heap s p) = i))
     \<and> (\<forall>p. linked s p \<longrightarrow> reading (heap s p) \<longrightarrow> registered s (conn_id (heap s p)))
     \<and> reads_ok s"

text \<open>What a broadcast leaves alone of a connection.\<close>

definition static :: "connection \<Rightarrow> u32 \<times> owner \<times> bool \<times> read_op list" where
  "static k = (conn_id k, owner_type k, sock_open k, reads k)"

lemma static_Send [simp]: "static (Send m k) = static k"
  by (simp add: static_def Send_def)

lemma static_eq:
  "static k = static k' \<longleftrightarrow> conn_id k = conn_id k' \<and> owner_type k = owner_type k'
     \<and> sock_open k = sock_open k' \<and> reads k = reads k'"
  by (simp add: static_def)

text \<open>
  \<open>evolves n s t\<close>: the invariant is kept, no message comes to the queue, a connection that is up keeps
  its place, and one that keeps its place keeps its player.
\<close>

definition retains :: "server \<Rightarrow> server \<Rightarrow> bool" where
  "retains s t \<longleftrightarrow> (\<forall>p. static (heap t p) = static (heap s p)) \<and> set (q_in t) \<subseteq> set (q_in s)
     \<and> next_ptr t = next_ptr s
     \<and> (\<forall>p. linked s p \<and> up s p \<longrightarrow> linked t p)
     \<and> (\<forall>p. linked t p \<longrightarrow> linked s p
          \<and> (registered s (conn_id (heap s p)) \<longrightarrow> registered t (conn_id (heap s p))))"

definition evolves :: "nat \<Rightarrow> server \<Rightarrow> server \<Rightarrow> bool" where
  "evolves n s t \<longleftrightarrow> (srv_inv n s \<longrightarrow> srv_inv n t \<and> retains s t)"

lemma evolves_refl [simp]: "evolves n s s"
  by (simp add: evolves_def retains_def)

lemma retains_trans:
  assumes "retains s t" "retains t u"
  shows "retains s u"
proof -
  have "conn_id (heap t p) = conn_id (heap s p)" "up t p = up s p" for p
    using assms(1) by (simp_all add: retains_def static_eq up_def)
  then show ?thesis using assms unfolding retains_def by (metis subset_trans)
qed

lemma evolves_trans [trans]: "evolves n s t \<Longrightarrow> evolves n t u \<Longrightarrow> evolves n s u"
  unfolding evolves_def using retains_trans by blast

lemma evolves_inv: "evolves n s t \<Longrightarrow> srv_inv n s \<Longrightarrow> srv_inv n t"
  by (simp add: evolves_def)

lemma srv_inv_conns: "srv_inv n s \<Longrightarrow> conns_ok s"
  by (simp add: srv_inv_def ids_ok_def)

text \<open>The parts of the state the invariant reads.\<close>

lemma reads_ok_cong:
  assumes "reads_ok s" "next_ptr t = next_ptr s" "\<And>p. static (heap t p) = static (heap s p)"
    "set (q_in t) \<subseteq> set (q_in s)"
  shows "reads_ok t"
proof -
  have "reads (heap t p) = reads (heap s p)" for p using assms(3) [of p] by (simp add: static_eq)
  then show ?thesis using assms(1,2,4) unfolding reads_ok_def by auto
qed

lemma srv_inv_cong:
  assumes "deq_conns t = deq_conns s" "next_ptr t = next_ptr s" "id_counter t = id_counter s"
    "map fst (players t) = map fst (players s)" "\<And>p. static (heap t p) = static (heap s p)"
    "set (q_in t) \<subseteq> set (q_in s)"
  shows "srv_inv n s \<Longrightarrow> srv_inv n t"
proof -
  assume inv: "srv_inv n s"
  have "fst ` set (players t) = fst ` set (players s)"
    by (metis assms(4) set_map)
  moreover have "conn_id (heap t p) = conn_id (heap s p)" "owner_type (heap t p) = owner_type (heap s p)"
    "reads (heap t p) = reads (heap s p)" for p
    using assms(5) [of p] by (simp_all add: static_eq)
  moreover have "reads_ok t" using inv reads_ok_cong assms(2,5,6) unfolding srv_inv_def by blast
  ultimately show ?thesis
    using inv assms(1-4)
    by (simp add: srv_inv_def ids_ok_def conns_ok_def linked_def reading_def registered_def)
qed

lemma evolves_same:
  assumes "deq_conns t = deq_conns s" "next_ptr t = next_ptr s" "id_counter t = id_counter s"
    "map fst (players t) = map fst (players s)" "\<And>p. static (heap t p) = static (heap s p)"
    "set (q_in t) \<subseteq> set (q_in s)"
  shows "evolves n s t"
proof -
  have "fst ` set (players t) = fst ` set (players s)"
    by (metis assms(4) set_map)
  then show ?thesis
    using assms srv_inv_cong [OF assms] by (simp add: evolves_def retains_def linked_def registered_def)
qed

section \<open>Broadcasts\<close>

text \<open>A broadcast that returns has found no lost connection or exactly one, whose player and place
  it has removed.\<close>

lemma broadcast_effect:
  assumes "conns_ok s" "broadcast d m ign s = Inr t"
  shows "(\<forall>p. static (heap t p) = static (heap s p)) \<and> game_fields t = game_fields s
    \<and> (deq_conns t = deq_conns s \<and> players t = players s
       \<or> (\<exists>q. only_lost s q \<and> ign \<noteq> Some q \<and> deq_conns t = filter (\<lambda>c. c \<noteq> Some q) (deq_conns s)
            \<and> players t = AList.delete (conn_id (heap s q)) (players s)))"
  using assms(1)
proof (cases rule: lost_cases)
  case 1
  then have "t = bcast m (\<lambda>p. linked s p \<and> Some p \<noteq> ign) s"
    using assms by (simp add: broadcast_up)
  then show ?thesis
    by (auto simp: heap_bcast game_fields_def) (simp_all add: bcast_def)
next
  case (2 q)
  show ?thesis
  proof (cases "ign = Some q")
    case True
    then have "t = bcast m (\<lambda>p. linked s p \<and> Some p \<noteq> ign) s"
      using assms only_lost_all_up [OF 2] by (simp add: broadcast_up)
    then show ?thesis
      by (auto simp: heap_bcast game_fields_def) (simp_all add: bcast_def)
  next
    case False
    show ?thesis
    proof (cases d)
      case 0
      have "lost s q" using 2 by (simp add: only_lost_def)
      then have "broadcast d m ign s = Inl Stack_Overflow"
        unfolding broadcast_def 0 using assms(1) False
        by (intro MessageAllClients_first_lost [of s q]) auto
      with assms(2) show ?thesis by simp
    next
      case (Suc e)
      obtain xs ys where xy: "deq_conns s = xs @ Some q # ys"
        using 2 by (meson lost_def linked_def only_lost_def split_list)
      have t: "t = (bcast m (\<lambda>p. Some p \<noteq> ign \<and> Some p \<in> set ys)
          (drop_client q (bcast m (\<lambda>p. Some p \<noteq> ign \<and> Some p \<in> set xs) s)))\<lparr>deq_conns := xs @ ys\<rparr>"
        using dc.broadcast_single [OF 2 False xy, of e m] assms(2)
        by (simp add: broadcast_def Suc)
      have sep: "Some q \<notin> set xs" "Some q \<notin> set ys"
        using assms(1) xy by (auto simp: conns_ok_def)
      then have "filter (\<lambda>c. c \<noteq> Some q) (deq_conns s) = xs @ ys"
        unfolding xy by (simp, metis (mono_tags, lifting) filter_True)
      moreover have "static (heap t p) = static (heap s p)" for p
        by (simp add: t heap_bcast drop_client_def)
      moreover have "game_fields t = game_fields s"
        using broadcast_keeps [OF assms(2)] .
      moreover have "players t = AList.delete (conn_id (heap s q)) (players s)"
        by (simp add: t drop_client_def heap_bcast Send_def)
      ultimately show ?thesis using 2 False by (auto simp: t)
    qed
  qed
next
  case 3
  have "broadcast d m ign s \<noteq> Inr t"
  proof (cases d)
    case 0
    obtain a where "lost s a" "Some a \<noteq> ign"
      using 3 unfolding two_lost_def by (metis option.inject)
    then have "broadcast d m ign s = Inl Stack_Overflow"
      unfolding broadcast_def 0 using assms(1)
      by (intro MessageAllClients_first_lost [of s a]) auto
    then show ?thesis by simp
  next
    case (Suc e)
    then show ?thesis using dc.broadcast_many [OF 3] by (simp add: broadcast_def)
  qed
  with assms(2) show ?thesis by simp
qed

lemma broadcast_evolves:
  assumes "broadcast d m ign s = Inr t"
  shows "evolves n s t"
proof (cases "srv_inv n s")
  case True
  then have ok: "conns_ok s" by (simp add: srv_inv_def ids_ok_def)
  have E: "\<forall>p. static (heap t p) = static (heap s p)" "next_ptr t = next_ptr s" "id_counter t = id_counter s"
    using broadcast_effect [OF ok assms] by (auto simp: game_fields_def)
  have Q: "q_in t = q_in s" using broadcast_effect [OF ok assms] q_in_eq by blast
  consider "deq_conns t = deq_conns s" "players t = players s"
    | q where "only_lost s q" "deq_conns t = filter (\<lambda>c. c \<noteq> Some q) (deq_conns s)"
        "players t = AList.delete (conn_id (heap s q)) (players s)"
    using broadcast_effect [OF ok assms] by blast
  then show ?thesis
  proof cases
    case 1
    with E Q show ?thesis by (intro evolves_same) simp_all
  next
    case (2 q)
    have q: "linked s q" "\<not> up s q" using 2(1) by (simp_all add: only_lost_def lost_def)
    have L: "linked t p \<longleftrightarrow> linked s p \<and> p \<noteq> q" for p
      by (simp add: linked_def 2(2))
    have R: "registered t i \<longleftrightarrow> registered s i \<and> i \<noteq> conn_id (heap s q)" for i
      unfolding registered_def 2(3) set_map [symmetric] delete_keys set_removeAll by blast
    have H: "conn_id (heap t p) = conn_id (heap s p)" "owner_type (heap t p) = owner_type (heap s p)"
      "sock_open (heap t p) = sock_open (heap s p)" "reads (heap t p) = reads (heap s p)" for p
      using E(1) by (simp_all add: static_eq)
    have U: "p = p'" if "linked s p" "linked s p'" "conn_id (heap s p) = conn_id (heap s p')" for p p'
      using True that by (auto simp: srv_inv_def ids_ok_def)
    have "ids_ok n t"
      using True E(2,3) by (auto simp: srv_inv_def ids_ok_def conns_ok_def L H 2(2))
    moreover have "distinct (map fst (players t))"
      using True by (simp add: srv_inv_def 2(3) distinct_delete)
    moreover have "\<forall>i. registered t i \<longrightarrow> (\<exists>p. linked t p \<and> conn_id (heap t p) = i)"
      using True unfolding srv_inv_def L R H by blast
    moreover have "\<forall>p. linked t p \<longrightarrow> reading (heap t p) \<longrightarrow> registered t (conn_id (heap t p))"
      using True U q(1) unfolding srv_inv_def L R H reading_def by blast
    moreover have "reads_ok t" using True reads_ok_cong E(1,2) Q unfolding srv_inv_def by auto
    moreover have "\<forall>p. owner_type (heap t p) = O_Server"
      using True unfolding srv_inv_def H by blast
    ultimately have "srv_inv n t" by (simp add: srv_inv_def)
    moreover have "\<forall>p. linked s p \<and> up s p \<longrightarrow> linked t p" using q unfolding L by blast
    moreover have "\<forall>p. linked t p \<longrightarrow> linked s p
        \<and> (registered s (conn_id (heap s p)) \<longrightarrow> registered t (conn_id (heap s p)))"
      using U q unfolding L R by blast
    ultimately show ?thesis using E(1,2) Q by (simp add: evolves_def retains_def)
  qed
qed (simp add: evolves_def)

section \<open>The operations of the game\<close>

lemma game_update_evolves [simp]:
  "evolves n s (s\<lparr>powerups := ws\<rparr>)" "evolves n s (s\<lparr>rng := r, powerups := ws\<rparr>)"
  "evolves n s (s\<lparr>game_started := b\<rparr>)" "evolves n s (s\<lparr>spawnpoints := sp\<rparr>)"
  "evolves n s (send_to p m s)"
  by (rule evolves_same; simp add: send_to_def set_conn_def)+

lemma dequeue_evolves: "set q \<subseteq> set (q_in s) \<Longrightarrow> evolves n s (s\<lparr>q_in := q\<rparr>)"
  by (rule evolves_same) simp_all

lemma GeneratePowerup_evolves: "GeneratePowerup d s = Inr t \<Longrightarrow> evolves n s t"
  by (auto simp: GeneratePowerup_def Let_def split: if_splits
      intro: evolves_trans [OF game_update_evolves(2) broadcast_evolves])

lemma DeletePowerup_evolves: "DeletePowerup d w c s = Inr t \<Longrightarrow> evolves n s t"
  by (auto simp: DeletePowerup_def Let_def
      intro: evolves_trans [OF game_update_evolves(1) broadcast_evolves])

lemma generate_powerups_evolves: "generate_powerups d k s = Inr t \<Longrightarrow> evolves n s t"
proof (induction d k s rule: generate_powerups.induct)
  case (1 d k s)
  show ?case
  proof (cases "length (powerups s) < k")
    case True
    with 1(2) obtain u where u: "GeneratePowerup d s = Inr u" "generate_powerups d k u = Inr t"
      by (subst (asm) generate_powerups.simps) auto
    have "evolves n u t" using 1(1) True u by blast
    with GeneratePowerup_evolves [OF u(1)] show ?thesis by (rule evolves_trans)
  next
    case False
    with 1(2) show ?thesis by (subst (asm) generate_powerups.simps) simp
  qed
qed

lemma PlayerCollision_evolves: "PlayerCollision d c s = Inr t \<Longrightarrow> evolves n s t"
  by (auto simp: PlayerCollision_def SendKillMessage_def split: if_splits intro: broadcast_evolves)

lemma update_existing_evolves:
  assumes "map_of (players s) i = Some pl"
  shows "evolves n s (s\<lparr>players := AList.update i pl' (players s)\<rparr>)"
proof (rule evolves_same)
  have "i \<in> fst ` set (players s)" using map_of_SomeD [OF assms] by force
  then show "map fst (players (s\<lparr>players := AList.update i pl' (players s)\<rparr>)) = map fst (players s)"
    by (simp add: keys_alist_update)
qed simp_all

lemma on_update_player_evolves:
  assumes "on_update_player d c m s = Inr t"
  shows "evolves n s t"
proof -
  from assms obtain u i pl pl' cid where u: "broadcast d m c s = Inr u"
    "map_of (players u) i = Some pl"
    "PlayerCollision d cid (u\<lparr>players := AList.update i pl' (players u)\<rparr>) = Inr t"
    by (auto simp: on_update_player_def split: option.splits prod.splits)
  have "evolves n s u" by (rule broadcast_evolves [OF u(1)])
  also have "evolves n u (u\<lparr>players := AList.update i pl' (players u)\<rparr>)"
    by (rule update_existing_evolves [OF u(2)])
  also have "evolves n (u\<lparr>players := AList.update i pl' (players u)\<rparr>) t"
    by (rule PlayerCollision_evolves [OF u(3)])
  finally show ?thesis .
qed

lemma OnMessage_evolves:
  assumes "OnMessage d c m s = Inr t"
  shows "evolves n s t"
proof (cases "msg_type m")
  case PowerupEaten
  with assms show ?thesis
    by (auto simp: OnMessage_def on_powerup_eaten_def
        intro: evolves_trans [OF DeletePowerup_evolves GeneratePowerup_evolves])
next
  case UpdatePlayer
  with assms show ?thesis by (auto simp: OnMessage_def intro: on_update_player_evolves)
next
  case StartGame
  with assms show ?thesis
    by (auto simp: OnMessage_def on_start_game_def
        intro: evolves_trans [OF game_update_evolves(3) broadcast_evolves])
qed (use assms in \<open>simp_all add: OnMessage_def\<close>)

lemma process_evolves:
  "process (OnMessage d) ms rest s = Inr t \<Longrightarrow> q_in s = ms @ rest \<Longrightarrow> evolves n s t"
proof (induction ms arbitrary: s)
  case (Cons m ms)
  then obtain u where u: "OnMessage d (remote m) (omsg m) (s\<lparr>q_in := ms @ rest\<rparr>) = Inr u"
    "process (OnMessage d) ms rest u = Inr t" by auto
  have "q_in u = ms @ rest" using om.keeps_queue [OF u(1)] by simp
  then have "evolves n u t" using Cons.IH [OF u(2)] by blast
  moreover have "evolves n s (s\<lparr>q_in := ms @ rest\<rparr>)"
    by (rule dequeue_evolves) (auto simp: Cons.prems(2))
  then have "evolves n s u" using OnMessage_evolves [OF u(1)] by (rule evolves_trans)
  ultimately show ?case by (rule evolves_trans [rotated])
qed simp

lemma server_iteration_evolves: "server_iteration d s = Some (Inr t) \<Longrightarrow> evolves n s t"
  unfolding server_iteration_def
  by (drule om.Update_spec) (auto intro!: process_evolves [where rest = "drop max_size_t (q_in s)"] dest: sym)

section \<open>The events\<close>

lemma OnClientValidated_evolves:
  assumes "OnClientValidated d col p s = Inr t" "srv_inv n s" "linked s p"
  shows "srv_inv n t \<and> static (heap t p) = static (heap s p) \<and> (up s p \<longrightarrow> linked t p)
    \<and> set (q_in t) \<subseteq> set (q_in s) \<and> next_ptr t = next_ptr s \<and> (linked t p \<longrightarrow> registered t (conn_id (heap s p)))"
proof -
  let ?cid = "conn_id (heap s p)"
  from assms(1) obtain sps spawn u where "spawnpoints s \<noteq> []" and
    u: "broadcast d (newcomer_message \<lparr>pd_direction = Up, pd_tail = [spawn], pd_color = col\<rparr> ?cid)
      (Some p) (send_to p sps (s\<lparr>spawnpoints := butlast (spawnpoints s), players := AList.update ?cid
        \<lparr>pd_direction = Up, pd_tail = [spawn], pd_color = col\<rparr> (players s)\<rparr>)) = Inr u"
    "generate_powerups d (powerup_count (length (players u))) u = Inr t"
    by (auto simp: OnClientValidated_def GetID_def Let_def back_of_def split: if_splits)
  let ?s2 = "s\<lparr>spawnpoints := butlast (spawnpoints s), players := AList.update ?cid
        \<lparr>pd_direction = Up, pd_tail = [spawn], pd_color = col\<rparr> (players s)\<rparr>"
  have R: "registered ?s2 i \<longleftrightarrow> registered s i \<or> i = ?cid" for i
    by (auto simp: registered_def dom_update)
  have N: "linked ?s2 q = linked s q" "up ?s2 q = up s q" for q
    by (simp_all add: linked_def up_def)
  have I: "ids_ok n ?s2 = ids_ok n s"
    by (simp add: ids_ok_def conns_ok_def linked_def)
  have "distinct (map fst (players ?s2))"
    using assms(2) by (simp add: srv_inv_def distinct_update)
  then have "srv_inv n ?s2"
    using assms(2,3) unfolding srv_inv_def R N I reads_ok_def by auto
  moreover have "evolves n ?s2 (send_to p sps ?s2)" by simp
  then have "evolves n ?s2 u"
    by (rule evolves_trans [OF _ broadcast_evolves [OF u(1)]])
  then have "evolves n ?s2 t"
    by (rule evolves_trans [OF _ generate_powerups_evolves [OF u(2)]])
  ultimately show ?thesis
    using assms(3) R [of ?cid] N unfolding evolves_def retains_def by simp
qed

text \<open>A handler that changes one connection.\<close>

lemma linked_heap [simp]: "linked (s\<lparr>heap := h\<rparr>) = linked s"
  by (simp add: linked_def fun_eq_iff)

lemma set_conn_inv:
  assumes "srv_inv n s" "conn_id k = conn_id (heap s p)" "owner_type k = O_Server"
    and "length (reads k) \<le> 1" "R_Validation \<in> set (reads k) \<longrightarrow> R_Validation \<in> set (reads (heap s p))"
    and "reading k \<longrightarrow> linked s p \<longrightarrow> reading (heap s p) \<or> registered s (conn_id (heap s p))"
    and "\<forall>x \<in> set q. x \<in> set (q_in s) \<or> remote x = Some p \<and> p < next_ptr s \<and> R_Validation \<notin> set (reads k)"
  shows "srv_inv n ((set_conn p k s)\<lparr>q_in := q\<rparr>)"
proof -
  let ?t = "(set_conn p k s)\<lparr>q_in := q\<rparr>"
  have L: "linked ?t q = linked s q" and R: "registered ?t i = registered s i" for q i
    by (simp_all add: linked_def registered_def set_conn_def)
  have C: "conn_id (heap ?t q) = conn_id (heap s q)" for q
    using assms(2) by (simp add: set_conn_def)
  have F: "deq_conns ?t = deq_conns s" "next_ptr ?t = next_ptr s" "id_counter ?t = id_counter s"
    by (simp_all add: set_conn_def)
  have "ids_ok n ?t" using assms(1) unfolding srv_inv_def ids_ok_def conns_ok_def L C F by blast
  moreover have "distinct (map fst (players ?t))"
    using assms(1) by (simp add: srv_inv_def set_conn_def)
  moreover have "\<forall>q. owner_type (heap ?t q) = O_Server"
    using assms(1,3) by (simp add: srv_inv_def set_conn_def)
  moreover have "\<forall>q. linked ?t q \<longrightarrow> reading (heap ?t q) \<longrightarrow> registered ?t (conn_id (heap ?t q))"
  proof (intro allI impI)
    fix q assume q: "linked ?t q" "reading (heap ?t q)"
    have l: "linked s q" using q(1) unfolding L .
    have "reading (heap s q) \<or> registered s (conn_id (heap s q))"
      using q(2) assms(6) l by (cases "q = p") (auto simp: set_conn_def)
    then show "registered ?t (conn_id (heap ?t q))"
      using l assms(1) unfolding R C srv_inv_def by blast
  qed
  moreover have "reads_ok ?t"
    unfolding reads_ok_def
  proof (intro conjI allI ballI impI)
    have ok: "reads_ok s" using assms(1) by (simp add: srv_inv_def)
    fix p'
    show "length (reads (heap ?t p')) \<le> 1" using ok assms(4) by (simp add: reads_ok_def set_conn_def)
    fix x
    assume x: "x \<in> set (q_in ?t)" "remote x = Some p'"
    then have old: "x \<in> set (q_in s) \<or> p' = p \<and> p < next_ptr s \<and> R_Validation \<notin> set (reads k)"
      using assms(7) by auto
    then show "p' < next_ptr ?t" using ok x(2) by (auto simp: reads_ok_def set_conn_def)
    show "R_Validation \<notin> set (reads (heap ?t p'))"
      using old ok x(2) assms(5) by (auto simp: reads_ok_def set_conn_def)
  qed
  ultimately show ?thesis
    using assms(1) unfolding srv_inv_def L R C by blast
qed

lemma set_conn_keeps_queue_inv:
  assumes "srv_inv n s" "conn_id k = conn_id (heap s p)" "owner_type k = O_Server"
    "length (reads k) \<le> 1" "R_Validation \<in> set (reads k) \<longrightarrow> R_Validation \<in> set (reads (heap s p))"
    "reading k \<longrightarrow> linked s p \<longrightarrow> reading (heap s p) \<or> registered s (conn_id (heap s p))"
  shows "srv_inv n (set_conn p k s)"
proof -
  have "srv_inv n ((set_conn p k s)\<lparr>q_in := q_in s\<rparr>)"
    using assms by (intro set_conn_inv) simp_all
  moreover have "(set_conn p k s)\<lparr>q_in := q_in s\<rparr> = set_conn p k s" by (simp add: set_conn_def)
  ultimately show ?thesis by metis
qed

lemma set_conn_same_inv:
  assumes "srv_inv n s" "conn_id k = conn_id (heap s p)" "owner_type k = owner_type (heap s p)"
    "reads k = reads (heap s p)"
  shows "srv_inv n (set_conn p k s)"
proof (rule set_conn_keeps_queue_inv [OF assms(1,2)])
  show "owner_type k = O_Server" "length (reads k) \<le> 1"
    using assms by (simp_all add: srv_inv_def reads_ok_def)
qed (simp_all add: assms(4) reading_def)

lemma WriteHeader_static: "WriteHeader k = Inr k' \<Longrightarrow> static k' = static k"
  by (auto simp: WriteHeader_def static_def)

lemma WriteBody_static: "WriteBody k = Inr k' \<Longrightarrow> static k' = static k"
  by (auto simp: WriteBody_def static_def)

lemma pop_and_continue_static: "pop_and_continue k = Inr k' \<Longrightarrow> static k' = static k"
  by (auto simp: pop_and_continue_def Let_def split: if_splits prod.splits dest!: WriteHeader_static)
     (simp_all add: static_def)

definition tamer :: "connection \<Rightarrow> connection \<Rightarrow> bool" where
  "tamer k' k \<longleftrightarrow> conn_id k' = conn_id k \<and> owner_type k' = owner_type k
     \<and> reads k' = reads k"

lemma static_tamer: "static k' = static k \<Longrightarrow> tamer k' k"
  by (simp add: static_eq tamer_def)

lemma run_task_tamer: "run_task k = Inr k' \<Longrightarrow> tamer k' k"
  by (auto simp: run_task_def Let_def close_socket_def tamer_def static_eq
      split: list.splits task.splits if_splits dest!: WriteHeader_static)

lemma on_WriteHeader_tamer: "on_WriteHeader ec k = Inr k' \<Longrightarrow> tamer k' k"
  by (auto simp: on_WriteHeader_def Let_def close_socket_def tamer_def static_eq
      split: option.splits if_splits dest!: WriteBody_static pop_and_continue_static)

lemma on_WriteBody_tamer: "on_WriteBody ec k = Inr k' \<Longrightarrow> tamer k' k"
  by (auto simp: on_WriteBody_def Let_def close_socket_def tamer_def static_eq
      split: option.splits if_splits dest!: pop_and_continue_static)

lemma on_WriteValidation_tamer: "owner_type k = O_Server \<Longrightarrow> tamer (on_WriteValidation ec k) k"
  by (simp add: on_WriteValidation_def Let_def close_socket_def tamer_def split: option.splits)

lemma tamer_inv: "srv_inv n s \<Longrightarrow> tamer k (heap s p) \<Longrightarrow> srv_inv n (set_conn p k s)"
  by (rule set_conn_same_inv) (simp_all add: tamer_def)

lemma awaiting_linked:
  "srv_inv n s \<Longrightarrow> referenced s p \<Longrightarrow> R_Validation \<in> set (reads (heap s p)) \<Longrightarrow> linked s p"
  unfolding srv_inv_def referenced_def reads_ok_def by blast

lemma referenced_allocated: "srv_inv n s \<Longrightarrow> referenced s p \<Longrightarrow> p < next_ptr s"
  unfolding srv_inv_def referenced_def reads_ok_def ids_ok_def by blast

text \<open>Completed reads: the connection goes on reading only if it was, one read at a time.\<close>

lemma single_read: "length xs \<le> 1 \<Longrightarrow> x \<in> set xs \<Longrightarrow> xs = [x]"
  by (cases xs) auto

lemma AddToIncomingMessageQueue_fields:
  "AddToIncomingMessageQueue p (k, q) = (k\<lparr>reads := reads k @ [R_Header]\<rparr>,
     q @ [\<lparr>remote = if owner_type k = O_Server then Some p else None, omsg = tmp_in k\<rparr>])"
  by (simp add: AddToIncomingMessageQueue_def ReadHeader_def PushBack_def Let_def)

definition read_done :: "nat \<Rightarrow> connection \<times> owned_message queue \<Rightarrow> connection \<times> owned_message queue \<Rightarrow> bool" where
  "read_done p kq kq' \<longleftrightarrow> conn_id (fst kq') = conn_id (fst kq) \<and> owner_type (fst kq') = owner_type (fst kq)
     \<and> length (reads (fst kq')) \<le> 1 \<and> R_Validation \<notin> set (reads (fst kq'))
     \<and> (\<forall>x \<in> set (snd kq'). x \<in> set (snd kq) \<or> remote x = Some p)"

lemma on_ReadHeader_done:
  "reads k = [R_Header] \<Longrightarrow> owner_type k = O_Server \<Longrightarrow> read_done p (k, q) (on_ReadHeader p r (k, q))"
  by (auto simp: read_done_def on_ReadHeader_def Let_def close_socket_def ReadBody_def
      AddToIncomingMessageQueue_fields split: option.splits)

lemma on_ReadBody_done:
  "reads k = [R_Body] \<Longrightarrow> owner_type k = O_Server \<Longrightarrow> read_done p (k, q) (on_ReadBody p r (k, q))"
  by (auto simp: read_done_def on_ReadBody_def Let_def close_socket_def
      AddToIncomingMessageQueue_fields split: option.splits)

lemma read_done_inv:
  assumes "srv_inv n s" "read_done p (heap s p, q_in s) (k, q)" "reading (heap s p)" "referenced s p"
  shows "srv_inv n ((set_conn p k s)\<lparr>q_in := q\<rparr>)"
  by (rule set_conn_inv [OF assms(1)])
    (use assms(2,3) referenced_allocated [OF assms(1,4)] assms(1) in \<open>auto simp: read_done_def srv_inv_def\<close>)

lemma validation_inv:
  assumes "srv_inv n s" "referenced s p" "R_Validation \<in> set (reads (heap s p))"
    "server_ReadValidation (OnClientValidated d col) p r s = Inr s'"
  shows "srv_inv n s'"
proof -
  let ?k = "heap s p"
  have own: "owner_type ?k = O_Server" using assms(1) by (simp add: srv_inv_def)
  have one: "reads ?k = [R_Validation]"
    using assms(1,3) by (intro single_read) (auto simp: srv_inv_def reads_ok_def)
  have step: "srv_inv n (set_conn p k s)"
    if "conn_id k = conn_id ?k" "owner_type k = O_Server" "reads k = []" for k
    using that by (intro set_conn_keeps_queue_inv [OF assms(1)]) (simp_all add: reading_def)
  show ?thesis
  proof (cases "on_ReadValidation r ?k")
    case (V_Closed k)
    then have "conn_id k = conn_id ?k \<and> owner_type k = O_Server \<and> reads k = []"
      using own one by (auto simp: on_ReadValidation_def Let_def close_socket_def split: option.splits if_splits)
    with step have "srv_inv n (set_conn p k s)" by blast
    with V_Closed assms(4) show ?thesis by (simp add: server_ReadValidation_def)
  next
    case (V_Accepted k)
    have k: "conn_id k = conn_id ?k \<and> owner_type k = O_Server \<and> reads k = []"
      using V_Accepted own one by (auto simp: on_ReadValidation_def Let_def split: option.splits if_splits)
    with step have inv: "srv_inv n (set_conn p k s)" by blast
    have p: "linked (set_conn p k s) p"
      using awaiting_linked [OF assms(1-3)] by (simp add: linked_def set_conn_def)
    obtain t where t: "OnClientValidated d col p (set_conn p k s) = Inr t"
      "s' = set_conn p (ReadHeader (heap t p)) t"
      using V_Accepted assms(4) by (auto simp: server_ReadValidation_def)
    from OnClientValidated_evolves [OF t(1) inv p] have T: "srv_inv n t"
      "linked t p \<longrightarrow> registered t (conn_id (heap t p))" "owner_type (heap t p) = O_Server" "reads (heap t p) = []"
      using k by (auto simp: static_eq set_conn_def)
    show ?thesis
      unfolding t(2) using T by (intro set_conn_keeps_queue_inv) (auto simp: ReadHeader_def)
  next
    case (V_Answered k)
    with own show ?thesis
      by (auto simp: on_ReadValidation_def Let_def split: option.splits if_splits)
  qed
qed

lemma srv_step_inv:
  assumes "srv_step d s s'" "srv_inv n s"
  shows "srv_inv n s'"
  using assms
proof (induction rule: srv_step.induct)
  case (validation s p col r s')
  then show ?case by (auto intro: validation_inv)
next
  case (read_header s p r k q)
  have "owner_type (heap s p) = O_Server" "length (reads (heap s p)) \<le> 1"
    using read_header.prems by (simp_all add: srv_inv_def reads_ok_def)
  then show ?case
    using on_ReadHeader_done [OF single_read, of "heap s p" p "q_in s" r] read_header
    by (intro read_done_inv) (simp_all add: reading_def)
next
  case (read_body s p r k q)
  have "owner_type (heap s p) = O_Server" "length (reads (heap s p)) \<le> 1"
    using read_body.prems by (simp_all add: srv_inv_def reads_ok_def)
  then show ?case
    using on_ReadBody_done [OF single_read, of "heap s p" p "q_in s" r] read_body
    by (intro read_done_inv) (simp_all add: reading_def)
next
  case (task s p k)
  then show ?case by (auto intro: tamer_inv run_task_tamer)
next
  case (write_header s p ec k)
  then show ?case by (auto intro: tamer_inv on_WriteHeader_tamer)
next
  case (write_body s p ec k)
  then show ?case by (auto intro: tamer_inv on_WriteBody_tamer)
next
  case (write_validation s p ec)
  then show ?case by (intro tamer_inv on_WriteValidation_tamer) (simp_all add: srv_inv_def)
next
  case (update s s')
  then show ?case using server_iteration_evolves [of d s s' n] by (simp add: evolves_def)
qed

lemma fresh_server_reads:
  "reads (fresh_server_side uid now) = [R_Validation]" "owner_type (fresh_server_side uid now) = O_Server"
  "reads (new_connection O_Server b now) = []" "owner_type (new_connection O_Server b now) = O_Server"
  by (simp_all add: fresh_server_simps) (simp_all add: new_connection_def Let_def)

lemma srv_inv_alloc:
  assumes "srv_inv n s" "\<forall>p. linked s p \<longrightarrow> p \<noteq> a" "ids_ok m t"
    and heap: "heap t = (heap s)(a := k)" and pls: "players t = players s"
    and k: "owner_type k = O_Server" "\<not> reading k" "length (reads k) \<le> 1"
    and q: "q_in t = q_in s" "a = next_ptr s" "next_ptr t = Suc a"
    and L: "\<And>p. linked t p \<longleftrightarrow> linked s p \<or> (p = a \<and> linked t a)"
  shows "srv_inv m t"
  unfolding srv_inv_def
proof (intro conjI allI impI)
  have R: "registered t = registered s" by (simp add: pls registered_def fun_eq_iff)
  show "\<exists>p. linked t p \<and> conn_id (heap t p) = i" if r: "registered t i" for i
  proof -
    obtain p where "linked s p" "conn_id (heap s p) = i"
      using assms(1) r unfolding srv_inv_def R by blast
    then have "linked t p \<and> conn_id (heap t p) = i"
      using assms(2) L [of p] by (simp add: heap)
    then show ?thesis by (rule exI)
  qed
  show "registered t (conn_id (heap t p))" if "linked t p" "reading (heap t p)" for p
    using that assms(1) k(2) L [of p] by (cases "p = a") (simp_all add: srv_inv_def heap R)
  show "reads_ok t"
    using assms(1) k(3) q by (auto simp: srv_inv_def reads_ok_def heap)
  show "owner_type (heap t p) = O_Server" for p
    using assms(1) k(1) by (simp add: srv_inv_def heap)
  show "distinct (map fst (players t))" using assms(1) by (simp add: srv_inv_def pls)
qed (rule assms(3))

lemma accept_inv:
  assumes "srv_inv n s" "on_accept connect ec remote_ok now s = Inr s'"
    and "n + (length (deq_conns s') - length (deq_conns s)) < 2 ^ 32"
  shows "srv_inv (n + (length (deq_conns s') - length (deq_conns s))) s'"
proof -
  have ids: "ids_ok n s" using assms(1) by (simp add: srv_inv_def)
  have new: "\<forall>p. linked s p \<longrightarrow> p \<noteq> next_ptr s"
    using assms(1) by (auto simp: srv_inv_def ids_ok_def)
  show ?thesis
    using assms(2)
  proof (cases rule: on_accept_cases)
  case errored
  have "deq_conns s' = deq_conns s" by (simp add: errored)
  moreover have "srv_inv n s'"
    by (rule srv_inv_cong [OF _ _ _ _ _ _ assms(1)]) (simp_all add: errored)
  ultimately show ?thesis by simp
next
  case refused
  have L: "linked s' = linked s"
    by (simp add: refused linked_def fun_eq_iff)
  have "ids_ok n s'"
    by (rule ids_ok_alloc [OF ids]) (simp_all add: refused)
  moreover have "heap s' = (heap s)(next_ptr s := new_connection O_Server True now)"
    "players s' = players s"
    "q_in s' = q_in s" "next_ptr s' = Suc (next_ptr s)"
    by (simp_all add: refused)
  ultimately have "srv_inv n s'"
    by (intro srv_inv_alloc [OF assms(1) new]) (auto simp: fresh_server_reads L reading_def)
  moreover have "deq_conns s' = deq_conns s" by (simp add: refused)
  ultimately show ?thesis by simp
next
  case approved
  have L: "linked s' p \<longleftrightarrow> linked s p \<or> p = next_ptr s" for p
    by (auto simp: approved linked_def)
  have len: "n + (length (deq_conns s') - length (deq_conns s)) = Suc n" by (simp add: approved)
  have "ids_ok (Suc n) s'"
    using assms(3) len
    by (intro ids_ok_link [OF ids, where k = "fresh_server_side (id_counter s) now"])
       (simp_all add: approved fresh_server_simps)
  moreover have "heap s' = (heap s)(next_ptr s := fresh_server_side (id_counter s) now)"
    "players s' = players s" "q_in s' = q_in s" "next_ptr s' = Suc (next_ptr s)"
    by (simp_all add: approved)
  ultimately show ?thesis
    unfolding len
    by (intro srv_inv_alloc [OF assms(1) new]) (auto simp: fresh_server_reads L reading_def)
  qed
qed

lemma srv_reach_inv: "srv_reach r d n s \<Longrightarrow> n < 2 ^ 32 \<Longrightarrow> srv_inv n s"
proof (induction rule: srv_reach.induct)
  case start
  show ?case
    by (simp add: new_server_def GenerateGrid_def GenerateSpawnpoints_def srv_inv_def ids_ok_def
        conns_ok_def linked_def registered_def reading_def reads_ok_def fresh_server_reads)
next
  case (step n s s')
  then show ?case by (blast intro: srv_step_inv)
next
  case (accept n s ip_ok ec remote_ok now s')
  then have "srv_inv n s" by simp
  then show ?case using accept.hyps(2) accept.prems by (rule accept_inv)
qed

section \<open>A run with one validated client\<close>

definition accepted_server :: "nat stream \<Rightarrow> u64 \<Rightarrow> server" where
  "accepted_server r now = (new_server r)\<lparr>accepting := True, next_ptr := 1,
     heap := (heap (new_server r))(0 := fresh_server_side 10000 now),
     deq_conns := [Some 0], id_counter := 10001\<rparr>"

lemma accepted_server_accept:
  "on_accept (OnClientConnect True) False True now (new_server r) = Inr (accepted_server r now)"
  by (simp add: on_accept_def OnClientConnect_def accepted_server_def new_server_def GenerateGrid_def
      GenerateSpawnpoints_def set_conn_def WaitForClientConnection_def fresh_server_side_def Let_def)

lemma accepted_server_reach: "srv_reach r d 1 (accepted_server r now)"
  using srv_reach.accept [OF srv_reach.start accepted_server_accept, of r d now]
  by (simp add: accepted_server_def new_server_def GenerateGrid_def GenerateSpawnpoints_def)

lemma fresh_server_up: "sock_open (fresh_server_side uid now)"
  by (simp add: fresh_server_side_def ConnectToClient_def new_connection_def WriteValidation_def
      ReadValidation_def Let_def)

lemma generate_powerups_started: "generate_powerups d k s = Inr t \<Longrightarrow> game_started t = game_started s"
proof (induction d k s rule: generate_powerups.induct)
  case (1 d k s)
  show ?case
  proof (cases "length (powerups s) < k")
    case True
    with 1(2) obtain u where u: "GeneratePowerup d s = Inr u" "generate_powerups d k u = Inr t"
      by (subst (asm) generate_powerups.simps) auto
    have "game_started u = game_started s"
      using u(1) by (auto simp: GeneratePowerup_def Let_def game_fields_def split: if_splits dest!: broadcast_keeps)
    then show ?thesis using 1(1) True u by metis
  next
    case False
    with 1(2) show ?thesis by (subst (asm) generate_powerups.simps) simp
  qed
qed

lemma OnClientValidated_started: "OnClientValidated d col p s = Inr t \<Longrightarrow> game_started t = game_started s"
  by (auto simp: OnClientValidated_def Let_def game_fields_def send_to_def set_conn_def
      dest!: broadcast_keeps generate_powerups_started)

lemma validated_run:
  "\<exists>s. srv_reach r d 1 s \<and> linked s 0 \<and> reading (heap s 0) \<and> reads (heap s 0) = [R_Header]
    \<and> up s 0 \<and> next_ptr s = 1 \<and> q_in s = [] \<and> spawnpoints s \<noteq> [] \<and> \<not> game_started s"
proof -
  let ?s = "accepted_server r now"
  let ?k = "(fresh_server_side 10000 now)\<lparr>reads := [], hs_in := Scramble now\<rparr>"
  let ?s1 = "set_conn 0 ?k ?s"
  note start = accepted_server_def new_server_def GenerateGrid_def GenerateSpawnpoints_def
  have v: "on_ReadValidation (Some (enc_u64 (Scramble now))) (heap ?s 0) = V_Accepted ?k"
    by (simp add: accepted_server_def on_ReadValidation_def fresh_server_simps Let_def)
  have occ: "occupied ?s1 = {}"
    by (simp add: start set_conn_def occupied_def tail_cells_def powerup_cells_def)
  have "game_ok ?s1"
    by (simp add: game_ok_def cells_ok_def occ conns_ok_def all_up_def up_def)
       (simp add: start set_conn_def linked_def up_def fresh_server_up)
  moreover obtain sps where "spawnpoints ?s1 = sps @ [Pos 30 20]" "sps \<noteq> []"
    by (simp add: start set_conn_def grid_dims cell_def)
  moreover have "pos_ok (Pos 30 20)" by (simp add: pos_ok_def grid_dims)
  moreover have "card (occupied ?s1) + length (players ?s1) < 1199"
    unfolding occ by (simp add: start set_conn_def)
  ultimately obtain t where t: "OnClientValidated d 1 0 ?s1 = Inr t" "spawnpoints t \<noteq> []"
    using OnClientValidated_result by metis
  have "\<not> game_started t"
    using OnClientValidated_started [OF t(1)] by (simp add: start set_conn_def)
  have "srv_inv 1 ?s" by (rule srv_reach_inv [OF accepted_server_reach]) simp
  then have "srv_inv 1 ?s1"
    by (rule set_conn_keeps_queue_inv) (simp_all add: accepted_server_def fresh_server_simps reading_def)
  moreover have "linked ?s1 0" "up ?s1 0"
    by (simp_all add: accepted_server_def set_conn_def linked_def up_def fresh_server_up)
  ultimately have "linked t 0" "static (heap t 0) = static ?k" "q_in t = []" "next_ptr t = 1"
    using OnClientValidated_evolves [OF t(1), of 1] by (auto simp: accepted_server_def start set_conn_def)
  moreover have "server_ReadValidation (OnClientValidated d 1) 0 (Some (enc_u64 (Scramble now))) ?s
      = Inr (set_conn 0 (ReadHeader (heap t 0)) t)"
    unfolding server_ReadValidation_def v using t(1) by simp
  then have "srv_step d ?s (set_conn 0 (ReadHeader (heap t 0)) t)"
    by (rule srv_step.validation [rotated 2])
       (simp_all add: accepted_server_def fresh_server_simps referenced_def linked_def)
  then have "srv_reach r d 1 (set_conn 0 (ReadHeader (heap t 0)) t)"
    by (rule srv_reach.step [OF accepted_server_reach])
  ultimately show ?thesis
    using t(2) \<open>\<not> game_started t\<close>
    by (intro exI [where x = "set_conn 0 (ReadHeader (heap t 0)) t"])
       (simp add: set_conn_def linked_def reading_def ReadHeader_def static_eq up_def fresh_server_up)
qed

section \<open>Handlers without a connection\<close>

text \<open>A handler is still to run on a connection to which no shared pointer is left.\<close>

definition dangling :: "server \<Rightarrow> nat \<Rightarrow> bool" where
  "dangling s p \<longleftrightarrow> \<not> referenced s p \<and> (reads (heap s p) \<noteq> [] \<or> writes (heap s p) \<noteq> [] \<or> tasks (heap s p) \<noteq> [])"

definition accept_one :: "u64 \<Rightarrow> server \<Rightarrow> server" where
  "accept_one now s = s\<lparr>accepting := True, next_ptr := Suc (next_ptr s),
     heap := (heap s)(next_ptr s := fresh_server_side (id_counter s) now),
     deq_conns := deq_conns s @ [Some (next_ptr s)], id_counter := id_counter s + 1\<rparr>"

lemma accept_one_reach:
  assumes s: "srv_reach r d n s" and "spawnpoints s \<noteq> []" "\<not> game_started s"
  shows "srv_reach r d (Suc n) (accept_one now s)"
proof -
  have "on_accept (OnClientConnect True) False True now s = Inr (accept_one now s)"
    using assms(2,3) by (cases s) (simp add: on_accept_def OnClientConnect_def accept_one_def set_conn_def WaitForClientConnection_def
        fresh_server_side_def Let_def)
  from srv_reach.accept [OF s this] show ?thesis by (simp add: accept_one_def)
qed

text \<open>
  The challenge to a second client cannot be written, so its socket is closed, but the handler of
  its pending read has still to run. A message of the first client is relayed before that.
\<close>

lemma dangling_run:
  "\<exists>s. srv_reach r (Suc d) 2 s \<and> next_ptr s = 2 \<and> dangling s 1 \<and> reads (heap s 1) = [R_Validation]"
proof -
  obtain s where s: "srv_reach r (Suc d) 1 s" "linked s 0" "reads (heap s 0) = [R_Header]" "up s 0"
    "next_ptr s = 1" "q_in s = []" "spawnpoints s \<noteq> []" "\<not> game_started s"
    using validated_run by blast
  have inv: "srv_inv 1 s" by (rule srv_reach_inv [OF s(1)]) simp
  have L: "linked s p \<longleftrightarrow> p = 0" for p
    using inv s(2,5) by (auto simp: srv_inv_def ids_ok_def)
  define s1 where "s1 = accept_one 0 s"
  have r1: "srv_reach r (Suc d) 2 s1"
    using accept_one_reach [OF s(1,7,8), of 0] by (simp add: s1_def numeral_2_eq_2)
  have h1: "heap s1 0 = heap s 0" "heap s1 1 = fresh_server_side (id_counter s) 0" "q_in s1 = []"
    "linked s1 p \<longleftrightarrow> p = 0 \<or> p = 1" for p
    using s(5,6) L by (auto simp: s1_def accept_one_def linked_def)
  define s2 where "s2 = set_conn 1 (on_WriteValidation (Some 0) (heap s1 1)) s1"
  have "srv_step (Suc d) s1 s2"
    unfolding s2_def
    by (rule srv_step.write_validation) (simp_all add: h1 referenced_def fresh_server_simps del: One_nat_def)
  then have r2: "srv_reach r (Suc d) 2 s2" by (rule srv_reach.step [OF r1])
  have h2: "heap s2 0 = heap s 0" "reads (heap s2 1) = [R_Validation]" "\<not> up s2 1" "q_in s2 = []"
    "linked s2 p \<longleftrightarrow> p = 0 \<or> p = 1" for p
    using h1 by (auto simp: s2_def set_conn_def linked_def up_def on_WriteValidation_def close_socket_def
        fresh_server_simps Let_def)
  define x where "x = \<lparr>remote = Some 0, omsg = (tmp_in (heap s 0))\<lparr>header := header (message_of StartGame)\<rparr>\<rparr>"
  define k where "k = (heap s 0)\<lparr>tmp_in := omsg x, reads := [R_Header]\<rparr>"
  have "body_size (header (message_of StartGame)) = 0" "canonical_type (msg_id (header (message_of StartGame)))"
    by (simp_all add: message_of_def new_message_def)
  then have kq: "on_ReadHeader 0 (Some (enc_header (header (message_of StartGame)))) (heap s2 0, q_in s2) = (k, [x])"
    using s(3) inv by (simp add: h2 on_ReadHeader_def dec_enc_header AddToIncomingMessageQueue_fields srv_inv_def
        k_def x_def Let_def)
  have k: "sock_open k = sock_open (heap s 0)" and x: "msg_type (omsg x) = StartGame" "remote x = Some 0"
    by (simp_all add: k_def x_def message_of_def)
  define s3 where "s3 = (set_conn 0 k s2)\<lparr>q_in := [x]\<rparr>"
  have "srv_step (Suc d) s2 s3"
    unfolding s3_def by (rule srv_step.read_header [OF _ _ kq]) (simp_all add: h2 s(3) referenced_def)
  then have r3: "srv_reach r (Suc d) 2 s3" by (rule srv_reach.step [OF r2])
  have h3: "reads (heap s3 1) = [R_Validation]" "\<not> up s3 1" "up s3 0" "q_in s3 = [x]"
    "linked s3 p \<longleftrightarrow> p = 0 \<or> p = 1" for p
    using h2 k s(4) by (auto simp: s3_def set_conn_def linked_def up_def)
  let ?t = "s3\<lparr>q_in := [], game_started := True\<rparr>"
  have "conns_ok s3" using srv_reach_inv [OF r3] by (simp add: srv_inv_conns)
  then have one: "only_lost ?t 1"
    using h3 by (auto simp: only_lost_def lost_def conns_ok_def linked_def up_def)
  obtain xs ys where xy: "deq_conns ?t = xs @ Some 1 # ys"
    using one by (meson lost_def linked_def only_lost_def split_list)
  from broadcast_one_lost [OF one _ xy, of None d "omsg x"] obtain s4 where
    b: "broadcast (Suc d) (omsg x) None ?t = Inr s4" "deq_conns s4 = xs @ ys" "game_fields s4 = game_fields ?t"
    by auto
  have "OnMessage (Suc d) (remote x) (omsg x) (s3\<lparr>q_in := []\<rparr>) = Inr s4"
    using b(1) x by (simp add: OnMessage_def on_start_game_def GetID_of_def)
  moreover have "q_in s4 = []" using q_in_eq [OF b(3)] by simp
  ultimately have "server_iteration (Suc d) s3 = Some (Inr s4)"
    using h3(4)
    by (simp add: server_iteration_def Update_def update_loop.simps IsEmpty_def PopFront_def max_size_t_def)
  then have r4: "srv_reach r (Suc d) 2 s4" by (rule srv_reach.step [OF r3 srv_step.update])
  have "retains ?t s4"
    using broadcast_evolves [OF b(1), of 2] srv_reach_inv [OF r3] dequeue_evolves [of "[]" s3 2]
      game_update_evolves(3) [of 2 "s3\<lparr>q_in := []\<rparr>" True] by (auto simp: evolves_def)
  then have "reads (heap s4 1) = [R_Validation]" using h3(1) by (simp add: retains_def static_eq)
  moreover have "\<not> referenced s4 1"
    using b(2) xy \<open>q_in s4 = []\<close> \<open>conns_ok s3\<close> by (simp add: referenced_def linked_def conns_ok_def)
  moreover have "next_ptr s4 = 2"
    using b(3) s(5) by (simp add: game_fields_def s3_def s2_def s1_def accept_one_def set_conn_def)
  ultimately show ?thesis using r4 by (auto simp: dangling_def)
qed

text \<open>C12: A handler can outlive its connection. The lambdas given to asio capture \<open>this\<close> and keep no
  shared pointer. From the start, with two clients accepted (pointers 0 and 1), the server reaches a
  state in which no entry of the deque and no waiting message refers to the second connection any
  more, so that it is destroyed, while the handler of its \<open>ReadValidation\<close> has still to run, on a
  connection that does not exist.\<close>

theorem handler_outlives_connection:
  "\<exists>s. srv_reach r (Suc d) 2 s \<and> next_ptr s = 2 \<and> \<not> referenced s 1 \<and> reads (heap s 1) = [R_Validation]"
  using dangling_run unfolding dangling_def by blast

section \<open>Players and connections\<close>

text \<open>C10: In every state the server reaches with fewer than 2^32 approvals (identifiers are 32 bits
  wide), by any sequence of accepts, validations, completed reads and writes, posted lambdas and main
  loop iterations in which no handler runs on a connection that is gone (there the behaviour is
  undefined), every entry of \<open>players\<close> belongs to exactly one connection of the deque, no identifier
  occurs twice, and a connection of the deque whose messages are being read has a player.\<close>

theorem server_players_are_connections:
  assumes "srv_reach r d n s" "n < 2 ^ 32"
  shows "distinct (map fst (players s))
    \<and> (\<forall>(i, pl)\<in>set (players s). \<exists>!p. linked s p \<and> conn_id (heap s p) = i)
    \<and> (\<forall>p. linked s p \<longrightarrow> reading (heap s p)
         \<longrightarrow> (\<exists>pl. map_of (players s) (conn_id (heap s p)) = Some pl))"
proof (intro conjI ballI allI impI)
  note inv = srv_reach_inv [OF assms, unfolded srv_inv_def]
  show "distinct (map fst (players s))" using inv by blast
  show "case x of (i, pl) \<Rightarrow> \<exists>!p. linked s p \<and> conn_id (heap s p) = i" if "x \<in> set (players s)" for x
  proof -
    obtain i pl where x: "x = (i, pl)" by (cases x)
    with that have "registered s i" by (force simp: registered_def)
    then obtain p where p: "linked s p" "conn_id (heap s p) = i" using inv by blast
    have "q = p" if "linked s q" "conn_id (heap s q) = i" for q
      using inv p that unfolding ids_ok_def conns_ok_def by blast
    with p show ?thesis unfolding x by auto
  qed
  show "\<exists>pl. map_of (players s) (conn_id (heap s p)) = Some pl"
    if "linked s p" "reading (heap s p)" for p
  proof -
    have "registered s (conn_id (heap s p))" using inv that by blast
    then show ?thesis
      by (simp add: registered_def flip: dom_map_of_conv_image_fst) blast
  qed
qed

theorem server_players_are_connections_witness:
  "\<exists>s. srv_reach (sconst 3) 0 1 s \<and> linked s 0
    \<and> (\<exists>pl. map_of (players s) (conn_id (heap s 0)) = Some pl)"
proof -
  obtain s where s: "srv_reach (sconst 3) 0 1 s" "linked s 0" "reading (heap s 0)"
    using validated_run by blast
  with server_players_are_connections [OF s(1)] show ?thesis by auto
qed

section \<open>No lookup of a missing player\<close>

lemma broadcast_error:
  assumes "conns_ok s" "broadcast d m ign s = Inl e"
  shows "e = Stack_Overflow"
proof -
  have first: "broadcast 0 m ign s = Inl Stack_Overflow" if "lost s q" "Some q \<noteq> ign" for q
    unfolding broadcast_def using assms(1) that by (intro MessageAllClients_first_lost [of s q]) auto
  show ?thesis
    using assms(1)
  proof (cases rule: lost_cases)
    case 1
    with assms show ?thesis by (simp add: broadcast_up)
  next
    case (2 q)
    show ?thesis
    proof (cases "ign = Some q")
      case True
      with assms only_lost_all_up [OF 2] show ?thesis by (simp add: broadcast_up)
    next
      case ign: False
      obtain xs ys where xy: "deq_conns s = xs @ Some q # ys"
        using 2 by (meson lost_def linked_def only_lost_def split_list)
      show ?thesis
      proof (cases d)
        case 0
        then show ?thesis using first [of q] 2 ign assms(2) by (simp add: only_lost_def)
      next
        case (Suc e)
        then show ?thesis
          using dc.broadcast_single [OF 2 ign xy, of e m] assms(2) by (simp add: broadcast_def)
      qed
    qed
  next
    case 3
    then obtain a where "lost s a" "Some a \<noteq> ign"
      unfolding two_lost_def by (metis option.inject)
    then show ?thesis
      using first [of a] dc.broadcast_many [OF 3] assms(2)
      by (cases d) (simp_all add: broadcast_def)
  qed
qed

lemma broadcast_in_range: "conns_ok s \<Longrightarrow> broadcast d m ign s \<noteq> Inl Out_Of_Range"
  using broadcast_error by blast

lemma ebind_in_range:
  "m \<noteq> Inl Out_Of_Range \<Longrightarrow> (\<And>x. m = Inr x \<Longrightarrow> f x \<noteq> Inl Out_Of_Range)
    \<Longrightarrow> ebind m f \<noteq> Inl Out_Of_Range"
  by (cases m) simp_all

lemma get_in_range: "get dec sz m \<noteq> Inl Out_Of_Range"
  by (simp add: get_def msg_pop_def Let_def)

lemma get_front_in_range: "get_front dec sz n acc m \<noteq> Inl Out_Of_Range"
proof (induction n arbitrary: acc m)
  case (Suc n)
  show ?case
    unfolding get_front.simps by (intro ebind_in_range get_in_range) (auto simp: Suc)
qed simp

lemma any_hit_in_range: "h \<noteq> Inl Out_Of_Range \<Longrightarrow> any_hit h ps \<noteq> Inl Out_Of_Range"
proof (induction ps)
  case (Cons p ps)
  then show ?case unfolding any_hit.simps by (intro ebind_in_range) simp_all
qed simp

lemma collides_in_range: "h \<noteq> Inl Out_Of_Range \<Longrightarrow> collides c h pls \<noteq> Inl Out_Of_Range"
proof (induction c h pls rule: collides.induct)
  case (2 c h cid pl rest)
  show ?case
    unfolding collides.simps
    by (intro ebind_in_range) (simp_all add: any_hit_in_range 2)
qed simp

lemma head_of_in_range: "head_of s c \<noteq> Inl Out_Of_Range"
  by (simp add: head_of_def front_of_def split: option.splits list.splits)

lemma PlayerCollision_in_range: "conns_ok s \<Longrightarrow> PlayerCollision d c s \<noteq> Inl Out_Of_Range"
  unfolding PlayerCollision_def
  by (intro ebind_in_range collides_in_range head_of_in_range)
     (simp add: SendKillMessage_def broadcast_in_range)

lemma mark_all_in_range: "mark_all cs a \<noteq> Inl Out_Of_Range"
proof (induction cs arbitrary: a)
  case (Cons c cs)
  show ?case
    unfolding mark_all.simps
    by (intro ebind_in_range) (simp_all add: Cons mark_cell_def split_beta)
qed simp

lemma GeneratePowerup_in_range: "conns_ok s \<Longrightarrow> GeneratePowerup d s \<noteq> Inl Out_Of_Range"
  unfolding GeneratePowerup_def GetFreeGrid_def
  by (intro ebind_in_range mark_all_in_range) (simp_all add: Let_def broadcast_in_range conns_ok_def)

lemma on_update_player_in_range:
  assumes "srv_inv n s" "linked s p" "registered s (conn_id (heap s p))"
  shows "on_update_player d (Some p) m s \<noteq> Inl Out_Of_Range"
proof -
  have ok: "conns_ok s" using assms(1) by (simp add: srv_inv_def ids_ok_def)
  have found: "\<exists>pl. map_of (players u) (conn_id (heap u p)) = Some pl" and ok': "conns_ok u"
    if u: "broadcast d m (Some p) s = Inr u" for u
  proof -
    show "conns_ok u"
      using evolves_inv [OF broadcast_evolves [OF u] assms(1)] by (rule srv_inv_conns)
    have ne: "conn_id (heap s p) \<noteq> conn_id (heap s q)" if "only_lost s q" "Some p \<noteq> Some q" for q
    proof -
      have "linked s q" "q \<noteq> p" using that by (auto simp: only_lost_def lost_def)
      then show ?thesis
        using assms(1,2) unfolding srv_inv_def ids_ok_def by metis
    qed
    have same: "conn_id (heap u p) = conn_id (heap s p)"
      using broadcast_effect [OF ok u] by (simp add: static_eq)
    have "players u = players s \<or> (\<exists>q. only_lost s q \<and> Some p \<noteq> Some q
        \<and> players u = AList.delete (conn_id (heap s q)) (players s))"
      using broadcast_effect [OF ok u] by blast
    then have "registered u (conn_id (heap s p))"
    proof
      assume "players u = players s"
      then show ?thesis using assms(3) by (simp add: registered_def)
    next
      assume "\<exists>q. only_lost s q \<and> Some p \<noteq> Some q
        \<and> players u = AList.delete (conn_id (heap s q)) (players s)"
      then obtain q where q: "only_lost s q" "Some p \<noteq> Some q"
        and pl: "players u = AList.delete (conn_id (heap s q)) (players s)" by blast
      show ?thesis using assms(3) ne [OF q] by (auto simp: registered_def pl AList.delete_eq)
    qed
    then have "registered u (conn_id (heap u p))" unfolding same .
    then show "\<exists>pl. map_of (players u) (conn_id (heap u p)) = Some pl"
      by (simp add: registered_def flip: dom_map_of_conv_image_fst) blast
  qed
  show ?thesis
    unfolding on_update_player_def
  proof (rule ebind_in_range [OF broadcast_in_range [OF ok]])
    fix u
    assume u: "broadcast d m (Some p) s = Inr u"
    obtain pl where "map_of (players u) (conn_id (heap u p)) = Some pl"
      using found [OF u] by blast
    with ok' [OF u]
    show "ebind (get dec_u32 4 m) (\<lambda>(clientID, m1). ebind (GetID_of u (Some p)) (\<lambda>cid.
        case map_of (players u) cid of None \<Rightarrow> Inl Out_Of_Range
        | Some pl \<Rightarrow> ebind (get dec_dir 4 m1) (\<lambda>(dir, m2). ebind (get dec_u64 8 m2) (\<lambda>(n, m3).
          ebind (get_front dec_pos 8 (unat n) [] m3) (\<lambda>(tl, m4). PlayerCollision d clientID
            (u\<lparr>players := AList.update cid (pl\<lparr>pd_direction := dir, pd_tail := tl\<rparr>) (players u)\<rparr>))))))
      \<noteq> Inl Out_Of_Range"
      by (simp add: GetID_of_def GetID_def)
         (unfold split_beta, intro impI ebind_in_range get_in_range get_front_in_range
           PlayerCollision_in_range, simp)
  qed
qed

text \<open>C11: In every state the server reaches with fewer than 2^32 approvals, as in the property before,
  a message of a connection that is in the deque and whose messages are being read never makes \<open>OnMessage\<close> throw \<open>std::out_of_range\<close>, whatever its type and its
  contents: \<open>players.at\<close> finds the sender's player, even if relaying the message removes another
  client. For a waiting message of a connection that has been erased it does throw.\<close>

theorem OnMessage_finds_player:
  assumes "srv_reach r d n s" "n < 2 ^ 32" "linked s p" "reading (heap s p)"
  shows "OnMessage d (Some p) m s \<noteq> Inl Out_Of_Range"
proof -
  have inv: "srv_inv n s" by (rule srv_reach_inv [OF assms(1,2)])
  then have reg: "registered s (conn_id (heap s p))" and ok: "conns_ok s"
    using assms(3,4) by (auto simp: srv_inv_def ids_ok_def)
  have kept: "conns_ok t" if "DeletePowerup d w c s = Inr t" for w c t
    using evolves_inv [OF DeletePowerup_evolves [OF that] inv] by (rule srv_inv_conns)
  have "on_powerup_eaten d (Some p) m s \<noteq> Inl Out_Of_Range"
    unfolding on_powerup_eaten_def GetID_of_def split_beta
  proof (intro ebind_in_range get_in_range)
    show "DeletePowerup d w c s \<noteq> Inl Out_Of_Range" for w c
      by (simp add: DeletePowerup_def Let_def ok broadcast_in_range)
  qed (use kept GeneratePowerup_in_range in auto)
  moreover have "on_start_game d (Some p) m s \<noteq> Inl Out_Of_Range"
    using ok by (simp add: on_start_game_def GetID_of_def broadcast_in_range)
  ultimately show ?thesis
    using on_update_player_in_range [OF inv assms(3) reg]
    by (simp add: OnMessage_def split: message_type.split)
qed

theorem OnMessage_finds_player_witness:
  "\<exists>s. srv_reach (sconst 3) 0 1 s \<and> (\<forall>m. OnMessage 0 (Some 0) m s \<noteq> Inl Out_Of_Range)"
proof -
  obtain s where s: "srv_reach (sconst 3) 0 1 s" "linked s 0" "reading (heap s 0)"
    using validated_run by blast
  with OnMessage_finds_player [OF s(1)] show ?thesis by auto
qed

end
