(* ===== verification/Server_Race.thy ===== *)
theory Server_Race
  imports Server_Disconnect
begin

text \<open>
  The two threads of the server on \<open>m_deqConnections\<close>: the main thread in the range-for of
  \<open>MessageAllClients\<close> (\<open>Networking/server.h\<close>), iteration by iteration, and the thread of asio, which
  appends an accepted connection to the same deque. There is no lock. Left alone, the iterations
  are \<open>MessageAllClients\<close>; an accept between any two of them invalidates the iterators.
\<close>

section \<open>The range-for, step by step\<close>

text \<open>The iterators as positions; \<open>rf_valid\<close>: the deque has not been changed since \<open>begin()\<close>.\<close>

record range_for =
  rf_msg :: message
  rf_ignore :: "nat option"
  rf_pos :: nat
  rf_end :: nat
  rf_invalid_client :: bool
  rf_valid :: bool

definition for_begin :: "message \<Rightarrow> nat option \<Rightarrow> 'a net_server_scheme \<Rightarrow> range_for" where
  "for_begin msg ignore s = \<lparr>rf_msg = msg, rf_ignore = ignore, rf_pos = 0,
     rf_end = length (deq_conns s), rf_invalid_client = False, rf_valid = True\<rparr>"

text \<open>The loop test and one iteration, or what follows the loop (\<open>None\<close>: it has returned).\<close>

definition for_step :: "'a net_server_scheme disconnect_fn \<Rightarrow> 'a net_server_scheme \<times> range_for
    \<Rightarrow> ('a net_server_scheme \<times> range_for option) res" where
  "for_step disc sf =
     (let (s, f) = sf; next = f\<lparr>rf_pos := rf_pos f + 1\<rparr> in
      if \<not> rf_valid f then Inl Iterator_Invalid
      else if rf_pos f = rf_end f then Inr (if rf_invalid_client f then erase_null s else s, None)
      else
        let client = deq_conns s ! rf_pos f in
        if client = rf_ignore f then Inr (s, Some next)
        else if is_connected s client then Inr (send_to (the client) (rf_msg f) s, Some next)
        else ebind (disc client s) (\<lambda>s'.
          if length (deq_conns s') \<noteq> length (deq_conns s) then Inl Iterator_Invalid
          else Inr (s'\<lparr>deq_conns := (deq_conns s')[rf_pos f := None]\<rparr>,
            Some (next\<lparr>rf_invalid_client := True\<rparr>))))"

fun for_steps :: "'a net_server_scheme disconnect_fn \<Rightarrow> nat \<Rightarrow> 'a net_server_scheme \<times> range_for
    \<Rightarrow> ('a net_server_scheme \<times> range_for option) res" where
  "for_steps disc 0 sf = Inr (fst sf, Some (snd sf))"
| "for_steps disc (Suc n) sf = ebind (for_step disc sf) (\<lambda>(s, r).
     case r of None \<Rightarrow> Inr (s, None) | Some f \<Rightarrow> for_steps disc n (s, f))"

text \<open>The thread of asio runs its accept handler between two iterations.\<close>

definition accept_during :: "(nat \<Rightarrow> 'a net_server_scheme \<Rightarrow> bool res) \<Rightarrow> bool \<Rightarrow> bool \<Rightarrow> u64
    \<Rightarrow> 'a net_server_scheme \<times> range_for \<Rightarrow> ('a net_server_scheme \<times> range_for) res" where
  "accept_during connect ec remote_ok now sf =
     ebind (on_accept connect ec remote_ok now (fst sf)) (\<lambda>s.
       Inr (s, (snd sf)\<lparr>rf_valid := rf_valid (snd sf)
         \<and> length (deq_conns s) = length (deq_conns (fst sf))\<rparr>))"

section \<open>Left alone, the steps are MessageAllClients\<close>

lemma for_steps_mac:
  assumes "rf_valid f" "rf_pos f + n \<le> rf_end f"
  shows "for_steps disc n (s, f) =
    ebind (mac_loop disc (rf_msg f) (rf_ignore f) [rf_pos f ..< rf_pos f + n] (rf_invalid_client f) s)
      (\<lambda>(s', inv). Inr (s', Some (f\<lparr>rf_pos := rf_pos f + n, rf_invalid_client := inv\<rparr>)))"
  using assms
proof (induction n arbitrary: s f)
  case (Suc n)
  have u: "[rf_pos f ..< rf_pos f + Suc n] = rf_pos f # [Suc (rf_pos f) ..< Suc (rf_pos f) + n]"
    by (simp add: upt_conv_Cons)
  have ih: "for_steps disc n (s', f\<lparr>rf_pos := Suc (rf_pos f), rf_invalid_client := b\<rparr>) =
    ebind (mac_loop disc (rf_msg f) (rf_ignore f) [Suc (rf_pos f) ..< Suc (rf_pos f) + n] b s')
      (\<lambda>(s', inv). Inr (s', Some (f\<lparr>rf_pos := Suc (rf_pos f) + n, rf_invalid_client := inv\<rparr>)))" for s' b
    using Suc.IH [of "f\<lparr>rf_pos := Suc (rf_pos f), rf_invalid_client := b\<rparr>" s'] Suc.prems by simp
  have f: "f\<lparr>rf_pos := Suc (rf_pos f)\<rparr>
      = f\<lparr>rf_pos := Suc (rf_pos f), rf_invalid_client := rf_invalid_client f\<rparr>" by simp
  show ?case
    unfolding u
    using Suc.prems
    by (simp add: for_step_def Let_def ih [of _ "rf_invalid_client f", folded f] ih ebind_assoc
        if_distrib [where f = "\<lambda>x. ebind x _"] cong: if_cong)
qed simp

lemma for_steps_append:
  "for_steps disc (n + k) sf = ebind (for_steps disc n sf) (\<lambda>(s, r).
     case r of None \<Rightarrow> Inr (s, None) | Some f \<Rightarrow> for_steps disc k (s, f))"
proof (induction n arbitrary: sf)
  case (Suc n)
  then show ?case
    by (cases "for_step disc sf") (auto split: option.splits prod.splits)
qed simp

lemma for_steps_all:
  "for_steps disc (length (deq_conns s) + 1) (s, for_begin m ign s)
     = ebind (MessageAllClients disc m ign s) (\<lambda>s'. Inr (s', None))"
proof -
  let ?n = "length (deq_conns s)" and ?f = "for_begin m ign s"
  have f: "rf_valid ?f" "rf_pos ?f = 0" "rf_end ?f = ?n" "rf_msg ?f = m" "rf_ignore ?f = ign"
    "\<not> rf_invalid_client ?f"
    by (simp_all add: for_begin_def)
  have "for_steps disc ?n (s, ?f) = ebind (mac_loop disc m ign [0 ..< ?n] False s)
      (\<lambda>(s', inv). Inr (s', Some (?f\<lparr>rf_pos := ?n, rf_invalid_client := inv\<rparr>)))"
    using for_steps_mac [of ?f ?n disc s] f by simp
  moreover have "for_steps disc 1 (s', ?f\<lparr>rf_pos := ?n, rf_invalid_client := inv\<rparr>)
      = Inr (if inv then erase_null s' else s', None)" for s' inv
    by (simp add: for_step_def f)
  ultimately show ?thesis
    unfolding for_steps_append MessageAllClients_def
    by (simp add: ebind_assoc case_prod_beta)
qed

section \<open>An accept in between\<close>

lemma for_steps_up:
  assumes "conns_ok s" "all_up s ign" "k \<le> length (deq_conns s)"
  shows "for_steps disc k (s, for_begin m ign s)
    = Inr (bcast m (\<lambda>p. Some p \<noteq> ign \<and> Some p \<in> set (take k (deq_conns s))) s,
        Some ((for_begin m ign s)\<lparr>rf_pos := k\<rparr>))"
proof -
  let ?f = "for_begin m ign s"
  have f: "rf_valid ?f" "rf_pos ?f = 0" "rf_end ?f = length (deq_conns s)" "rf_msg ?f = m"
    "rf_ignore ?f = ign" "rf_invalid_client ?f = False"
    by (simp_all add: for_begin_def)
  have t: "map (\<lambda>i. deq_conns s ! i) [0 ..< k] = take k (deq_conns s)"
    using assms(3) by (intro nth_equalityI) auto
  then have im: "(\<lambda>i. deq_conns s ! i) ` set [0 ..< k] = set (take k (deq_conns s))"
    by (metis set_map)
  have d: "distinct (map (\<lambda>i. deq_conns s ! i) [0 ..< k])"
    using assms(1) unfolding t by (simp add: conns_ok_def)
  have c: "\<forall>i \<in> set [0 ..< k]. deq_conns s ! i \<noteq> ign \<longrightarrow> is_connected s (deq_conns s ! i)"
    using assms(2,3) by (auto simp: all_up_def)
  have "mac_loop disc m ign [0 ..< k] False s
      = Inr (bcast m (\<lambda>p. Some p \<noteq> ign \<and> Some p \<in> set (take k (deq_conns s))) s, False)"
    using mac_loop_up [OF c d, of disc m False] im by simp
  then show ?thesis
    using for_steps_mac [of ?f k disc s] f assms(3) by (simp add: for_begin_def)
qed

lemma accept_appends:
  assumes "connect (next_ptr s) (set_conn (next_ptr s) (new_connection O_Server True now)
      (s\<lparr>accepting := False, next_ptr := Suc (next_ptr s)\<rparr>)) = Inr True"
  shows "\<exists>s'. on_accept connect False True now s = Inr s'
    \<and> deq_conns s' = deq_conns s @ [Some (next_ptr s)]"
  using assms by (simp add: on_accept_def Let_def set_conn_def WaitForClientConnection_def)

text \<open>C13: The two threads of the server race on the deque of connections. With every connection but
  the ignored one up, and left alone, the iterations of \<open>MessageAllClients\<close> send the message to
  each of them. But if the thread of asio accepts a client, while the game has not started, after any
  number of iterations, even after the last one and before the loop test, then the next use of an
  iterator is undefined behaviour; no lock keeps the two threads apart.\<close>

theorem broadcast_races_with_accept:
  assumes "conns_ok s" "all_up s ign" "spawnpoints s \<noteq> []" "\<not> game_started s"
    and "k \<le> length (deq_conns s)"
  shows "for_steps (OnClientDisconnect d) (length (deq_conns s) + 1) (s, for_begin m ign s)
      = Inr (bcast m (\<lambda>p. linked s p \<and> Some p \<noteq> ign) s, None)
    \<and> (\<exists>s1 f1 s2 f2. for_steps (OnClientDisconnect d) k (s, for_begin m ign s) = Inr (s1, Some f1)
      \<and> accept_during (OnClientConnect True) False True now (s1, f1) = Inr (s2, f2)
      \<and> for_step (OnClientDisconnect d) (s2, f2) = Inl Iterator_Invalid)"
proof
  show "for_steps (OnClientDisconnect d) (length (deq_conns s) + 1) (s, for_begin m ign s)
      = Inr (bcast m (\<lambda>p. linked s p \<and> Some p \<noteq> ign) s, None)"
    unfolding for_steps_all by (simp add: MessageAllClients_up [OF assms(1,2)])
  let ?s = "bcast m (\<lambda>p. Some p \<noteq> ign \<and> Some p \<in> set (take k (deq_conns s))) s"
  let ?f = "(for_begin m ign s)\<lparr>rf_pos := k\<rparr>"
  obtain s2 where s2: "on_accept (OnClientConnect True) False True now ?s = Inr s2"
    "deq_conns s2 = deq_conns ?s @ [Some (next_ptr ?s)]"
    using accept_appends [of "OnClientConnect True" ?s now] assms(3,4)
    by (auto simp: OnClientConnect_def set_conn_def bcast_def)
  then have "accept_during (OnClientConnect True) False True now (?s, ?f) = Inr (s2, ?f\<lparr>rf_valid := False\<rparr>)"
    by (simp add: accept_during_def)
  moreover have "for_step (OnClientDisconnect d) (s2, ?f\<lparr>rf_valid := False\<rparr>) = Inl Iterator_Invalid"
    by (simp add: for_step_def)
  ultimately show "\<exists>s1 f1 s2 f2. for_steps (OnClientDisconnect d) k (s, for_begin m ign s) = Inr (s1, Some f1)
      \<and> accept_during (OnClientConnect True) False True now (s1, f1) = Inr (s2, f2)
      \<and> for_step (OnClientDisconnect d) (s2, f2) = Inl Iterator_Invalid"
    using for_steps_up [OF assms(1,2,5), of "OnClientDisconnect d" m] by blast
qed

theorem broadcast_races_with_accept_witness:
  "\<exists>s1 f1 s2 f2. for_steps (OnClientDisconnect 1) 1
      (sample_server True, for_begin (message_of StartGame) None (sample_server True)) = Inr (s1, Some f1)
    \<and> accept_during (OnClientConnect True) False True 0 (s1, f1) = Inr (s2, f2)
    \<and> for_step (OnClientDisconnect 1) (s2, f2) = Inl Iterator_Invalid"
  using broadcast_races_with_accept [OF sample_server_up(3) sample_server_up(4), where k = 1 and d = 1
      and m = "message_of StartGame" and now = 0]
  by (simp add: sample_server_def)

end
