(* ===== verification/Asio_Buffers.thy ===== *)
theory Asio_Buffers
  imports Prelude
begin

text \<open>
  \<open>asio/buffer.hpp\<close>: buffers, their arithmetic, and \<open>buffer_copy\<close> between sequences of buffers.
  Memory is a function from addresses to bytes. \<open>mutable_buffer\<close> and \<open>const_buffer\<close> have the same
  members and the same code, so one record models both. A buffer sequence is a list, an iterator
  into it the list of the buffers from there on. The main results say which bytes \<open>buffer_copy\<close>
  moves where.
\<close>

section \<open>Buffers\<close>

type_synonym memory = "nat \<Rightarrow> byte"

record buffer =
  b_data :: nat
  b_size :: nat

definition empty_buffer :: buffer where
  "empty_buffer = \<lparr>b_data = 0, b_size = 0\<rparr>"

definition make_buffer :: "nat \<Rightarrow> nat \<Rightarrow> buffer" where
  "make_buffer p n = \<lparr>b_data = p, b_size = n\<rparr>"

text \<open>\<open>operator+=\<close>, \<open>operator+\<close> (both argument orders) and \<open>buffer(b, max_size)\<close>.\<close>

definition buffer_advance :: "buffer \<Rightarrow> nat \<Rightarrow> buffer" where
  "buffer_advance b n =
     (let offset = (if n < b_size b then n else b_size b)
      in b\<lparr>b_data := b_data b + offset, b_size := b_size b - offset\<rparr>)"

definition buffer_plus :: "buffer \<Rightarrow> nat \<Rightarrow> buffer" where
  "buffer_plus b n =
     (let offset = (if n < b_size b then n else b_size b);
          new_data = b_data b + offset;
          new_size = b_size b - offset
      in make_buffer new_data new_size)"

definition plus_buffer :: "nat \<Rightarrow> buffer \<Rightarrow> buffer" where
  "plus_buffer n b = buffer_plus b n"

definition buffer_limit :: "buffer \<Rightarrow> nat \<Rightarrow> buffer" where
  "buffer_limit b max_size_in_bytes =
     make_buffer (b_data b) (if b_size b < max_size_in_bytes then b_size b else max_size_in_bytes)"

text \<open>\<open>buffer(data)\<close> and \<open>buffer(data, max)\<close> of a vector of \<open>n\<close> elements of \<open>sz\<close> bytes at \<open>p\<close>.\<close>

definition vector_buffer :: "nat \<Rightarrow> nat \<Rightarrow> nat \<Rightarrow> buffer" where
  "vector_buffer sz p n = make_buffer (if n \<noteq> 0 then p else 0) (n * sz)"

definition vector_buffer_max :: "nat \<Rightarrow> nat \<Rightarrow> nat \<Rightarrow> nat \<Rightarrow> buffer" where
  "vector_buffer_max sz p n max_size =
     make_buffer (if n \<noteq> 0 then p else 0) (if n * sz < max_size then n * sz else max_size)"

section \<open>Sizes\<close>

definition buffer_size_one :: "buffer list \<Rightarrow> nat" where
  "buffer_size_one bs = b_size (hd bs)"

primrec buffer_size_loop :: "buffer list \<Rightarrow> nat \<Rightarrow> nat" where
  "buffer_size_loop [] cnt = cnt"
| "buffer_size_loop (b # bs) cnt = buffer_size_loop bs (cnt + b_size b)"

definition buffer_size_many :: "buffer list \<Rightarrow> nat" where
  "buffer_size_many bs = buffer_size_loop bs 0"

text \<open>\<open>cardinality\<close>: the sequence type is a single buffer, or several.\<close>

datatype cardinality = One_Buffer | Multiple_Buffers

definition buffer_size :: "cardinality \<Rightarrow> buffer list \<Rightarrow> nat" where
  "buffer_size c bs = (case c of One_Buffer \<Rightarrow> buffer_size_one bs
     | Multiple_Buffers \<Rightarrow> buffer_size_many bs)"

text \<open>\<open>sized c bs\<close>: the list is one a sequence of this cardinality can have.\<close>

definition sized :: "cardinality \<Rightarrow> buffer list \<Rightarrow> bool" where
  "sized c bs \<longleftrightarrow> (c = One_Buffer \<longrightarrow> length bs = 1)"

section \<open>Copying\<close>

definition memcpy :: "nat \<Rightarrow> nat \<Rightarrow> nat \<Rightarrow> memory \<Rightarrow> memory" where
  "memcpy dst src n m = (\<lambda>a. if dst \<le> a \<and> a < dst + n then m (src + (a - dst)) else m a)"

definition buffer_copy_1 :: "buffer \<Rightarrow> buffer \<Rightarrow> memory \<Rightarrow> memory \<times> nat" where
  "buffer_copy_1 target source m =
     (let target_size = b_size target;
          source_size = b_size source;
          n = (if target_size < source_size then target_size else source_size)
      in (if n > 0 then memcpy (b_data target) (b_data source) n m else m, n))"

text \<open>The six overloads. \<open>one_one\<close>, \<open>one_many\<close>, \<open>many_one\<close>, \<open>many_many\<close> by the cardinalities of
  target and source, \<open>_max\<close> with a limit. The loops return what they copy from where they are.\<close>

definition copy_one_one :: "buffer list \<Rightarrow> buffer list \<Rightarrow> memory \<Rightarrow> memory \<times> nat" where
  "copy_one_one ts ss m = buffer_copy_1 (hd ts) (hd ss) m"

definition copy_one_one_max :: "buffer list \<Rightarrow> buffer list \<Rightarrow> nat \<Rightarrow> memory \<Rightarrow> memory \<times> nat" where
  "copy_one_one_max ts ss lim m = buffer_copy_1 (hd ts) (buffer_limit (hd ss) lim) m"

primrec one_many_loop :: "buffer list \<Rightarrow> buffer \<Rightarrow> nat \<Rightarrow> memory \<Rightarrow> memory \<times> nat" where
  "one_many_loop [] target cnt m = (m, cnt)"
| "one_many_loop (s # ss) target cnt m =
     (if b_size target \<noteq> 0 then
        let (m', n) = buffer_copy_1 target s m
        in one_many_loop ss (buffer_advance target n) (cnt + n) m'
      else (m, cnt))"

definition copy_one_many :: "buffer list \<Rightarrow> buffer list \<Rightarrow> nat \<Rightarrow> memory \<Rightarrow> memory \<times> nat" where
  "copy_one_many ts ss lim m = one_many_loop ss (buffer_limit (hd ts) lim) 0 m"

primrec many_one_loop :: "buffer list \<Rightarrow> buffer \<Rightarrow> nat \<Rightarrow> memory \<Rightarrow> memory \<times> nat" where
  "many_one_loop [] source cnt m = (m, cnt)"
| "many_one_loop (t # ts) source cnt m =
     (if b_size source \<noteq> 0 then
        let (m', n) = buffer_copy_1 t source m
        in many_one_loop ts (buffer_advance source n) (cnt + n) m'
      else (m, cnt))"

definition copy_many_one :: "buffer list \<Rightarrow> buffer list \<Rightarrow> nat \<Rightarrow> memory \<Rightarrow> memory \<times> nat" where
  "copy_many_one ts ss lim m = many_one_loop ts (buffer_limit (hd ss) lim) 0 m"

function many_many_loop :: "buffer list \<Rightarrow> nat \<Rightarrow> buffer list \<Rightarrow> nat \<Rightarrow> nat \<Rightarrow> memory
    \<Rightarrow> memory \<times> nat" where
  "many_many_loop (t # ts) toff (s # ss) soff cnt m =
     (let target = buffer_plus t toff;
          source = buffer_plus s soff;
          (m', n) = buffer_copy_1 target source m;
          (ts', toff') = (if n = b_size target then (ts, 0) else (t # ts, toff + n));
          (ss', soff') = (if n = b_size source then (ss, 0) else (s # ss, soff + n))
      in many_many_loop ts' toff' ss' soff' (cnt + n) m')"
| "many_many_loop [] toff ss soff cnt m = (m, cnt)"
| "many_many_loop ts toff [] soff cnt m = (m, cnt)"
  by pat_completeness auto
termination
  by (relation "measure (\<lambda>(ts, toff, ss, soff, cnt, m). length ts + length ss)")
     (auto simp: buffer_copy_1_def Let_def split: if_splits)

definition copy_many_many :: "buffer list \<Rightarrow> buffer list \<Rightarrow> memory \<Rightarrow> memory \<times> nat" where
  "copy_many_many ts ss m = many_many_loop ts 0 ss 0 0 m"

text \<open>With a limit; \<open>left\<close> is \<open>max_bytes_to_copy - total_bytes_copied\<close>.\<close>

function many_many_max_loop :: "nat \<Rightarrow> buffer list \<Rightarrow> nat \<Rightarrow> buffer list \<Rightarrow> nat \<Rightarrow> nat \<Rightarrow> memory
    \<Rightarrow> memory \<times> nat" where
  "many_many_max_loop left ts toff ss soff cnt m =
     (if left = 0 \<or> ts = [] \<or> ss = [] then (m, cnt)
      else
        let target = buffer_plus (hd ts) toff;
            source = buffer_plus (hd ss) soff;
            (m', n) = buffer_copy_1 target (buffer_limit source left) m;
            (ts', toff') = (if n = b_size target then (tl ts, 0) else (ts, toff + n));
            (ss', soff') = (if n = b_size source then (tl ss, 0) else (ss, soff + n))
        in many_many_max_loop (left - n) ts' toff' ss' soff' (cnt + n) m')"
  by pat_completeness auto
termination
  by (relation "measure (\<lambda>(left, ts, toff, ss, soff, cnt, m). left + length ts + length ss)")
     (auto simp: buffer_copy_1_def buffer_limit_def make_buffer_def Let_def neq_Nil_conv
        split: if_splits)

definition copy_many_many_max :: "buffer list \<Rightarrow> buffer list \<Rightarrow> nat \<Rightarrow> memory \<Rightarrow> memory \<times> nat" where
  "copy_many_many_max ts ss lim m = many_many_max_loop lim ts 0 ss 0 0 m"

text \<open>\<open>buffer_copy(target, source)\<close> and \<open>buffer_copy(target, source, max)\<close>; the default limit of the
  overloads with one single buffer is the largest \<open>size_t\<close>.\<close>

definition size_t_max :: nat where
  "size_t_max = 2 ^ 64 - 1"

definition buffer_copy :: "cardinality \<Rightarrow> cardinality \<Rightarrow> buffer list \<Rightarrow> buffer list \<Rightarrow> memory
    \<Rightarrow> memory \<times> nat" where
  "buffer_copy ct cs ts ss m =
     (case (ct, cs) of
        (One_Buffer, One_Buffer) \<Rightarrow> copy_one_one ts ss m
      | (One_Buffer, Multiple_Buffers) \<Rightarrow> copy_one_many ts ss size_t_max m
      | (Multiple_Buffers, One_Buffer) \<Rightarrow> copy_many_one ts ss size_t_max m
      | (Multiple_Buffers, Multiple_Buffers) \<Rightarrow> copy_many_many ts ss m)"

definition buffer_copy_max :: "cardinality \<Rightarrow> cardinality \<Rightarrow> buffer list \<Rightarrow> buffer list \<Rightarrow> nat
    \<Rightarrow> memory \<Rightarrow> memory \<times> nat" where
  "buffer_copy_max ct cs ts ss lim m =
     (case (ct, cs) of
        (One_Buffer, One_Buffer) \<Rightarrow> copy_one_one_max ts ss lim m
      | (One_Buffer, Multiple_Buffers) \<Rightarrow> copy_one_many ts ss lim m
      | (Multiple_Buffers, One_Buffer) \<Rightarrow> copy_many_one ts ss lim m
      | (Multiple_Buffers, Multiple_Buffers) \<Rightarrow> copy_many_many_max ts ss lim m)"

section \<open>Addresses\<close>

definition addrs :: "buffer \<Rightarrow> nat list" where
  "addrs b = [b_data b..<b_data b + b_size b]"

definition addr_list :: "buffer list \<Rightarrow> nat list" where
  "addr_list bs = concat (map addrs bs)"

definition contents :: "memory \<Rightarrow> buffer list \<Rightarrow> byte list" where
  "contents m bs = map m (addr_list bs)"

lemma addr_list_simps [simp]:
  "addr_list [] = []" "addr_list (b # bs) = addrs b @ addr_list bs"
  "addr_list (bs @ cs) = addr_list bs @ addr_list cs"
  by (simp_all add: addr_list_def)

lemma length_addrs [simp]: "length (addrs b) = b_size b"
  by (simp add: addrs_def)

lemma addrs_empty [simp]: "b_size b = 0 \<Longrightarrow> addrs b = []"
  by (simp add: addrs_def)

lemma contents_simps [simp]:
  "contents m [] = []" "contents m (b # bs) = map m (addrs b) @ contents m bs"
  "contents m (bs @ cs) = contents m bs @ contents m cs"
  by (simp_all add: contents_def)

lemma length_contents: "length (contents m bs) = length (addr_list bs)"
  by (simp add: contents_def)

lemma buffer_size_loop: "buffer_size_loop bs n = n + length (addr_list bs)"
  by (induction bs arbitrary: n) simp_all

lemma buffer_size_eq: "sized c bs \<Longrightarrow> buffer_size c bs = length (addr_list bs)"
  by (cases c) (auto simp: sized_def buffer_size_def buffer_size_one_def buffer_size_many_def
      buffer_size_loop length_Suc_conv)

lemma make_buffer_simps [simp]:
  "b_data (make_buffer p n) = p" "b_size (make_buffer p n) = n"
  by (simp_all add: make_buffer_def)

lemma addrs_plus: "addrs (buffer_plus b n) = drop n (addrs b)"
  by (simp add: addrs_def buffer_plus_def Let_def)

lemma addrs_advance: "addrs (buffer_advance b n) = drop n (addrs b)"
  by (simp add: addrs_def buffer_advance_def Let_def)

lemma addrs_limit: "addrs (buffer_limit b n) = take n (addrs b)"
  by (simp add: addrs_def buffer_limit_def min_def)

lemma size_plus: "b_size (buffer_plus b n) = b_size b - n"
  by (simp add: buffer_plus_def Let_def)

lemma size_advance: "b_size (buffer_advance b n) = b_size b - n"
  by (simp add: buffer_advance_def Let_def)

lemma size_limit: "b_size (buffer_limit b n) = min (b_size b) n"
  by (simp add: buffer_limit_def)

section \<open>The effect of a copy on memory\<close>

definition copy_map :: "memory \<Rightarrow> nat list \<Rightarrow> nat list \<Rightarrow> memory" where
  "copy_map m T S = (\<lambda>a. case map_of (zip T S) a of None \<Rightarrow> m a | Some s \<Rightarrow> m s)"

lemma copy_map_Nil [simp]: "copy_map m [] S = m" "copy_map m T [] = m"
  by (simp_all add: copy_map_def)

lemma copy_map_append:
  assumes "length T1 = length S1" "set T1 \<inter> set S2 = {}" "set T1 \<inter> set T2 = {}"
  shows "copy_map (copy_map m T1 S1) T2 S2 = copy_map m (T1 @ T2) (S1 @ S2)"
proof
  fix a
  have T1: "map_of (zip T1 S1) b = None" if "b \<notin> set T1" for b
    using that set_zip_leftD by (fastforce simp: map_of_eq_None_iff)
  have T2: "map_of (zip T2 S2) b = None" if "b \<notin> set T2" for b
    using that set_zip_leftD by (fastforce simp: map_of_eq_None_iff)
  show "copy_map (copy_map m T1 S1) T2 S2 a = copy_map m (T1 @ T2) (S1 @ S2) a"
  proof (cases "map_of (zip T2 S2) a")
    case None
    with assms(1) show ?thesis
      by (simp only: copy_map_def zip_append map_of_append map_add_def option.case)
        (auto split: option.split dest: T1)
  next
    case (Some s)
    then have "s \<in> set S2" "a \<in> set T2"
      by (auto dest!: map_of_SomeD intro: set_zip_rightD set_zip_leftD)
    then have "map_of (zip T1 S1) s = None" "map_of (zip T1 S1) a = None"
      using assms(2,3) by (auto intro!: T1)
    with assms(1) Some show ?thesis
      by (simp only: copy_map_def zip_append map_of_append map_add_def option.case)
  qed
qed

lemma map_of_zip_upt:
  "map_of (zip [d..<d + n] [s..<s + n]) a = (if d \<le> a \<and> a < d + n then Some (s + (a - d)) else None)"
proof (induction n)
  case (Suc n)
  show ?case by (auto simp: map_add_def Suc)
qed simp

lemma memcpy_copy_map: "memcpy d s n m = copy_map m [d..<d + n] [s..<s + n]"
  by (simp add: memcpy_def copy_map_def map_of_zip_upt fun_eq_iff)

lemma zip_min:
  "zip T S = zip (take (min (length T) (length S)) T) (take (min (length T) (length S)) S)"
  by (simp flip: take_zip)

lemma buffer_copy_1_eq:
  "buffer_copy_1 t s m = (copy_map m (addrs t) (addrs s), min (b_size t) (b_size s))"
proof -
  let ?n = "min (b_size t) (b_size s)"
  have "take ?n (addrs t) = [b_data t..<b_data t + ?n]" "take ?n (addrs s) = [b_data s..<b_data s + ?n]"
    by (auto simp: addrs_def)
  then have "copy_map m (addrs t) (addrs s) = memcpy (b_data t) (b_data s) ?n m"
    unfolding memcpy_copy_map copy_map_def by (subst zip_min) simp
  moreover have "memcpy p q 0 m = m" for p q by (auto simp: memcpy_def fun_eq_iff)
  ultimately show ?thesis
    by (auto simp: buffer_copy_1_def Let_def min_def)
qed

text \<open>No byte is overwritten before it is read, and none is written twice.\<close>

definition copyable :: "nat list \<Rightarrow> nat list \<Rightarrow> bool" where
  "copyable T S \<longleftrightarrow> distinct T \<and> set T \<inter> set S = {}"

lemma copyable_drop: "copyable T S \<Longrightarrow> copyable (drop i T) (drop j S)"
  using set_drop_subset [of i T] set_drop_subset [of j S] by (auto simp: copyable_def)

lemma copyable_take: "copyable T S \<Longrightarrow> copyable (take i T) (take j S)"
  using set_take_subset [of i T] set_take_subset [of j S] by (auto simp: copyable_def)

lemma copy_map_split:
  assumes "k \<le> length T" "k \<le> length S" "copyable T S"
  shows "copy_map m T S = copy_map (copy_map m (take k T) (take k S)) (drop k T) (drop k S)"
proof -
  have "set (take k T) \<inter> set (drop k T) = {}"
    using assms(3) by (metis append_take_drop_id distinct_append copyable_def)
  moreover have "set (take k T) \<inter> set (drop k S) = {}"
    using assms(3) set_take_subset [of k T] set_drop_subset [of k S] by (auto simp: copyable_def)
  ultimately show ?thesis
    using copy_map_append [of "take k T" "take k S" "drop k S" "drop k T" m] assms(1,2) by simp
qed

lemma copy_map_step:
  assumes "copyable (A @ T) (B @ S)" "k = min (length A) (length B)"
  shows "copy_map m (A @ T) (B @ S)
    = copy_map (copy_map m A B) (drop k (A @ T)) (drop k (B @ S))"
proof -
  have "copy_map m (take k A) (take k B) = copy_map m A B"
    unfolding copy_map_def assms(2) by (subst zip_min [of A B]) simp
  then show ?thesis
    using copy_map_split [of k "A @ T" "B @ S" m] assms by simp
qed

lemma one_many_loop:
  assumes "copyable (addrs t) (addr_list ss)"
  shows "one_many_loop ss t cnt m
    = (copy_map m (addrs t) (addr_list ss), cnt + min (b_size t) (length (addr_list ss)))"
  using assms
proof (induction ss arbitrary: t cnt m)
  case (Cons s ss)
  let ?n = "min (b_size t) (b_size s)"
  have "copyable (drop ?n (addrs t)) (addr_list ss)"
    using copyable_drop [OF Cons.prems, of ?n "b_size s"] by simp
  moreover have "drop ?n (addrs t) = [] \<or> drop ?n (addrs s) = []" by auto
  then have "copy_map m' (drop ?n (addrs t)) (drop ?n (addrs s) @ addr_list ss)
      = copy_map m' (drop ?n (addrs t)) (addr_list ss)" for m' by auto
  then have "copy_map m (addrs t) (addr_list (s # ss))
      = copy_map (copy_map m (addrs t) (addrs s)) (drop ?n (addrs t)) (addr_list ss)"
    using copy_map_step [of "addrs t" "[]" "addrs s" "addr_list ss" ?n m] Cons.prems by simp
  ultimately show ?case
    using Cons.IH [of "buffer_advance t ?n"]
    by (auto simp: buffer_copy_1_eq addrs_advance size_advance min_def)
qed simp

lemma many_one_loop:
  assumes "copyable (addr_list ts) (addrs s)"
  shows "many_one_loop ts s cnt m
    = (copy_map m (addr_list ts) (addrs s), cnt + min (length (addr_list ts)) (b_size s))"
  using assms
proof (induction ts arbitrary: s cnt m)
  case (Cons t ts)
  let ?n = "min (b_size t) (b_size s)"
  have "copyable (addr_list ts) (drop ?n (addrs s))"
    using copyable_drop [OF Cons.prems, of "b_size t" ?n] by simp
  moreover have "drop ?n (addrs t) = [] \<or> drop ?n (addrs s) = []" by auto
  then have "copy_map m' (drop ?n (addrs t) @ addr_list ts) (drop ?n (addrs s))
      = copy_map m' (addr_list ts) (drop ?n (addrs s))" for m' by auto
  then have "copy_map m (addr_list (t # ts)) (addrs s)
      = copy_map (copy_map m (addrs t) (addrs s)) (addr_list ts) (drop ?n (addrs s))"
    using copy_map_step [of "addrs t" "addr_list ts" "addrs s" "[]" ?n m] Cons.prems by simp
  ultimately show ?case
    using Cons.IH [of "buffer_advance s ?n"]
    by (auto simp: buffer_copy_1_eq addrs_advance size_advance min_def)
qed simp

text \<open>The loops with two iterators and their offsets.\<close>

definition offset_ok :: "buffer list \<Rightarrow> nat \<Rightarrow> bool" where
  "offset_ok bs i \<longleftrightarrow> (case bs of [] \<Rightarrow> True | b # _ \<Rightarrow> i \<le> b_size b)"

lemma next_position:
  assumes "offset_ok (b # bs) i" "n \<le> b_size b - i"
  shows "drop n (drop i (addr_list (b # bs)))
      = (if n = b_size b - i then addr_list bs else drop (i + n) (addr_list (b # bs)))"
    "offset_ok bs 0" "n \<noteq> b_size b - i \<Longrightarrow> offset_ok (b # bs) (i + n)"
  using assms by (auto simp: offset_ok_def add.commute split: list.split)

lemma advance_position:
  assumes "(bs', i') = (if n = b_size b - i then (bs, 0) else (b # bs, i + n))"
    and "offset_ok (b # bs) i" "n \<le> b_size b - i"
  shows "drop n (drop i (addr_list (b # bs))) = drop i' (addr_list bs')" "offset_ok bs' i'"
  using assms(1) next_position [OF assms(2,3)]
  by (cases "n = b_size b - i"; simp)+

lemma min_count:
  "n \<le> a \<Longrightarrow> n \<le> b \<Longrightarrow> k + n + min (a - n) (b - n) = k + min a (b :: nat)"
  "n \<le> l \<Longrightarrow> n \<le> a \<Longrightarrow> n \<le> b \<Longrightarrow> k + n + min (l - n) (min (a - n) (b - n)) = k + min l (min a (b :: nat))"
  by (auto simp: min_def)

lemma many_many_step:
  assumes "copyable (drop i (addr_list (t # ts))) (drop j (addr_list (s # ss)))"
    and "n = min (b_size t - i) (b_size s - j)" "offset_ok (t # ts) i" "offset_ok (s # ss) j"
  shows "copy_map m (drop i (addr_list (t # ts))) (drop j (addr_list (s # ss)))
    = copy_map (copy_map m (drop i (addrs t)) (drop j (addrs s)))
        (drop n (drop i (addr_list (t # ts)))) (drop n (drop j (addr_list (s # ss))))"
proof -
  have "drop i (addr_list (t # ts)) = drop i (addrs t) @ addr_list ts"
    "drop j (addr_list (s # ss)) = drop j (addrs s) @ addr_list ss"
    using assms(3,4) by (simp_all add: offset_ok_def)
  then show ?thesis
    using copy_map_step [of "drop i (addrs t)" "addr_list ts" "drop j (addrs s)" "addr_list ss" n m]
      assms(1,2) by simp
qed

lemma many_many_loop:
  assumes "copyable (drop i (addr_list ts)) (drop j (addr_list ss))" "offset_ok ts i" "offset_ok ss j"
  shows "many_many_loop ts i ss j cnt m
    = (copy_map m (drop i (addr_list ts)) (drop j (addr_list ss)),
       cnt + min (length (drop i (addr_list ts))) (length (drop j (addr_list ss))))"
  using assms
proof (induction ts i ss j cnt m rule: many_many_loop.induct)
  case (1 t ts i s ss j cnt m)
  let ?n = "min (b_size t - i) (b_size s - j)"
  let ?T = "drop i (addr_list (t # ts))" and ?S = "drop j (addr_list (s # ss))"
  obtain ts' i' where t': "(ts', i') = (if ?n = b_size t - i then (ts, 0) else (t # ts, i + ?n))"
    by (metis surj_pair)
  obtain ss' j' where s': "(ss', j') = (if ?n = b_size s - j then (ss, 0) else (s # ss, j + ?n))"
    by (metis surj_pair)
  let ?m = "copy_map m (drop i (addrs t)) (drop j (addrs s))"
  note T = advance_position [OF t' "1.prems"(2) min.cobounded1]
  note S = advance_position [OF s' "1.prems"(3) min.cobounded2]
  have c: "copyable (drop ?n ?T) (drop ?n ?S)" by (rule copyable_drop [OF "1.prems"(1)])
  have le: "?n \<le> length ?T" "?n \<le> length ?S" by simp_all
  have "many_many_loop (t # ts) i (s # ss) j cnt m = many_many_loop ts' i' ss' j' (cnt + ?n) ?m"
    unfolding many_many_loop.simps(1) [of t] buffer_copy_1_eq addrs_plus size_plus Let_def prod.case
      t' [symmetric] s' [symmetric] ..
  also have "many_many_loop ts' i' ss' j' (cnt + ?n) ?m = (copy_map ?m (drop ?n ?T) (drop ?n ?S),
      cnt + ?n + min (length (drop ?n ?T)) (length (drop ?n ?S)))"
    unfolding T(1) S(1)
    by (rule "1.IH" [OF refl refl refl _ refl _ refl])
       (use T S c t' s' in \<open>simp_all add: buffer_copy_1_eq addrs_plus size_plus\<close>)
  also have "\<dots> = (copy_map m ?T ?S, cnt + min (length ?T) (length ?S))"
    using many_many_step [OF "1.prems"(1) refl "1.prems"(2,3), of m] le
    by (simp only: length_drop [of ?n] min_count)
  finally show ?case .
qed simp_all

lemma zip_take_swap: "zip (take k T) S = zip T (take k S)"
proof (induction T arbitrary: k S)
  case (Cons t T)
  then show ?case by (cases k; cases S) simp_all
qed simp

lemma copy_map_take_swap: "copy_map m (take k T) S = copy_map m T (take k S)"
  by (simp add: copy_map_def zip_take_swap)

text \<open>With a limit the target is cut off after \<open>left\<close> bytes.\<close>

lemma many_many_max_loop:
  assumes "copyable (drop i (addr_list ts)) (drop j (addr_list ss))" "offset_ok ts i" "offset_ok ss j"
  shows "many_many_max_loop left ts i ss j cnt m
    = (copy_map m (take left (drop i (addr_list ts))) (drop j (addr_list ss)),
       cnt + min left (min (length (drop i (addr_list ts))) (length (drop j (addr_list ss)))))"
  using assms
proof (induction left ts i ss j cnt m rule: many_many_max_loop.induct)
  case (1 left ts i ss j cnt m)
  show ?case
  proof (cases "left = 0 \<or> ts = [] \<or> ss = []")
    case True
    then show ?thesis by (subst many_many_max_loop.simps) auto
  next
    case go: False
    then obtain t tr s sr where ts: "ts = t # tr" and ss: "ss = s # sr"
      by (auto simp: neq_Nil_conv)
    define n where "n = min (b_size t - i) (min (b_size s - j) left)"
    let ?T = "drop i (addr_list ts)" and ?S = "drop j (addr_list ss)"
    let ?m = "copy_map m (drop i (addrs t)) (take left (drop j (addrs s)))"
    obtain ts' i' where t': "(ts', i') = (if n = b_size t - i then (tr, 0) else (ts, i + n))"
      by (metis surj_pair)
    obtain ss' j' where s': "(ss', j') = (if n = b_size s - j then (sr, 0) else (ss, j + n))"
      by (metis surj_pair)
    have n: "n \<le> b_size t - i" "n \<le> b_size s - j" by (simp_all add: n_def)
    note T = advance_position [OF t' [unfolded ts] "1.prems"(2) [unfolded ts] n(1), folded ts]
    note S = advance_position [OF s' [unfolded ss] "1.prems"(3) [unfolded ss] n(2), folded ss]
    have c: "copyable (drop n ?T) (drop n ?S)" by (rule copyable_drop [OF "1.prems"(1)])
    have step: "many_many_max_loop left ts i ss j cnt m
        = many_many_max_loop (left - n) ts' i' ss' j' (cnt + n) ?m"
      using go unfolding many_many_max_loop.simps [of left] ts ss list.sel list.distinct
        buffer_copy_1_eq addrs_plus addrs_limit size_plus size_limit Let_def prod.case
        n_def [symmetric] t' [unfolded ts, symmetric] s' [unfolded ss, symmetric] by simp
    have "?T = drop i (addrs t) @ addr_list tr" "?S = drop j (addrs s) @ addr_list sr"
      using "1.prems"(2,3) by (simp_all add: ts ss offset_ok_def)
    moreover have "copyable (take left ?T) (take (length ?S) ?S)"
      by (rule copyable_take [OF "1.prems"(1)])
    ultimately have copy: "copy_map m (take left ?T) ?S = copy_map ?m (drop n (take left ?T)) (drop n ?S)"
      using copy_map_step [of "take left (drop i (addrs t))" "take (left - (b_size t - i)) (addr_list tr)"
          "drop j (addrs s)" "addr_list sr" n m]
      by (simp add: n_def copy_map_take_swap min.assoc min.commute min.left_commute)
    have le: "n \<le> left" "n \<le> length ?T" "n \<le> length ?S"
      by (simp_all add: n_def ts ss)
    have "many_many_max_loop (left - n) ts' i' ss' j' (cnt + n) ?m
        = (copy_map ?m (take (left - n) (drop n ?T)) (drop n ?S),
           cnt + n + min (left - n) (min (length (drop n ?T)) (length (drop n ?S))))"
      unfolding T(1) S(1)
      by (rule "1.IH" [OF go refl refl refl _ refl _ refl])
        (use T S c in \<open>simp_all add: t' s' ts ss buffer_copy_1_eq addrs_plus addrs_limit size_plus
          size_limit n_def [symmetric]\<close>)
    then show ?thesis
      unfolding step copy drop_take using le by (simp only: length_drop [of n] min_count)
  qed
qed

section \<open>What buffer\_copy does\<close>

lemma copy_map_contents:
  assumes "copyable T S" "n = min lim (min (length T) (length S))"
  shows "map (copy_map m (take lim T) S) T = take n (map m S) @ drop n (map m T)"
    and "a \<notin> set T \<Longrightarrow> copy_map m (take lim T) S a = m a"
proof -
  have eq: "copy_map m (take lim T) S = copy_map m (take n T) (take n S)"
    unfolding copy_map_def assms(2)
    by (subst zip_min) (simp add: min.assoc min.commute min.left_commute)
  have len: "length (take n T) = length (take n S)" "n \<le> length T" "n \<le> length S"
    using assms(2) by auto
  have d: "distinct (take n T)" "distinct T"
    using assms(1) by (simp_all add: copyable_def)
  have "copy_map m (take n T) (take n S) (T ! i) = (if i < n then m (S ! i) else m (T ! i))"
    if "i < length T" for i
  proof (cases "i < n")
    case True
    then show ?thesis
      using map_of_zip_nth [OF len(1) d(1), of i] len by (simp add: copy_map_def)
  next
    case False
    have "T ! i \<notin> set (take n T)"
      using False that d(2) by (auto simp: in_set_conv_nth nth_eq_iff_index_eq)
    then have "map_of (zip (take n T) (take n S)) (T ! i) = None"
      using len(1) by (simp del: length_take)
    with False show ?thesis by (simp add: copy_map_def)
  qed
  then show "map (copy_map m (take lim T) S) T = take n (map m S) @ drop n (map m T)"
    unfolding eq using len by (intro nth_equalityI) (auto simp: nth_append)
  show "copy_map m (take lim T) S a = m a" if "a \<notin> set T"
  proof -
    have "a \<notin> set (take n T)" using that by (meson in_set_takeD)
    then have "map_of (zip (take n T) (take n S)) a = None" using len(1) by (simp del: length_take)
    then show ?thesis unfolding eq by (simp add: copy_map_def)
  qed
qed

lemma buffer_copy_max_eq:
  assumes "sized ct ts" "sized cs ss" "copyable (addr_list ts) (addr_list ss)"
  shows "buffer_copy_max ct cs ts ss lim m = (copy_map m (take lim (addr_list ts)) (addr_list ss),
    min lim (min (length (addr_list ts)) (length (addr_list ss))))"
proof (cases ct; cases cs)
  assume c: "ct = One_Buffer" "cs = One_Buffer"
  then obtain t s where "ts = [t]" "ss = [s]"
    using assms(1,2) by (auto simp: sized_def length_Suc_conv)
  then show ?thesis
    by (simp add: c buffer_copy_max_def copy_one_one_max_def buffer_copy_1_eq addrs_limit size_limit
        copy_map_take_swap min.commute min.left_commute)
next
  assume c: "ct = One_Buffer" "cs = Multiple_Buffers"
  then obtain t where ts: "ts = [t]"
    using assms(1) by (auto simp: sized_def length_Suc_conv)
  have "copyable (take lim (addrs t)) (take (length (addr_list ss)) (addr_list ss))"
    using assms(3) ts by (intro copyable_take) simp
  then show ?thesis
    by (simp add: c ts buffer_copy_max_def copy_one_many_def one_many_loop addrs_limit size_limit
        min.assoc min.commute min.left_commute)
next
  assume c: "ct = Multiple_Buffers" "cs = One_Buffer"
  then obtain s where ss: "ss = [s]"
    using assms(2) by (auto simp: sized_def length_Suc_conv)
  have "copyable (take (length (addr_list ts)) (addr_list ts)) (take lim (addrs s))"
    using assms(3) ss by (intro copyable_take) simp
  then show ?thesis
    by (simp add: c ss buffer_copy_max_def copy_many_one_def many_one_loop addrs_limit size_limit
        copy_map_take_swap min.assoc min.commute min.left_commute)
next
  assume c: "ct = Multiple_Buffers" "cs = Multiple_Buffers"
  have "offset_ok bs 0" for bs by (simp add: offset_ok_def split: list.split)
  then show ?thesis
    using assms(3) many_many_max_loop [of 0 ts 0 ss lim 0 m]
    by (simp add: c buffer_copy_max_def copy_many_many_max_def)
qed

lemma buffer_copy_is_max:
  assumes "copyable (addr_list ts) (addr_list ss)" "sized ct ts" "sized cs ss"
    and "length (addr_list ts) \<le> size_t_max" "length (addr_list ss) \<le> size_t_max"
  shows "buffer_copy ct cs ts ss m = buffer_copy_max ct cs ts ss size_t_max m"
proof (cases ct; cases cs)
  assume c: "ct = One_Buffer" "cs = One_Buffer"
  then obtain t s where "ts = [t]" "ss = [s]"
    using assms(2,3) by (auto simp: sized_def length_Suc_conv)
  then show ?thesis
    using buffer_copy_max_eq [OF assms(2,3,1)] assms(4,5)
    by (simp add: c buffer_copy_def copy_one_one_def buffer_copy_1_eq)
next
  assume c: "ct = Multiple_Buffers" "cs = Multiple_Buffers"
  have "offset_ok bs 0" for bs by (simp add: offset_ok_def split: list.split)
  then show ?thesis
    using buffer_copy_max_eq [OF assms(2,3,1)] many_many_loop [of 0 ts 0 ss 0 m] assms(1,4,5)
    by (simp add: c buffer_copy_def copy_many_many_def)
qed (simp_all add: buffer_copy_def buffer_copy_max_def)

text \<open>\<open>buffer_copy\<close> between any two sequences of buffers, single or not, returns the least of the
  two sizes and the limit; the target holds that many leading bytes of the source and keeps the
  rest, and no other byte changes. Without a limit it copies as with the largest one. Every loop
  of the six overloads ends.\<close>

lemma buffer_copy_spec:
  assumes "sized ct ts" "sized cs ss"
    and "distinct (addr_list ts)" "set (addr_list ts) \<inter> set (addr_list ss) = {}"
    and "buffer_copy_max ct cs ts ss lim m = (m', n)"
  shows "n = min lim (min (buffer_size ct ts) (buffer_size cs ss))
    \<and> contents m' ts = take n (contents m ss) @ drop n (contents m ts)
    \<and> (\<forall>a. a \<notin> set (addr_list ts) \<longrightarrow> m' a = m a)
    \<and> (buffer_size ct ts \<le> size_t_max \<and> buffer_size cs ss \<le> size_t_max
         \<longrightarrow> buffer_copy ct cs ts ss m = buffer_copy_max ct cs ts ss size_t_max m)"
proof -
  have c: "copyable (addr_list ts) (addr_list ss)" using assms(3,4) by (simp add: copyable_def)
  note eq = buffer_copy_max_eq [OF assms(1,2) c, where lim = lim and m = m, unfolded assms(5) prod.inject]
  show ?thesis
    using copy_map_contents [OF c, where n = n and lim = lim and m = m] eq buffer_copy_is_max [OF c assms(1,2), where m = m]
    by (simp add: contents_def buffer_size_eq assms(1,2))
qed

text \<open>Two targets of two and three bytes, three sources of one, zero and six bytes.\<close>

definition sample_targets :: "buffer list" where
  "sample_targets = [make_buffer 100 2, make_buffer 200 3]"

definition sample_sources :: "buffer list" where
  "sample_sources = [make_buffer 10 1, make_buffer 20 0, make_buffer 30 6]"

lemma sample_addrs:
  "addr_list sample_targets = [100, 101, 200, 201, 202]"
  "addr_list sample_sources = [10, 30, 31, 32, 33, 34, 35]"
  by (simp_all add: sample_targets_def sample_sources_def addrs_def upt_rec)

lemma buffer_copy_spec_example:
  "\<exists>m'. buffer_copy_max Multiple_Buffers Multiple_Buffers sample_targets sample_sources 4 word_of_nat
      = (m', 4) \<and> contents m' sample_targets = [10, 30, 31, 32, 202]"
proof -
  obtain m' n where r: "buffer_copy_max Multiple_Buffers Multiple_Buffers sample_targets
      sample_sources 4 (word_of_nat :: nat \<Rightarrow> byte) = (m', n)" by (metis surj_pair)
  with buffer_copy_spec [OF _ _ _ _ r] show ?thesis
    by (auto simp: sized_def sample_addrs buffer_size_eq contents_def)
qed

end
