(* ===== verification/Asio_Consuming.thy ===== *)
theory Asio_Consuming
  imports Asio_Buffers "HOL-Library.Sublist"
begin

text \<open>
  \<open>asio/completion_condition.hpp\<close>, \<open>asio/detail/base_from_completion_cond.hpp\<close> and
  \<open>asio/detail/consuming_buffers.hpp\<close>: when a composed operation is complete, and what of its
  buffers is still to be transferred. The template parameter that chooses one of the classes of
  consuming buffers is a record of its operations, its contract the locale \<open>consumer\<close>, which is
  interpreted on the general class and on its specialisations for one and for two buffers.
\<close>

section \<open>Error codes and completion conditions\<close>

text \<open>\<open>None\<close> is the error code that tests as false.\<close>

datatype asio_error = Operation_Aborted | Eof | Would_Block | Try_Again | Interrupted | Bad_Descriptor
  | Connection_Aborted | Protocol_Error | In_Progress | No_Buffer_Space | Already_Open
  | Invalid_Argument | Operation_Not_Supported | Not_Found | Other_Error nat

type_synonym error_code = "asio_error option"

type_synonym condition = "error_code \<Rightarrow> nat \<Rightarrow> nat"

definition default_max_transfer_size :: nat where
  "default_max_transfer_size = 65536"

definition adapt_bool :: "bool \<Rightarrow> nat" where
  "adapt_bool result = (if result then 0 else default_max_transfer_size)"

definition adapt_size :: "nat \<Rightarrow> nat" where
  "adapt_size result = result"

definition transfer_all :: condition where
  "transfer_all err _ = (if err \<noteq> None then 0 else default_max_transfer_size)"

definition transfer_at_least :: "nat \<Rightarrow> condition" where
  "transfer_at_least minimum err n =
     (if err \<noteq> None \<or> n \<ge> minimum then 0 else default_max_transfer_size)"

definition transfer_exactly :: "nat \<Rightarrow> condition" where
  "transfer_exactly sz err n =
     (if err \<noteq> None \<or> n \<ge> sz then 0
      else if sz - n < default_max_transfer_size then sz - n else default_max_transfer_size)"

definition check_for_completion :: "condition \<Rightarrow> error_code \<Rightarrow> nat \<Rightarrow> nat" where
  "check_for_completion cond ec transferred = adapt_size (cond ec transferred)"

definition check_transfer_all :: "error_code \<Rightarrow> nat \<Rightarrow> nat" where
  "check_transfer_all ec transferred = transfer_all ec transferred"

section \<open>Consuming buffers\<close>

record 'c consumer_ops =
  c_empty :: "'c \<Rightarrow> bool"
  c_prepare :: "'c \<Rightarrow> nat \<Rightarrow> buffer list"
  c_consume :: "'c \<Rightarrow> nat \<Rightarrow> 'c"
  c_total :: "'c \<Rightarrow> nat"

text \<open>The general class; \<open>N\<close> is \<open>prepared_buffers_max<Buffers>::value\<close>.\<close>

record consuming =
  cb_buffers :: "buffer list"
  cb_total_size :: nat
  cb_total_consumed :: nat
  cb_next_elem :: nat
  cb_next_offset :: nat

definition max_prepared :: "nat \<Rightarrow> nat" where
  "max_prepared N = (if N < 16 then N else 16)"

definition new_consuming :: "buffer list \<Rightarrow> consuming" where
  "new_consuming bs = \<lparr>cb_buffers = bs, cb_total_size = buffer_size Multiple_Buffers bs,
     cb_total_consumed = 0, cb_next_elem = 0, cb_next_offset = 0\<rparr>"

definition cb_empty :: "consuming \<Rightarrow> bool" where
  "cb_empty c \<longleftrightarrow> cb_total_consumed c \<ge> cb_total_size c"

fun prepare_loop :: "nat \<Rightarrow> buffer list \<Rightarrow> nat \<Rightarrow> nat \<Rightarrow> buffer list \<Rightarrow> buffer list" where
  "prepare_loop N [] elem_offset max_size result = result"
| "prepare_loop N (b # bs) elem_offset max_size result =
     (if max_size > 0 \<and> length result < max_prepared N then
        let next_buf = buffer_plus b elem_offset;
            e = buffer_limit next_buf max_size
        in prepare_loop N bs 0 (max_size - b_size e)
             (if b_size e > 0 then result @ [e] else result)
      else result)"

definition cb_prepare :: "nat \<Rightarrow> consuming \<Rightarrow> nat \<Rightarrow> buffer list" where
  "cb_prepare N c max_size =
     prepare_loop N (drop (cb_next_elem c) (cb_buffers c)) (cb_next_offset c) max_size []"

text \<open>Returns \<open>next_elem_\<close> and \<open>next_elem_offset_\<close>.\<close>

fun consume_loop :: "buffer list \<Rightarrow> nat \<Rightarrow> nat \<Rightarrow> nat \<Rightarrow> nat \<times> nat" where
  "consume_loop [] elem off sz = (elem, off)"
| "consume_loop (b # bs) elem off sz =
     (if sz > 0 then
        let next_buf = buffer_plus b off
        in if sz < b_size next_buf then (elem, off + sz)
           else consume_loop bs (elem + 1) 0 (sz - b_size next_buf)
      else (elem, off))"

definition cb_consume :: "consuming \<Rightarrow> nat \<Rightarrow> consuming" where
  "cb_consume c sz =
     (let (elem, off) = consume_loop (drop (cb_next_elem c) (cb_buffers c))
            (cb_next_elem c) (cb_next_offset c) sz
      in c\<lparr>cb_total_consumed := cb_total_consumed c + sz, cb_next_elem := elem,
           cb_next_offset := off\<rparr>)"

definition general_ops :: "nat \<Rightarrow> consuming consumer_ops" where
  "general_ops N = \<lparr>c_empty = cb_empty, c_prepare = cb_prepare N, c_consume = cb_consume,
     c_total = cb_total_consumed\<rparr>"

text \<open>The specialisation for a single buffer.\<close>

record single_consuming =
  sc_buffer :: buffer
  sc_total_consumed :: nat

definition new_single :: "buffer \<Rightarrow> single_consuming" where
  "new_single b = \<lparr>sc_buffer = b, sc_total_consumed = 0\<rparr>"

definition sc_empty :: "single_consuming \<Rightarrow> bool" where
  "sc_empty c \<longleftrightarrow> sc_total_consumed c \<ge> b_size (sc_buffer c)"

definition sc_prepare :: "single_consuming \<Rightarrow> nat \<Rightarrow> buffer list" where
  "sc_prepare c max_size = [buffer_limit (buffer_plus (sc_buffer c) (sc_total_consumed c)) max_size]"

definition sc_consume :: "single_consuming \<Rightarrow> nat \<Rightarrow> single_consuming" where
  "sc_consume c sz = c\<lparr>sc_total_consumed := sc_total_consumed c + sz\<rparr>"

definition single_ops :: "single_consuming consumer_ops" where
  "single_ops = \<lparr>c_empty = sc_empty, c_prepare = sc_prepare, c_consume = sc_consume,
     c_total = sc_total_consumed\<rparr>"

text \<open>The specialisation for an array of two buffers.\<close>

record pair_consuming =
  pc_buffer0 :: buffer
  pc_buffer1 :: buffer
  pc_total_consumed :: nat

definition new_pair :: "buffer \<Rightarrow> buffer \<Rightarrow> pair_consuming" where
  "new_pair b0 b1 = \<lparr>pc_buffer0 = b0, pc_buffer1 = b1, pc_total_consumed = 0\<rparr>"

definition pc_empty :: "pair_consuming \<Rightarrow> bool" where
  "pc_empty c \<longleftrightarrow> pc_total_consumed c \<ge> b_size (pc_buffer0 c) + b_size (pc_buffer1 c)"

definition pc_prepare :: "pair_consuming \<Rightarrow> nat \<Rightarrow> buffer list" where
  "pc_prepare c max_size =
     (let buffer0_size = b_size (pc_buffer0 c);
          r0 = buffer_limit (buffer_plus (pc_buffer0 c) (pc_total_consumed c)) max_size;
          r1 = buffer_limit (buffer_plus (pc_buffer1 c)
                 (if pc_total_consumed c < buffer0_size then 0 else pc_total_consumed c - buffer0_size))
                 (max_size - b_size r0)
      in [r0, r1])"

definition pc_consume :: "pair_consuming \<Rightarrow> nat \<Rightarrow> pair_consuming" where
  "pc_consume c sz = c\<lparr>pc_total_consumed := pc_total_consumed c + sz\<rparr>"

definition pair_ops :: "pair_consuming consumer_ops" where
  "pair_ops = \<lparr>c_empty = pc_empty, c_prepare = pc_prepare, c_consume = pc_consume,
     c_total = pc_total_consumed\<rparr>"

section \<open>The contract of consuming buffers\<close>

text \<open>\<open>pending c\<close> are the addresses still to be transferred, in order.\<close>

locale consumer =
  fixes ops :: "'c consumer_ops" and ok :: "'c \<Rightarrow> bool" and pending :: "'c \<Rightarrow> nat list"
  assumes empty_iff: "ok c \<Longrightarrow> c_empty ops c \<longleftrightarrow> pending c = []"
    and prepare_prefix: "ok c \<Longrightarrow> \<exists>k\<le>n. addr_list (c_prepare ops c n) = take k (pending c)"
    and prepare_nonempty: "ok c \<Longrightarrow> pending c \<noteq> [] \<Longrightarrow> 0 < n \<Longrightarrow> addr_list (c_prepare ops c n) \<noteq> []"
    and consume_ok: "ok c \<Longrightarrow> n \<le> length (pending c) \<Longrightarrow> ok (c_consume ops c n)"
    and consume_pending: "ok c \<Longrightarrow> n \<le> length (pending c) \<Longrightarrow>
      pending (c_consume ops c n) = drop n (pending c)"
    and consume_total: "c_total ops (c_consume ops c n) = c_total ops c + n"
begin

lemma prepare_take:
  assumes "ok c" "n \<le> length (addr_list (c_prepare ops c mx))"
  shows "take n (addr_list (c_prepare ops c mx)) = take n (pending c)" "n \<le> length (pending c)" "n \<le> mx"
  using prepare_prefix [OF assms(1), of mx] assms(2) by auto

end

subsection \<open>The general class\<close>

definition cb_pending :: "consuming \<Rightarrow> nat list" where
  "cb_pending c = drop (cb_total_consumed c) (addr_list (cb_buffers c))"

definition cb_ok :: "consuming \<Rightarrow> bool" where
  "cb_ok c \<longleftrightarrow> cb_total_size c = length (addr_list (cb_buffers c))
     \<and> offset_ok (drop (cb_next_elem c) (cb_buffers c)) (cb_next_offset c)
     \<and> cb_pending c = drop (cb_next_offset c) (addr_list (drop (cb_next_elem c) (cb_buffers c)))"

lemma cb_ok_new: "cb_ok (new_consuming bs)" "cb_pending (new_consuming bs) = addr_list bs"
  by (simp_all add: cb_ok_def cb_pending_def new_consuming_def buffer_size_eq sized_def offset_ok_def
      split: list.split)

lemma offset_ok_0 [simp]: "offset_ok bs 0"
  by (simp add: offset_ok_def split: list.split)

lemma prepare_loop:
  assumes "offset_ok bs i"
  shows "\<exists>k\<le>n. addr_list (prepare_loop N bs i n res) = addr_list res @ take k (drop i (addr_list bs))
    \<and> (length res < max_prepared N \<and> 0 < n \<longrightarrow> 0 < k)"
  using assms
proof (induction N bs i n res rule: prepare_loop.induct)
  case (2 N b bs i n res)
  show ?case
  proof (cases "n > 0 \<and> length res < max_prepared N")
    case True
    define e where "e = buffer_limit (buffer_plus b i) n"
    define res' where "res' = (if b_size e > 0 then res @ [e] else res)"
    have sz: "b_size e = min (b_size b - i) n" by (simp add: e_def size_limit size_plus)
    have ad: "addrs e = take n (drop i (addrs b))" by (simp add: e_def addrs_limit addrs_plus)
    have loop: "prepare_loop N (b # bs) i n res = prepare_loop N bs 0 (n - b_size e) res'"
      using True by (simp add: e_def res'_def Let_def)
    obtain k where k: "k \<le> n - b_size e"
      "addr_list (prepare_loop N bs 0 (n - b_size e) res') = addr_list res' @ take k (addr_list bs)"
      "length res' < max_prepared N \<and> 0 < n - b_size e \<longrightarrow> 0 < k"
      using "2.IH" [OF True refl refl offset_ok_0] unfolding e_def [symmetric] res'_def [symmetric]
      by auto
    have res: "addr_list res' = addr_list res @ take n (drop i (addrs b))"
      by (cases "b_size e = 0") (simp_all add: res'_def flip: ad)
    have i: "i \<le> b_size b" using "2.prems" by (simp add: offset_ok_def)
    have "take n (drop i (addrs b)) @ take k (addr_list bs)
        = take (b_size e + k) (drop i (addr_list (b # bs)))"
    proof (cases "b_size b - i \<le> n")
      case True
      then show ?thesis using i by (simp add: sz)
    next
      case False
      then have "k = 0" "b_size e = n" using k(1) by (simp_all add: sz)
      then show ?thesis using False i by simp
    qed
    moreover have "0 < b_size e + k"
      using k(3) True by (cases "b_size e = 0") (auto simp: res'_def)
    moreover have "b_size e + k \<le> n" using k(1) by (simp add: sz)
    ultimately show ?thesis
      using k(2) unfolding loop res by (intro exI [where x = "b_size e + k"]) simp
  next
    case False
    then show ?thesis by (intro exI [where x = 0]) auto
  qed
qed (auto intro: exI [where x = 1] exI [where x = 0])

lemma consume_loop:
  assumes "offset_ok bs i" "n \<le> length (drop i (addr_list bs))" "consume_loop bs e i n = (e', i')"
    and "bs = drop e all"
  shows "offset_ok (drop e' all) i' \<and> drop n (drop i (addr_list bs)) = drop i' (addr_list (drop e' all))"
  using assms
proof (induction bs e i n rule: consume_loop.induct)
  case (2 b bs e i n)
  have i: "i \<le> b_size b" using "2.prems"(1) by (simp add: offset_ok_def)
  have bs: "bs = drop (Suc e) all" using "2.prems"(4) by (metis drop_Suc tl_drop list.sel(3))
  consider "n = 0" | "0 < n" "n < b_size b - i" | "0 < n" "b_size b - i \<le> n" by linarith
  then show ?case
  proof cases
    case 1
    then show ?thesis using "2.prems"(1,3) "2.prems"(4) [symmetric] by auto
  next
    case 2
    then show ?thesis
      using "2.prems"(1,3) "2.prems"(4) [symmetric] by (auto simp: size_plus offset_ok_def add.commute)
  next
    case 3
    have "n - (b_size b - i) \<le> length (drop 0 (addr_list bs))"
      using "2.prems"(2) i by simp
    moreover have "consume_loop bs (e + 1) 0 (n - b_size (buffer_plus b i)) = (e', i')"
      using "2.prems"(3) 3 by (simp add: size_plus)
    ultimately have "offset_ok (drop e' all) i'
        \<and> drop (n - (b_size b - i)) (addr_list bs) = drop i' (addr_list (drop e' all))"
      using "2.IH" [OF 3(1) refl _ offset_ok_0] 3 bs by (simp add: size_plus)
    moreover have "drop n (drop i (addr_list (b # bs))) = drop (n - (b_size b - i)) (addr_list bs)"
      using i 3(2) by (simp add: add.commute)
    ultimately show ?thesis by simp
  qed
qed auto

lemma cb_ok_consume:
  assumes "cb_ok c" "n \<le> length (cb_pending c)"
  shows "cb_ok (cb_consume c n)" "cb_pending (cb_consume c n) = drop n (cb_pending c)"
proof -
  let ?bs = "cb_buffers c"
  obtain e i where l: "consume_loop (drop (cb_next_elem c) ?bs) (cb_next_elem c) (cb_next_offset c) n = (e, i)"
    by (metis surj_pair)
  have c: "cb_consume c n = c\<lparr>cb_total_consumed := cb_total_consumed c + n, cb_next_elem := e,
      cb_next_offset := i\<rparr>"
    by (simp add: cb_consume_def l)
  show p: "cb_pending (cb_consume c n) = drop n (cb_pending c)"
    by (simp add: c cb_pending_def add.commute)
  have "offset_ok (drop e ?bs) i \<and> drop n (cb_pending c) = drop i (addr_list (drop e ?bs))"
    using consume_loop [OF _ _ l refl] assms by (simp add: cb_ok_def)
  then show "cb_ok (cb_consume c n)"
    using assms(1) unfolding cb_ok_def p by (simp add: c)
qed

lemma max_prepared_pos: "0 < N \<Longrightarrow> 0 < max_prepared N"
  by (simp add: max_prepared_def)

interpretation general: consumer "general_ops N" "\<lambda>c. cb_ok c \<and> 0 < N" cb_pending for N
proof
  show "c_empty (general_ops N) c \<longleftrightarrow> cb_pending c = []" if "cb_ok c \<and> 0 < N" for c
  proof -
    have "cb_total_size c = length (addr_list (cb_buffers c))" using that by (simp add: cb_ok_def)
    then show ?thesis by (simp add: general_ops_def cb_empty_def cb_pending_def)
  qed
  show "\<exists>k\<le>n. addr_list (c_prepare (general_ops N) c n) = take k (cb_pending c)"
    if "cb_ok c \<and> 0 < N" for c n
    using that prepare_loop [of "drop (cb_next_elem c) (cb_buffers c)" "cb_next_offset c" n N "[]"]
    by (auto simp: general_ops_def cb_prepare_def cb_ok_def)
  show "addr_list (c_prepare (general_ops N) c n) \<noteq> []"
    if "cb_ok c \<and> 0 < N" "cb_pending c \<noteq> []" "0 < n" for c n
    using that max_prepared_pos [of N]
      prepare_loop [of "drop (cb_next_elem c) (cb_buffers c)" "cb_next_offset c" n N "[]"]
    by (auto simp: general_ops_def cb_prepare_def cb_ok_def)
qed (use cb_ok_consume in \<open>simp_all add: general_ops_def\<close>,
     simp add: cb_consume_def split: prod.split)

subsection \<open>The specialised classes\<close>

definition sc_pending :: "single_consuming \<Rightarrow> nat list" where
  "sc_pending c = drop (sc_total_consumed c) (addrs (sc_buffer c))"

interpretation single: consumer single_ops "\<lambda>_. True" sc_pending
  by unfold_locales
    (auto simp: single_ops_def sc_empty_def sc_prepare_def sc_consume_def sc_pending_def addrs_limit
      addrs_plus add.commute)

definition pc_pending :: "pair_consuming \<Rightarrow> nat list" where
  "pc_pending c = drop (pc_total_consumed c) (addrs (pc_buffer0 c) @ addrs (pc_buffer1 c))"

lemma pc_prepare: "addr_list (pc_prepare c n) = take n (pc_pending c)"
  by (cases "n \<le> b_size (pc_buffer0 c) - pc_total_consumed c")
    (auto simp: pc_prepare_def pc_pending_def Let_def addrs_limit addrs_plus size_limit size_plus
      add.commute)

lemma pc_consume_pending: "pc_pending (pc_consume c n) = drop n (pc_pending c)"
  by (simp add: pc_pending_def pc_consume_def add.commute del: drop_append)

lemma pc_empty_iff: "pc_empty c \<longleftrightarrow> pc_pending c = []"
  by (auto simp: pc_empty_def pc_pending_def)

interpretation pair: consumer pair_ops "\<lambda>_. True" pc_pending
  by unfold_locales
    (auto simp: pair_ops_def pc_empty_iff pc_prepare pc_consume_pending, simp add: pc_consume_def)

end
