(* ===== verification/Asio_Socket_Ops.thy ===== *)
theory Asio_Socket_Ops
  imports Asio_Consuming "HOL-Library.Word"
begin

text \<open>
  The wrappers of the system calls on sockets, \<open>asio/detail/impl/socket_ops.ipp\<close>, in their POSIX
  branches. What the system calls return is a parameter: a script of results, an error or the
  value of the call, of which each call takes the next one. A function is \<open>None\<close> if the script ends
  before it: its last call has not returned.
\<close>

unbundle bit_operations_syntax

section \<open>Results and flags\<close>

type_synonym os_result = "asio_error + nat"

type_synonym script = "os_result list"

text \<open>The value of a system call, \<open>-1\<close> for an error, and what \<open>get_last_error\<close> makes of it.\<close>

definition get_last_error :: "bool \<Rightarrow> asio_error \<Rightarrow> error_code" where
  "get_last_error is_error_condition errno = (if \<not> is_error_condition then None else Some errno)"

definition sys_value :: "os_result \<Rightarrow> int" where
  "sys_value r = (case r of Inl e \<Rightarrow> -1 | Inr n \<Rightarrow> int n)"

definition errno :: "os_result \<Rightarrow> asio_error" where
  "errno r = (case r of Inl e \<Rightarrow> e | Inr n \<Rightarrow> Other_Error 0)"

definition sys_return :: "os_result \<Rightarrow> int \<times> error_code" where
  "sys_return r = (let result = sys_value r in (result, get_last_error (result < 0) (errno r)))"

lemma sys_return_simps [simp]:
  "sys_return (Inl e) = (-1, Some e)" "sys_return (Inr n) = (int n, None)"
  by (simp_all add: sys_return_def sys_value_def get_last_error_def errno_def)

type_synonym socket_type = int

definition invalid_socket :: socket_type where
  "invalid_socket = -1"

type_synonym state_type = "8 word"

definition user_set_non_blocking :: state_type where "user_set_non_blocking = 1"
definition internal_non_blocking :: state_type where "internal_non_blocking = 2"
definition non_blocking :: state_type where
  "non_blocking = user_set_non_blocking OR internal_non_blocking"
definition enable_connection_aborted :: state_type where "enable_connection_aborted = 4"
definition user_set_linger :: state_type where "user_set_linger = 8"
definition stream_oriented :: state_type where "stream_oriented = 16"
definition datagram_oriented :: state_type where "datagram_oriented = 32"
definition possible_dup :: state_type where "possible_dup = 64"

definition flag :: "state_type \<Rightarrow> state_type \<Rightarrow> bool" where
  "flag state f \<longleftrightarrow> state AND f \<noteq> 0"

definition retryable :: "error_code \<Rightarrow> bool" where
  "retryable ec \<longleftrightarrow> ec = Some Would_Block \<or> ec = Some Try_Again"

section \<open>Polling\<close>

text \<open>\<open>poll_read\<close>, \<open>poll_write\<close> and \<open>poll_connect\<close>: the value of \<open>poll\<close>, and the error code.\<close>

definition poll_read :: "socket_type \<Rightarrow> state_type \<Rightarrow> script \<Rightarrow> ((int \<times> error_code) \<times> script) option" where
  "poll_read s state os =
     (if s = invalid_socket then Some ((-1, Some Bad_Descriptor), os)
      else case os of [] \<Rightarrow> None
      | r # os' \<Rightarrow>
          let (result, ec) = sys_return r
          in Some ((result, if result = 0 \<and> flag state user_set_non_blocking then Some Would_Block
                            else ec), os'))"

definition poll_write :: "socket_type \<Rightarrow> state_type \<Rightarrow> script \<Rightarrow> ((int \<times> error_code) \<times> script) option" where
  "poll_write s state os =
     (if s = invalid_socket then Some ((-1, Some Bad_Descriptor), os)
      else case os of [] \<Rightarrow> None
      | r # os' \<Rightarrow>
          let (result, ec) = sys_return r
          in Some ((result, if result = 0 \<and> flag state user_set_non_blocking then Some Would_Block
                            else ec), os'))"

definition poll_connect :: "socket_type \<Rightarrow> script \<Rightarrow> ((int \<times> error_code) \<times> script) option" where
  "poll_connect s os =
     (if s = invalid_socket then Some ((-1, Some Bad_Descriptor), os)
      else case os of [] \<Rightarrow> None | r # os' \<Rightarrow> Some (sys_return r, os'))"

lemma poll_shorter:
  "poll_read s state os = Some (x, os') \<Longrightarrow> length os' \<le> length os"
  "poll_write s state os = Some (x, os') \<Longrightarrow> length os' \<le> length os"
  by (auto simp: poll_read_def poll_write_def Let_def split: if_splits list.splits prod.splits)

section \<open>Receiving\<close>

text \<open>\<open>recv\<close> and \<open>recv1\<close>: the system calls \<open>recvmsg\<close> and \<open>recv\<close>.\<close>

definition so_recv :: "os_result \<Rightarrow> int \<times> error_code" where
  "so_recv r = (let result = sys_value r in (result, get_last_error (result < 0) (errno r)))"

definition so_recv1 :: "os_result \<Rightarrow> int \<times> error_code" where
  "so_recv1 r = (let result = sys_value r in (result, get_last_error (result < 0) (errno r)))"

text \<open>
  The loop of the blocking calls. The result is the number of bytes and the error code.
\<close>

function sync_recv_loop :: "socket_type \<Rightarrow> state_type \<Rightarrow> script \<Rightarrow> ((nat \<times> error_code) \<times> script) option"
  where
  "sync_recv_loop s state os =
     (case os of [] \<Rightarrow> None
      | r # os1 \<Rightarrow>
          let (bytes, ec) = so_recv r in
          if flag state stream_oriented \<and> bytes = 0 then Some ((0, Some Eof), os1)
          else if 0 \<le> bytes then Some ((nat bytes, ec), os1)
          else if flag state user_set_non_blocking \<or> \<not> retryable ec then Some ((0, ec), os1)
          else case poll_read s 0 os1 of None \<Rightarrow> None
          | Some ((res, ec'), os2) \<Rightarrow>
              if res < 0 then Some ((0, ec'), os2) else sync_recv_loop s state os2)"
  by auto

termination sync_recv_loop
  by (relation "measure (\<lambda>(s, state, os). length os)") (auto dest!: poll_shorter(1))

definition sync_recv :: "socket_type \<Rightarrow> state_type \<Rightarrow> bool \<Rightarrow> script
    \<Rightarrow> ((nat \<times> error_code) \<times> script) option" where
  "sync_recv s state all_empty os =
     (if s = invalid_socket then Some ((0, Some Bad_Descriptor), os)
      else if all_empty \<and> flag state stream_oriented then Some ((0, None), os)
      else sync_recv_loop s state os)"

function sync_recv1_loop :: "socket_type \<Rightarrow> state_type \<Rightarrow> script \<Rightarrow> ((nat \<times> error_code) \<times> script) option"
  where
  "sync_recv1_loop s state os =
     (case os of [] \<Rightarrow> None
      | r # os1 \<Rightarrow>
          let (bytes, ec) = so_recv1 r in
          if flag state stream_oriented \<and> bytes = 0 then Some ((0, Some Eof), os1)
          else if 0 \<le> bytes then Some ((nat bytes, ec), os1)
          else if flag state user_set_non_blocking \<or> \<not> retryable ec then Some ((0, ec), os1)
          else case poll_read s 0 os1 of None \<Rightarrow> None
          | Some ((res, ec'), os2) \<Rightarrow>
              if res < 0 then Some ((0, ec'), os2) else sync_recv1_loop s state os2)"
  by auto

termination sync_recv1_loop
  by (relation "measure (\<lambda>(s, state, os). length os)") (auto dest!: poll_shorter(1))

definition sync_recv1 :: "socket_type \<Rightarrow> state_type \<Rightarrow> nat \<Rightarrow> script
    \<Rightarrow> ((nat \<times> error_code) \<times> script) option" where
  "sync_recv1 s state len os =
     (if s = invalid_socket then Some ((0, Some Bad_Descriptor), os)
      else if len = 0 \<and> flag state stream_oriented then Some ((0, None), os)
      else sync_recv1_loop s state os)"

text \<open>
  The non-blocking calls. They update the error code and the number of bytes of an operation; the
  result says whether it is finished.
\<close>

type_synonym progress = "bool \<times> error_code \<times> nat"

fun non_blocking_recv :: "bool \<Rightarrow> script \<Rightarrow> nat \<Rightarrow> (progress \<times> script) option" where
  "non_blocking_recv is_stream [] bytes_transferred = None"
| "non_blocking_recv is_stream (r # os) bytes_transferred =
     (let (bytes, ec) = so_recv r in
      if is_stream \<and> bytes = 0 then Some ((True, Some Eof, bytes_transferred), os)
      else if 0 \<le> bytes then Some ((True, ec, nat bytes), os)
      else if ec = Some Interrupted then non_blocking_recv is_stream os bytes_transferred
      else if retryable ec then Some ((False, ec, bytes_transferred), os)
      else Some ((True, ec, 0), os))"

fun non_blocking_recv1 :: "bool \<Rightarrow> script \<Rightarrow> nat \<Rightarrow> (progress \<times> script) option" where
  "non_blocking_recv1 is_stream [] bytes_transferred = None"
| "non_blocking_recv1 is_stream (r # os) bytes_transferred =
     (let (bytes, ec) = so_recv1 r in
      if is_stream \<and> bytes = 0 then Some ((True, Some Eof, bytes_transferred), os)
      else if 0 \<le> bytes then Some ((True, ec, nat bytes), os)
      else if ec = Some Interrupted then non_blocking_recv1 is_stream os bytes_transferred
      else if retryable ec then Some ((False, ec, bytes_transferred), os)
      else Some ((True, ec, 0), os))"

section \<open>Sending\<close>

definition so_send :: "os_result \<Rightarrow> int \<times> error_code" where
  "so_send r = (let result = sys_value r in (result, get_last_error (result < 0) (errno r)))"

definition so_send1 :: "os_result \<Rightarrow> int \<times> error_code" where
  "so_send1 r = (let result = sys_value r in (result, get_last_error (result < 0) (errno r)))"

function sync_send_loop :: "socket_type \<Rightarrow> state_type \<Rightarrow> script \<Rightarrow> ((nat \<times> error_code) \<times> script) option"
  where
  "sync_send_loop s state os =
     (case os of [] \<Rightarrow> None
      | r # os1 \<Rightarrow>
          let (bytes, ec) = so_send r in
          if 0 \<le> bytes then Some ((nat bytes, ec), os1)
          else if flag state user_set_non_blocking \<or> \<not> retryable ec then Some ((0, ec), os1)
          else case poll_write s 0 os1 of None \<Rightarrow> None
          | Some ((res, ec'), os2) \<Rightarrow>
              if res < 0 then Some ((0, ec'), os2) else sync_send_loop s state os2)"
  by auto

termination sync_send_loop
  by (relation "measure (\<lambda>(s, state, os). length os)") (auto dest!: poll_shorter(2))

definition sync_send :: "socket_type \<Rightarrow> state_type \<Rightarrow> bool \<Rightarrow> script
    \<Rightarrow> ((nat \<times> error_code) \<times> script) option" where
  "sync_send s state all_empty os =
     (if s = invalid_socket then Some ((0, Some Bad_Descriptor), os)
      else if all_empty \<and> flag state stream_oriented then Some ((0, None), os)
      else sync_send_loop s state os)"

function sync_send1_loop :: "socket_type \<Rightarrow> state_type \<Rightarrow> script \<Rightarrow> ((nat \<times> error_code) \<times> script) option"
  where
  "sync_send1_loop s state os =
     (case os of [] \<Rightarrow> None
      | r # os1 \<Rightarrow>
          let (bytes, ec) = so_send1 r in
          if 0 \<le> bytes then Some ((nat bytes, ec), os1)
          else if flag state user_set_non_blocking \<or> \<not> retryable ec then Some ((0, ec), os1)
          else case poll_write s 0 os1 of None \<Rightarrow> None
          | Some ((res, ec'), os2) \<Rightarrow>
              if res < 0 then Some ((0, ec'), os2) else sync_send1_loop s state os2)"
  by auto

termination sync_send1_loop
  by (relation "measure (\<lambda>(s, state, os). length os)") (auto dest!: poll_shorter(2))

definition sync_send1 :: "socket_type \<Rightarrow> state_type \<Rightarrow> nat \<Rightarrow> script
    \<Rightarrow> ((nat \<times> error_code) \<times> script) option" where
  "sync_send1 s state len os =
     (if s = invalid_socket then Some ((0, Some Bad_Descriptor), os)
      else if len = 0 \<and> flag state stream_oriented then Some ((0, None), os)
      else sync_send1_loop s state os)"

fun non_blocking_send :: "script \<Rightarrow> nat \<Rightarrow> (progress \<times> script) option" where
  "non_blocking_send [] bytes_transferred = None"
| "non_blocking_send (r # os) bytes_transferred =
     (let (bytes, ec) = so_send r in
      if 0 \<le> bytes then Some ((True, ec, nat bytes), os)
      else if ec = Some Interrupted then non_blocking_send os bytes_transferred
      else if retryable ec then Some ((False, ec, bytes_transferred), os)
      else Some ((True, ec, 0), os))"

fun non_blocking_send1 :: "script \<Rightarrow> nat \<Rightarrow> (progress \<times> script) option" where
  "non_blocking_send1 [] bytes_transferred = None"
| "non_blocking_send1 (r # os) bytes_transferred =
     (let (bytes, ec) = so_send1 r in
      if 0 \<le> bytes then Some ((True, ec, nat bytes), os)
      else if ec = Some Interrupted then non_blocking_send1 os bytes_transferred
      else if retryable ec then Some ((False, ec, bytes_transferred), os)
      else Some ((True, ec, 0), os))"


section \<open>Accepting and connecting\<close>

text \<open>\<open>accept\<close> on Linux. The address of the peer is an output only.\<close>

definition so_accept :: "socket_type \<Rightarrow> script \<Rightarrow> ((socket_type \<times> error_code) \<times> script) option" where
  "so_accept s os =
     (if s = invalid_socket then Some ((invalid_socket, Some Bad_Descriptor), os)
      else case os of [] \<Rightarrow> None
      | r # os' \<Rightarrow>
          let new_s = sys_value r; ec = get_last_error (new_s = invalid_socket) (errno r)
          in if new_s = invalid_socket then Some ((new_s, ec), os')
             else Some ((new_s, None), os'))"

text \<open>Which errors of \<open>accept\<close> make the callers try again (later).\<close>

definition accept_again :: "state_type \<Rightarrow> error_code \<Rightarrow> bool" where
  "accept_again state ec \<longleftrightarrow>
     (ec = Some Connection_Aborted \<or> ec = Some Protocol_Error)
     \<and> \<not> flag state enable_connection_aborted"

lemma so_accept_shorter:
  "so_accept s os = Some ((a, ec), os') \<Longrightarrow> s \<noteq> invalid_socket \<Longrightarrow> length os' < length os"
  by (auto simp: so_accept_def Let_def split: list.splits if_splits)

function sync_accept :: "socket_type \<Rightarrow> state_type \<Rightarrow> script
    \<Rightarrow> ((socket_type \<times> error_code) \<times> script) option" where
  "sync_accept s state os =
     (case so_accept s os of None \<Rightarrow> None
      | Some ((new_socket, ec), os1) \<Rightarrow>
          if new_socket \<noteq> invalid_socket then Some ((new_socket, ec), os1)
          else if retryable ec \<and> flag state user_set_non_blocking
          then Some ((invalid_socket, ec), os1)
          else if \<not> retryable ec \<and> \<not> accept_again state ec then Some ((invalid_socket, ec), os1)
          else case poll_read s 0 os1 of None \<Rightarrow> None
          | Some ((res, ec'), os2) \<Rightarrow>
              if res < 0 then Some ((invalid_socket, ec'), os2)
              else sync_accept s state os2)"
  by auto

termination sync_accept
proof (relation "measure (\<lambda>(s, state, os). length os)"; clarsimp)
  fix s :: socket_type and state :: state_type and os os1 os2 :: script and ec ec' res
  assume a: "so_accept s os = Some ((invalid_socket, ec), os1)"
    and p: "poll_read s 0 os1 = Some ((res, ec'), os2)" and "\<not> res < 0"
  then have "s \<noteq> invalid_socket" by (auto simp: poll_read_def)
  then show "length os2 < length os" using so_accept_shorter [OF a] poll_shorter(1) [OF p] by simp
qed

function non_blocking_accept :: "socket_type \<Rightarrow> state_type \<Rightarrow> script
    \<Rightarrow> ((bool \<times> error_code \<times> socket_type) \<times> script) option" where
  "non_blocking_accept s state os =
     (case so_accept s os of None \<Rightarrow> None
      | Some ((new_socket, ec), os1) \<Rightarrow>
          if new_socket \<noteq> invalid_socket then Some ((True, ec, new_socket), os1)
          else if ec = Some Interrupted then non_blocking_accept s state os1
          else if retryable ec \<or> accept_again state ec then Some ((False, ec, new_socket), os1)
          else Some ((True, ec, new_socket), os1))"
  by auto

termination non_blocking_accept
proof (relation "measure (\<lambda>(s, state, os). length os)"; clarsimp)
  fix s :: socket_type and os os1 :: script
  assume a: "so_accept s os = Some ((invalid_socket, Some Interrupted), os1)"
  then have "s \<noteq> invalid_socket" by (auto simp: so_accept_def)
  then show "length os1 < length os" using so_accept_shorter [OF a] by simp
qed

text \<open>\<open>connect\<close> on Linux, where \<open>EAGAIN\<close> has a meaning of its own.\<close>

definition so_connect :: "socket_type \<Rightarrow> bool \<Rightarrow> script \<Rightarrow> ((int \<times> error_code) \<times> script) option" where
  "so_connect s is_unix os =
     (if s = invalid_socket then Some ((-1, Some Bad_Descriptor), os)
      else case os of [] \<Rightarrow> None
      | r # os' \<Rightarrow>
          let result = sys_value r; ec = get_last_error (result \<noteq> 0) (errno r)
          in Some ((result,
               if result \<noteq> 0 \<and> ec = Some Try_Again
               then (if is_unix then Some In_Progress else Some No_Buffer_Space)
               else ec), os'))"

text \<open>The pending error of a socket, \<open>getsockopt\<close> of \<open>SO_ERROR\<close>: the value is the code of an error,
  \<open>0\<close> for none.\<close>

definition error_of_code :: "nat \<Rightarrow> error_code" where
  "error_of_code n = (if n = 0 then None else Some (Other_Error n))"

definition sync_connect :: "socket_type \<Rightarrow> bool \<Rightarrow> script \<Rightarrow> (error_code \<times> script) option" where
  "sync_connect s is_unix os =
     (case so_connect s is_unix os of None \<Rightarrow> None
      | Some ((res, ec), os1) \<Rightarrow>
          if ec \<noteq> Some In_Progress \<and> ec \<noteq> Some Would_Block then Some (ec, os1)
          else case poll_connect s os1 of None \<Rightarrow> None
          | Some ((res2, ec2), os2) \<Rightarrow>
              if res2 < 0 then Some (ec2, os2)
              else case os2 of [] \<Rightarrow> None
              | Inl e # os3 \<Rightarrow> Some (Some e, os3)
              | Inr connect_error # os3 \<Rightarrow> Some (error_of_code connect_error, os3))"

text \<open>The error code stays what it was if the pending error cannot be read.\<close>

definition non_blocking_connect :: "error_code \<Rightarrow> script \<Rightarrow> ((bool \<times> error_code) \<times> script) option" where
  "non_blocking_connect ec os =
     (case os of [] \<Rightarrow> None
      | ready # os1 \<Rightarrow>
          if sys_value ready = 0 then Some ((False, ec), os1)
          else case os1 of [] \<Rightarrow> None
          | Inl e # os2 \<Rightarrow> Some ((True, Some e), os2)
          | Inr connect_error # os2 \<Rightarrow> Some ((True, error_of_code connect_error), os2))"

section \<open>Binding, listening, modes and closing\<close>

definition so_bind :: "socket_type \<Rightarrow> script \<Rightarrow> ((int \<times> error_code) \<times> script) option" where
  "so_bind s os =
     (if s = invalid_socket then Some ((-1, Some Bad_Descriptor), os)
      else case os of [] \<Rightarrow> None
      | r # os' \<Rightarrow> let result = sys_value r in
          Some ((result, get_last_error (result \<noteq> 0) (errno r)), os'))"

definition so_listen :: "socket_type \<Rightarrow> script \<Rightarrow> ((int \<times> error_code) \<times> script) option" where
  "so_listen s os =
     (if s = invalid_socket then Some ((-1, Some Bad_Descriptor), os)
      else case os of [] \<Rightarrow> None
      | r # os' \<Rightarrow> let result = sys_value r in
          Some ((result, get_last_error (result \<noteq> 0) (errno r)), os'))"

definition so_shutdown :: "socket_type \<Rightarrow> script \<Rightarrow> ((int \<times> error_code) \<times> script) option" where
  "so_shutdown s os =
     (if s = invalid_socket then Some ((-1, Some Bad_Descriptor), os)
      else case os of [] \<Rightarrow> None
      | r # os' \<Rightarrow> let result = sys_value r in
          Some ((result, get_last_error (result \<noteq> 0) (errno r)), os'))"

definition set_user_non_blocking :: "socket_type \<Rightarrow> state_type \<Rightarrow> bool \<Rightarrow> script
    \<Rightarrow> ((bool \<times> error_code \<times> state_type) \<times> script) option" where
  "set_user_non_blocking s state value os =
     (if s = invalid_socket then Some ((False, Some Bad_Descriptor, state), os)
      else case os of [] \<Rightarrow> None
      | r # os' \<Rightarrow>
          let result = sys_value r; ec = get_last_error (result < 0) (errno r)
          in if 0 \<le> result
             then Some ((True, ec, if value then state OR user_set_non_blocking
                                   else state AND NOT (user_set_non_blocking OR internal_non_blocking)), os')
             else Some ((False, ec, state), os'))"

definition set_internal_non_blocking :: "socket_type \<Rightarrow> state_type \<Rightarrow> bool \<Rightarrow> script
    \<Rightarrow> ((bool \<times> error_code \<times> state_type) \<times> script) option" where
  "set_internal_non_blocking s state value os =
     (if s = invalid_socket then Some ((False, Some Bad_Descriptor, state), os)
      else if \<not> value \<and> flag state user_set_non_blocking
      then Some ((False, Some Invalid_Argument, state), os)
      else case os of [] \<Rightarrow> None
      | r # os' \<Rightarrow>
          let result = sys_value r; ec = get_last_error (result < 0) (errno r)
          in if 0 \<le> result
             then Some ((True, ec, if value then state OR internal_non_blocking
                                   else state AND NOT internal_non_blocking), os')
             else Some ((False, ec, state), os'))"

text \<open>
  \<open>close\<close>: the linger option is reset by a call whose result is ignored; a close that would block
  is repeated after the descriptor has been put back into blocking mode (result ignored, too).
\<close>

definition so_close :: "socket_type \<Rightarrow> state_type \<Rightarrow> bool \<Rightarrow> script
    \<Rightarrow> ((int \<times> error_code \<times> state_type) \<times> script) option" where
  "so_close s state destruction os =
     (if s = invalid_socket then Some ((0, None, state), os)
      else
        let os0 = (if destruction \<and> flag state user_set_linger then List.tl os else os)
        in case os0 of [] \<Rightarrow> None
        | r # os1 \<Rightarrow>
            let result = sys_value r; ec = get_last_error (result \<noteq> 0) (errno r)
            in if result \<noteq> 0 \<and> retryable ec then
                 let state1 = state AND NOT non_blocking
                 in case List.tl os1 of [] \<Rightarrow> None
                 | r2 # os2 \<Rightarrow>
                     let result2 = sys_value r2
                     in Some ((result2, get_last_error (result2 \<noteq> 0) (errno r2), state1), os2)
               else Some ((result, ec, state), os1))"

end
