(* ===== verification/Asio_Reactor_Facts.thy ===== *)
theory Asio_Reactor_Facts
  imports Asio_Reactor
begin

text \<open>
  The life of a descriptor in the reactor of \<open>Asio_Reactor\<close>: operations are started, performed when
  events arrive and cancelled, in any order and with any outcome. Each completes exactly once, in
  the order of starting within its type.
\<close>

section \<open>The life of a descriptor\<close>

text \<open>
  \<open>ok\<close> says which performers can occur, \<open>ty\<close> gives the type an operation is started with, \<open>keyed\<close>
  allows the cancellation by key. A socket forgets the descriptor when it deregisters it, so
  nothing is started after that. The histories are the operations started, by identifier, and
  those completed, in order.
\<close>

inductive descriptor_run :: "(performer \<Rightarrow> bool) \<Rightarrow> (nat \<Rightarrow> op_type) \<Rightarrow> bool \<Rightarrow> descriptor_state \<Rightarrow> nat list
    \<Rightarrow> reactor_op list \<Rightarrow> bool"
  for ok ty keyed where
  new: "register_descriptor s ctl = (d, None) \<Longrightarrow> descriptor_run ok ty keyed d [] []"
| immediate: "descriptor_run ok ty keyed d st cs \<Longrightarrow> ok pf \<Longrightarrow> \<not> d_shutdown d \<Longrightarrow> ty i < max_ops
    \<Longrightarrow> start_op (ty i) (Some d) (new_reactor_op i key) allow_speculative pf ctl = (Some d', Immediate y)
    \<Longrightarrow> descriptor_run ok ty keyed d' (st @ [i]) (cs @ [y])"
| queued: "descriptor_run ok ty keyed d st cs \<Longrightarrow> ok pf \<Longrightarrow> \<not> d_shutdown d \<Longrightarrow> ty i < max_ops
    \<Longrightarrow> start_op (ty i) (Some d) (new_reactor_op i key) allow_speculative pf ctl = (Some d', Queued)
    \<Longrightarrow> descriptor_run ok ty keyed d' (st @ [i]) cs"
| io: "descriptor_run ok ty keyed d st cs \<Longrightarrow> ok pf \<Longrightarrow> perform_io pf events d = (d', cs')
    \<Longrightarrow> descriptor_run ok ty keyed d' st (cs @ cs')"
| cancel: "descriptor_run ok ty keyed d st cs \<Longrightarrow> cancel_ops (Some d) = (Some d', cs')
    \<Longrightarrow> descriptor_run ok ty keyed d' st (cs @ cs')"
| by_key: "descriptor_run ok ty keyed d st cs \<Longrightarrow> keyed \<Longrightarrow> t < max_ops
    \<Longrightarrow> cancel_ops_by_key (Some d) t key = (Some d', cs')
    \<Longrightarrow> descriptor_run ok ty keyed d' st (cs @ cs')"
| deregister: "descriptor_run ok ty keyed d st cs \<Longrightarrow> deregister_descriptor (Some d) = (Some d', cs')
    \<Longrightarrow> descriptor_run ok ty keyed d' st (cs @ cs')"

section \<open>Order\<close>

definition of_type :: "(nat \<Rightarrow> op_type) \<Rightarrow> op_type \<Rightarrow> nat list \<Rightarrow> nat list" where
  "of_type ty t ids = filter (\<lambda>i. ty i = t) ids"

lemma of_type_append [simp]: "of_type ty t (xs @ ys) = of_type ty t xs @ of_type ty t ys"
  by (simp add: of_type_def)

lemma of_type_Nil [simp]: "of_type ty t [] = []"
  by (simp add: of_type_def)

lemma of_type_single [simp]: "of_type ty t [i] = (if ty i = t then [i] else [])"
  by (simp add: of_type_def)

lemma of_type_self: "\<forall>i \<in> set ids. ty i = t \<Longrightarrow> of_type ty t ids = ids"
  by (simp add: of_type_def)

lemma of_type_other: "\<forall>i \<in> set ids. ty i = u \<Longrightarrow> u \<noteq> t \<Longrightarrow> of_type ty t ids = []"
  by (simp add: of_type_def filter_empty_conv)

text \<open>Equal, or only equal up to order.\<close>

definition same :: "bool \<Rightarrow> nat list \<Rightarrow> nat list \<Rightarrow> bool" where
  "same keyed xs ys \<longleftrightarrow> mset xs = mset ys \<and> (\<not> keyed \<longrightarrow> xs = ys)"

lemma same_append: "same keyed xs ys \<Longrightarrow> same keyed (xs @ zs) (ys @ zs)"
  by (simp add: same_def)

definition order_inv :: "(nat \<Rightarrow> op_type) \<Rightarrow> bool \<Rightarrow> descriptor_state \<Rightarrow> nat list \<Rightarrow> reactor_op list \<Rightarrow> bool" where
  "order_inv ty keyed d st cs \<longleftrightarrow> (\<forall>t < max_ops.
     (\<forall>x \<in> set (d_queue d t). ty (ro_id x) = t)
     \<and> same keyed (of_type ty t (map ro_id cs) @ map ro_id (d_queue d t)) (of_type ty t st)
     \<and> (d_shutdown d \<longrightarrow> d_queue d t = []))"

lemma perform_id: "perform pf x = (st, y) \<Longrightarrow> ro_id y = ro_id x"
  by (auto simp: perform_def split: prod.splits)

lemma perform_loop_ids:
  "perform_loop pf q spec = (cs, q', spec') \<Longrightarrow> map ro_id cs @ map ro_id q' = map ro_id q"
proof (induction pf q spec arbitrary: cs q' spec' rule: perform_loop.induct)
  case (2 pf x q spec)
  obtain st x1 where p: "perform pf x = (st, x1)" by (cases "perform pf x")
  obtain cs1 q1 spec1 where r: "perform_loop pf q spec = (cs1, q1, spec1)"
    by (cases "perform_loop pf q spec")
  show ?case
    using "2.IH" [OF p [symmetric] refl _ _ r] "2.prems" perform_id [OF p] p r
    by (auto split: if_splits)
qed simp

lemma perform_type_accumulates:
  assumes "perform_type pf events t (d, cs) = (d', cs')"
  shows "perform_type pf events t (d, as @ cs) = (d', as @ cs')"
  using assms by (auto simp: perform_type_def split: prod.splits if_splits)

lemma order_perform_type:
  assumes "order_inv ty keyed d st cs" "t < max_ops" "perform_type pf events t (d, cs) = (d', cs')"
  shows "order_inv ty keyed d' st cs'"
proof (cases "events AND (io_flag t OR EPOLLERR OR EPOLLHUP) = 0")
  case False
  obtain ds q spec where p: "perform_loop pf (d_queue d t) True = (ds, q, spec)"
    by (cases "perform_loop pf (d_queue d t) True")
  note ids = perform_loop_ids [OF p]
  have d': "d_queue d' = (d_queue d)(t := q)" "d_shutdown d' = d_shutdown d" "cs' = cs @ ds"
    using assms(3) p False by (auto simp: perform_type_def)
  have ty: "\<forall>i \<in> set (map ro_id ds). ty i = t" "\<forall>i \<in> set (map ro_id q). ty i = t"
  proof -
    have "\<forall>i \<in> set (map ro_id (d_queue d t)). ty i = t"
      using assms(1,2) by (auto simp: order_inv_def)
    then show "\<forall>i \<in> set (map ro_id ds). ty i = t" "\<forall>i \<in> set (map ro_id q). ty i = t"
      unfolding ids [symmetric] by auto
  qed
  have "q = []" if "d_queue d t = []" using ids that by simp
  then show ?thesis
    using assms(1) ids ty of_type_self [OF ty(1)] of_type_other [OF ty(1)]
    by (auto simp: order_inv_def d')
qed (use assms in \<open>auto simp: perform_type_def\<close>)

lemma order_perform_io:
  assumes "order_inv ty keyed d st cs" "perform_io pf events d = (d', cs')"
  shows "order_inv ty keyed d' st (cs @ cs')"
proof -
  obtain d2 c2 where p2: "perform_type pf events 2 (d, []) = (d2, c2)" by (metis surj_pair)
  obtain d1 c1 where p1: "perform_type pf events 1 (d2, c2) = (d1, c1)" by (metis surj_pair)
  have p0: "perform_type pf events 0 (d1, c1) = (d', cs')"
    using assms(2) unfolding perform_io_def p2 p1 .
  have "perform_type pf events 2 (d, cs) = (d2, cs @ c2)"
    using perform_type_accumulates [OF p2, of cs] by simp
  then have "order_inv ty keyed d2 st (cs @ c2)"
    by (rule order_perform_type [OF assms(1), rotated]) (simp add: max_ops_def)
  then have "order_inv ty keyed d1 st (cs @ c1)"
    by (rule order_perform_type [OF _ _ perform_type_accumulates [OF p1]]) (simp add: max_ops_def)
  then show ?thesis
    by (rule order_perform_type [OF _ _ perform_type_accumulates [OF p0]]) (simp add: max_ops_def)
qed

text \<open>Starting an operation pushes it, or completes it while the queue of its type is empty.\<close>

lemma start_op_cases:
  assumes "start_op t (Some d) x allow_speculative pf ctl = (Some d', eff)"
  obtains (at_once) y where "eff = Immediate y" "ro_id y = ro_id x" "d_queue d' = d_queue d"
      "d_shutdown d' = d_shutdown d" "d_shutdown d \<or> d_queue d t = []"
  | (later) y where "eff = Queued" "ro_id y = ro_id x" "\<not> d_shutdown d" "\<not> d_shutdown d'"
      "d_queue d' = (d_queue d)(t := d_queue d t @ [y])"
proof -
  obtain s1 x1 where p: "perform pf x = (s1, x1)" by (cases "perform pf x")
  have "(\<exists>y. eff = Immediate y \<and> ro_id y = ro_id x \<and> d_queue d' = d_queue d
      \<and> d_shutdown d' = d_shutdown d \<and> (d_shutdown d \<or> d_queue d t = []))
    \<or> eff = Queued \<and> \<not> d_shutdown d \<and> \<not> d_shutdown d'
      \<and> (d_queue d' = (d_queue d)(t := d_queue d t @ [x])
        \<or> d_queue d' = (d_queue d)(t := d_queue d t @ [x1]))"
    using assms perform_id [OF p]
    by (auto simp: start_op_def push_op_def p split: if_splits option.splits)
  then show ?thesis using at_once later perform_id [OF p] by blast
qed

lemma order_start:
  assumes "order_inv ty keyed d st cs" "ty (ro_id x) = t" "t < max_ops"
    and "start_op t (Some d) x allow_speculative pf ctl = (Some d', eff)"
  shows "order_inv ty keyed d' (st @ [ro_id x]) (cs @ (case eff of Immediate y \<Rightarrow> [y] | Queued \<Rightarrow> []))"
  using assms(4)
proof (cases rule: start_op_cases)
  case (at_once y)
  then have q: "d_queue d t = []" using assms(1,3) by (auto simp: order_inv_def)
  have "same keyed (of_type ty t (map ro_id cs) @ [ro_id x]) (of_type ty t st @ [ro_id x])"
    using assms(1,3) q same_append [of keyed _ _ "[ro_id x]"] by (fastforce simp: order_inv_def)
  then show ?thesis
    using assms(1) at_once q by (auto simp: order_inv_def assms(2))
next
  case (later y)
  have "same keyed (of_type ty t (map ro_id cs) @ map ro_id (d_queue d t) @ [ro_id x])
      (of_type ty t st @ [ro_id x])"
    using assms(1,3) same_append [of keyed _ _ "[ro_id x]"] by (fastforce simp: order_inv_def)
  then show ?thesis
    using assms(1) later by (auto simp: order_inv_def assms(2))
qed

lemma aborted_id [simp]: "ro_id (aborted x) = ro_id x" "map (ro_id \<circ> aborted) q = map ro_id q"
  by (simp_all add: aborted_def o_def)

text \<open>The queues emptied by a cancellation, type by type.\<close>

lemma of_type_queues:
  assumes "order_inv ty keyed d st cs" "t < max_ops"
  shows "of_type ty t (map ro_id (concat (map (\<lambda>u. map aborted (d_queue d u)) [0 ..< max_ops])))
    = map ro_id (d_queue d t)"
proof -
  have q: "of_type ty t (map ro_id (map aborted (d_queue d u)))
      = (if u = t then map ro_id (d_queue d t) else [])" if "u < max_ops" for u
  proof -
    have "\<forall>i \<in> set (map ro_id (d_queue d u)). ty i = u"
      using assms(1) that by (auto simp: order_inv_def)
    then show ?thesis
      using of_type_self [of "map ro_id (d_queue d u)" ty u]
        of_type_other [of "map ro_id (d_queue d u)" ty u t] by auto
  qed
  have t: "t = 0 \<or> t = 1 \<or> t = 2" using assms(2) by (auto simp: max_ops_def)
  have "[0 ..< max_ops] = [0, 1, 2]" by (simp add: max_ops_def upt_rec)
  then show ?thesis
    using q [of 0] q [of 1] q [of 2] t by (auto simp: max_ops_def simp del: map_map)
qed

lemma order_emptied:
  assumes "order_inv ty keyed d st cs" "d_queue d' = (d_queue d)(0 := [], 1 := [], 2 := [])"
    and "cs' = concat (map (\<lambda>u. map aborted (d_queue d u)) [0 ..< max_ops])"
  shows "order_inv ty keyed d' st (cs @ cs')"
proof -
  have empty: "d_queue d' t = []" if "t < max_ops" for t
    using that by (auto simp: assms(2) max_ops_def)
  show ?thesis
    using assms(1) of_type_queues [OF assms(1)] empty by (auto simp: order_inv_def assms(3))
qed

lemma order_by_key:
  assumes "order_inv ty True d st cs" "t < max_ops" "cancel_ops_by_key (Some d) t key = (Some d', cs')"
  shows "order_inv ty True d' st (cs @ cs')"
proof -
  let ?q = "d_queue d t"
  have d': "d_queue d' = (d_queue d)(t := filter (\<lambda>x. ro_key x \<noteq> key) ?q)"
    "d_shutdown d' = d_shutdown d" "cs' = map aborted (filter (\<lambda>x. ro_key x = key) ?q)"
    using assms(3) by (auto simp: cancel_ops_by_key_def)
  have ids: "map ro_id cs' = map ro_id (filter (\<lambda>x. ro_key x = key) ?q)"
    by (simp add: d'(3))
  have ty: "\<forall>i \<in> set (map ro_id cs'). ty i = t"
    using assms(1,2) by (auto simp: ids order_inv_def)
  have "mset (map ro_id cs') + mset (map ro_id (filter (\<lambda>x. ro_key x \<noteq> key) ?q)) = mset (map ro_id ?q)"
    unfolding ids mset_map by (subst image_mset_union [symmetric]) (simp add: mset_filter multiset_partition [symmetric])
  then have "same True (of_type ty t (map ro_id (cs @ cs'))
      @ map ro_id (filter (\<lambda>x. ro_key x \<noteq> key) ?q)) (of_type ty t st)"
    using assms(1,2) of_type_self [OF ty] by (simp add: order_inv_def same_def)
  then show ?thesis
    using assms(1,2) of_type_other [OF ty] by (auto simp: order_inv_def d'(1,2))
qed

lemma order_run: "descriptor_run ok ty keyed d st cs \<Longrightarrow> order_inv ty keyed d st cs"
proof (induction rule: descriptor_run.induct)
  case (new s ctl d)
  then show ?case
    by (auto simp: register_descriptor_def allocated_def order_inv_def same_def Let_def
        split: option.splits if_splits)
next
  case (immediate d st cs pf i key allow_speculative ctl d' y)
  then show ?case
    using order_start [of ty keyed d st cs "new_reactor_op i key" "ty i"]
    by (fastforce simp: new_reactor_op_def)
next
  case (queued d st cs pf i key allow_speculative ctl d')
  then show ?case
    using order_start [of ty keyed d st cs "new_reactor_op i key" "ty i"]
    by (fastforce simp: new_reactor_op_def)
next
  case (cancel d st cs d' cs')
  then show ?case by (intro order_emptied) (auto simp: cancel_ops_def)
next
  case (by_key d st cs t key d' cs')
  then show ?case by (auto intro: order_by_key)
next
  case (deregister d st cs d' cs')
  then show ?case by (intro order_emptied) (auto simp: deregister_descriptor_def split: if_splits)
next
  case (io d st cs pf events d' cs')
  then show ?case by (blast intro: order_perform_io)
qed

text \<open>C34: Over the whole life of a descriptor, with operations started, performed and cancelled in
  any order and with any outcome of the system calls, each operation is at every moment either
  still queued or completed exactly once; and unless operations are cancelled by key, those of one
  type complete in the order in which they were started.\<close>

theorem reactor_order:
  assumes "descriptor_run ok ty keyed d st cs" "t < max_ops"
  shows "mset (of_type ty t (map ro_id cs)) + mset (map ro_id (d_queue d t)) = mset (of_type ty t st)
    \<and> (\<not> keyed \<longrightarrow> of_type ty t (map ro_id cs) @ map ro_id (d_queue d t) = of_type ty t st)"
  using order_run [OF assms(1)] assms(2) by (auto simp: order_inv_def same_def)

text \<open>Two writes wait for room, and are performed when it is there; a read is aborted at the end.\<close>

definition odd_is_read :: "nat \<Rightarrow> op_type" where
  "odd_is_read i = (if odd i then epoll_read_op else epoll_write_op)"

definition waits :: performer where
  "waits x = (Not_Done, Some Would_Block, 0)"

definition succeeds :: performer where
  "succeeds x = (Done, None, 3)"

lemma sample_run:
  "\<exists>d y z w. descriptor_run (\<lambda>_. True) odd_is_read False d [0, 1, 2] [y, z, w]
    \<and> ro_id y = 0 \<and> ro_id z = 2 \<and> ro_id w = 1 \<and> d_queue d = (\<lambda>t. [])"
proof -
  note defs = odd_is_read_def op_types register_descriptor_def allocated_def
    start_op_def push_op_def perform_def waits_def succeeds_def new_reactor_op_def Let_def
    EPOLLIN_def EPOLLPRI_def EPOLLOUT_def EPOLLERR_def EPOLLHUP_def EPOLLET_def
  define d0 where "d0 = fst (register_descriptor 5 None)"
  define d1 where "d1 = the (fst (start_op 1 (Some d0) (new_reactor_op 0 0) True waits None))"
  define d2 where "d2 = the (fst (start_op 0 (Some d1) (new_reactor_op 1 0) True waits None))"
  define d3 where "d3 = the (fst (start_op 1 (Some d2) (new_reactor_op 2 0) True waits None))"
  let ?run = "descriptor_run (\<lambda>_. True) odd_is_read False"
  have "?run d0 [] []" by (rule descriptor_run.new [of 5 None]) (simp add: d0_def defs)
  then have "?run d1 ([] @ [0]) []"
    by (rule descriptor_run.queued [where pf = waits and key = 0 and allow_speculative = True and ctl = None])
      (simp_all add: d1_def d0_def defs)
  then have "?run d2 (([] @ [0]) @ [1]) []"
    by (rule descriptor_run.queued [where pf = waits and key = 0 and allow_speculative = True and ctl = None])
      (simp_all add: d2_def d1_def d0_def defs)
  then have r3: "?run d3 ((([] @ [0]) @ [1]) @ [2]) []"
    by (rule descriptor_run.queued [where pf = waits and key = 0 and allow_speculative = True and ctl = None])
      (simp_all add: d3_def d2_def d1_def d0_def defs)
  have q3: "d_queue d3 = (\<lambda>t. [])(0 := [(new_reactor_op 1 0)\<lparr>ro_ec := Some Would_Block\<rparr>],
      1 := [(new_reactor_op 0 0)\<lparr>ro_ec := Some Would_Block\<rparr>, new_reactor_op 2 0])"
    by (simp add: d3_def d2_def d1_def d0_def defs)
  obtain d4 y z where io: "perform_io succeeds EPOLLOUT d3 = (d4, [y, z])" "ro_id y = 0" "ro_id z = 2"
    "d_queue d4 = (\<lambda>t. [])(0 := [(new_reactor_op 1 0)\<lparr>ro_ec := Some Would_Block\<rparr>])"
    by (simp add: perform_io_def perform_type_def io_flag_def q3 defs fun_upd_twist fun_upd_idem)
  have "\<not> d_shutdown d3" by (simp add: d3_def d2_def d1_def d0_def defs)
  then have "\<not> d_shutdown d4"
    using io(1) by (auto simp: perform_io_def perform_type_def io_flag_def q3 defs)
  then obtain d5 w where de: "deregister_descriptor (Some d4) = (Some d5, [w])" "ro_id w = 1"
    "d_queue d5 = (\<lambda>t. [])"
    by (simp add: deregister_descriptor_def io(4) aborted_def new_reactor_op_def max_ops_def upt_rec
        fun_eq_iff)
  show ?thesis
    using descriptor_run.deregister [OF descriptor_run.io [OF r3 _ io(1)] de(1)] io(2,3) de(2,3)
    by fastforce
qed

theorem reactor_order_witness:
  "\<exists>d cs. descriptor_run (\<lambda>_. True) odd_is_read False d [0, 1, 2] cs
    \<and> of_type odd_is_read 1 (map ro_id cs) = [0, 2]"
proof -
  obtain d cs where run: "descriptor_run (\<lambda>_. True) odd_is_read False d [0, 1, 2] cs"
    "d_queue d = (\<lambda>t. [])"
    using sample_run by blast
  then have "of_type odd_is_read 1 (map ro_id cs) = of_type odd_is_read 1 [0, 1, 2]"
    using reactor_order [OF run(1), of 1] by (simp add: max_ops_def)
  also have "\<dots> = [0, 2]" by (simp add: of_type_def odd_is_read_def op_types)
  finally show ?thesis using run(1) by blast
qed

section \<open>Outcomes\<close>

text \<open>
  What an operation with a buffer of \<open>len\<close> bytes is completed with: at most as many bytes, at least
  one unless it failed, and none if it failed.
\<close>

definition outcome_ok :: "nat \<Rightarrow> error_code \<Rightarrow> nat \<Rightarrow> bool" where
  "outcome_ok len ec n \<longleftrightarrow> n \<le> len \<and> (ec = None \<longleftrightarrow> 0 < n)"

text \<open>
  What POSIX documents of \<open>send\<close> and \<open>recv\<close> with a non-empty buffer: they transfer no more than the
  buffer holds, and \<open>send\<close> does not succeed without sending. (\<open>recv\<close> does, at the end of the stream.)
\<close>

definition transfers_at_most :: "nat \<Rightarrow> script \<Rightarrow> bool" where
  "transfers_at_most len os \<longleftrightarrow> (\<forall>n. Inr n \<in> set os \<longrightarrow> n \<le> len)"

definition sends_some :: "script \<Rightarrow> bool" where
  "sends_some os \<longleftrightarrow> Inr 0 \<notin> set os"

lemma so_simps [simp]:
  "so_recv (Inl e) = (-1, Some e)" "so_recv (Inr n) = (int n, None)"
  "so_recv1 (Inl e) = (-1, Some e)" "so_recv1 (Inr n) = (int n, None)"
  "so_send (Inl e) = (-1, Some e)" "so_send (Inr n) = (int n, None)"
  "so_send1 (Inl e) = (-1, Some e)" "so_send1 (Inr n) = (int n, None)"
  by (simp_all add: so_recv_def so_recv1_def so_send_def so_send1_def sys_value_def
      get_last_error_def errno_def)

text \<open>A step of any of the four loops: finished with a legal outcome, or to be run again.\<close>

definition progress_ok :: "nat \<Rightarrow> progress \<Rightarrow> bool" where
  "progress_ok len p \<longleftrightarrow> (case p of (finished, ec, n) \<Rightarrow>
     if finished then outcome_ok len ec n else n = 0)"

lemmas progress_defs = progress_ok_def outcome_ok_def transfers_at_most_def sends_some_def

lemma non_blocking_recv_ok:
  "transfers_at_most len os \<Longrightarrow> non_blocking_recv True os 0 = Some (p, os') \<Longrightarrow> progress_ok len p"
proof (induction os)
  case (Cons r os)
  then show ?case by (cases r) (auto simp: progress_defs split: if_splits)
qed simp

lemma non_blocking_recv1_ok:
  "transfers_at_most len os \<Longrightarrow> non_blocking_recv1 True os 0 = Some (p, os') \<Longrightarrow> progress_ok len p"
proof (induction os)
  case (Cons r os)
  then show ?case by (cases r) (auto simp: progress_defs split: if_splits)
qed simp

lemma non_blocking_send_ok:
  "transfers_at_most len os \<Longrightarrow> sends_some os \<Longrightarrow> non_blocking_send os 0 = Some (p, os')
    \<Longrightarrow> progress_ok len p"
proof (induction os)
  case (Cons r os)
  then show ?case by (cases r) (auto simp: progress_defs split: if_splits)
qed simp

lemma non_blocking_send1_ok:
  "transfers_at_most len os \<Longrightarrow> sends_some os \<Longrightarrow> non_blocking_send1 os 0 = Some (p, os')
    \<Longrightarrow> progress_ok len p"
proof (induction os)
  case (Cons r os)
  then show ?case by (cases r) (auto simp: progress_defs split: if_splits)
qed simp

text \<open>
  The performers of a connected stream socket: each operation, with a buffer of \<open>len i\<close> bytes,
  receives or sends on some results of the system calls that are as documented.
\<close>

definition socket_performer :: "(nat \<Rightarrow> nat) \<Rightarrow> performer \<Rightarrow> bool" where
  "socket_performer len pf \<longleftrightarrow> (\<forall>x. \<exists>single state os os'.
     flag state stream_oriented \<and> transfers_at_most (len (ro_id x)) os
     \<and> (recv_do_perform single state os (ro_bytes x) = Some (pf x, os')
       \<or> sends_some os \<and> send_do_perform single state (len (ro_id x)) os (ro_bytes x) = Some (pf x, os')))"

definition performed_ok :: "nat \<Rightarrow> status \<times> error_code \<times> nat \<Rightarrow> bool" where
  "performed_ok len p \<longleftrightarrow> (case p of (st, ec, n) \<Rightarrow>
     if st = Not_Done then n = 0 else outcome_ok len ec n)"

lemma recv_do_perform_ok:
  assumes "flag state stream_oriented" "transfers_at_most len os"
    and "recv_do_perform single state os 0 = Some (p, os')"
  shows "performed_ok len p"
  using assms non_blocking_recv_ok [OF assms(2)] non_blocking_recv1_ok [OF assms(2)]
  by (auto simp: recv_do_perform_def performed_ok_def progress_ok_def split: if_splits)

lemma send_do_perform_ok:
  assumes "transfers_at_most len os" "sends_some os"
    and "send_do_perform single state k os 0 = Some (p, os')"
  shows "performed_ok len p"
  using assms non_blocking_send_ok [OF assms(1,2)] non_blocking_send1_ok [OF assms(1,2)]
  by (auto simp: send_do_perform_def performed_ok_def progress_ok_def split: if_splits)

lemma socket_performer_ok:
  assumes "socket_performer len pf" "perform pf x = (st, y)" "ro_bytes x = 0"
  shows "ro_id y = ro_id x" "ro_key y = ro_key x"
    "if st = Not_Done then ro_bytes y = 0 else outcome_ok (len (ro_id x)) (ro_ec y) (ro_bytes y)"
proof -
  obtain st' ec n where pf: "pf x = (st', ec, n)" by (cases "pf x")
  have "performed_ok (len (ro_id x)) (pf x)"
    using assms(1,3) recv_do_perform_ok send_do_perform_ok unfolding socket_performer_def by metis
  then show "ro_id y = ro_id x" "ro_key y = ro_key x"
    "if st = Not_Done then ro_bytes y = 0 else outcome_ok (len (ro_id x)) (ro_ec y) (ro_bytes y)"
    using assms(2) pf by (auto simp: perform_def performed_ok_def)
qed

definition outcome_inv :: "(nat \<Rightarrow> nat) \<Rightarrow> descriptor_state \<Rightarrow> reactor_op list \<Rightarrow> bool" where
  "outcome_inv len d cs \<longleftrightarrow> (\<forall>t < max_ops. \<forall>x \<in> set (d_queue d t). ro_bytes x = 0)
     \<and> (\<forall>y \<in> set cs. outcome_ok (len (ro_id y)) (ro_ec y) (ro_bytes y))"

lemma outcome_aborted: "ro_bytes x = 0 \<Longrightarrow> outcome_ok k (ro_ec (aborted x)) (ro_bytes (aborted x))"
  by (simp add: aborted_def outcome_ok_def)

lemma outcome_loop:
  assumes "socket_performer len pf" "\<forall>x \<in> set q. ro_bytes x = 0" "perform_loop pf q spec = (cs, q', spec')"
  shows "(\<forall>x \<in> set q'. ro_bytes x = 0) \<and> (\<forall>y \<in> set cs. outcome_ok (len (ro_id y)) (ro_ec y) (ro_bytes y))"
  using assms(2,3)
proof (induction q arbitrary: spec cs q' spec')
  case (Cons x q)
  obtain st x1 where p: "perform pf x = (st, x1)" by (cases "perform pf x")
  obtain cs1 q1 spec1 where r: "perform_loop pf q spec = (cs1, q1, spec1)"
    by (cases "perform_loop pf q spec")
  show ?case
    using Cons.IH [OF _ r] Cons.prems socket_performer_ok [OF assms(1) p] p r
    by (auto split: if_splits)
qed simp

lemma outcome_type:
  assumes "outcome_inv len d cs" "socket_performer len pf" "t < max_ops"
    and "perform_type pf events t (d, cs) = (d', cs')"
  shows "outcome_inv len d' cs'"
proof -
  obtain ds q spec where p: "perform_loop pf (d_queue d t) True = (ds, q, spec)"
    by (cases "perform_loop pf (d_queue d t) True")
  show ?thesis
    using outcome_loop [OF assms(2) _ p] assms(1,3,4) p
    by (auto simp: outcome_inv_def perform_type_def split: if_splits)
qed

lemma outcome_io:
  assumes "outcome_inv len d cs" "socket_performer len pf" "perform_io pf events d = (d', cs')"
  shows "outcome_inv len d' (cs @ cs')"
proof -
  obtain d2 c2 where p2: "perform_type pf events 2 (d, []) = (d2, c2)" by (metis surj_pair)
  obtain d1 c1 where p1: "perform_type pf events 1 (d2, c2) = (d1, c1)" by (metis surj_pair)
  have p0: "perform_type pf events 0 (d1, c1) = (d', cs')"
    using assms(3) unfolding perform_io_def p2 p1 .
  have "perform_type pf events 2 (d, cs) = (d2, cs @ c2)"
    using perform_type_accumulates [OF p2, of cs] by simp
  then have "outcome_inv len d2 (cs @ c2)"
    by (rule outcome_type [OF assms(1,2), rotated]) (simp add: max_ops_def)
  then have "outcome_inv len d1 (cs @ c1)"
    by (rule outcome_type [OF _ assms(2) _ perform_type_accumulates [OF p1]]) (simp add: max_ops_def)
  then show ?thesis
    by (rule outcome_type [OF _ assms(2) _ perform_type_accumulates [OF p0]]) (simp add: max_ops_def)
qed

lemma outcome_start:
  assumes "outcome_inv len d cs" "socket_performer len pf" "\<not> d_shutdown d" "t < max_ops"
    and "start_op t (Some d) (new_reactor_op i key) allow_speculative pf ctl = (Some d', eff)"
  shows "outcome_inv len d' (cs @ (case eff of Immediate y \<Rightarrow> [y] | Queued \<Rightarrow> []))"
proof -
  let ?x = "new_reactor_op i key"
  obtain st x1 where p: "perform pf ?x = (st, x1)" by (cases "perform pf ?x")
  have x: "ro_bytes ?x = 0" "ro_id ?x = i" by (simp_all add: new_reactor_op_def)
  note ok = socket_performer_ok [OF assms(2) p x(1)]
  have fail: "outcome_ok k (Some e) 0" for k e by (simp add: outcome_ok_def)
  show ?thesis
    using assms(1,3,4,5) ok x fail
    by (auto simp: start_op_def push_op_def p outcome_inv_def split: if_splits option.splits)
qed


lemma outcome_emptied:
  assumes "outcome_inv len d cs" "d_queue d' = (d_queue d)(0 := [], 1 := [], 2 := [])"
    and "cs' = concat (map (\<lambda>u. map aborted (d_queue d u)) [0 ..< max_ops])"
  shows "outcome_inv len d' (cs @ cs')"
  using assms(1) outcome_aborted by (auto simp: outcome_inv_def assms(2,3) max_ops_def)

lemma outcome_run:
  "descriptor_run (socket_performer len) ty keyed d st cs \<Longrightarrow> outcome_inv len d cs"
proof (induction rule: descriptor_run.induct)
  case (new s ctl d)
  then show ?case
    by (auto simp: register_descriptor_def allocated_def outcome_inv_def Let_def
        split: option.splits if_splits)
next
  case (immediate d st cs pf i key allow_speculative ctl d' y)
  then show ?case using outcome_start [of len d cs pf "ty i" i key] by fastforce
next
  case (queued d st cs pf i key allow_speculative ctl d')
  then show ?case using outcome_start [of len d cs pf "ty i" i key] by fastforce
next
  case (io d st cs pf events d' cs')
  then show ?case by (blast intro: outcome_io)
next
  case (cancel d st cs d' cs')
  then show ?case by (intro outcome_emptied) (auto simp: cancel_ops_def)
next
  case (by_key d st cs t key d' cs')
  then show ?case
    using outcome_aborted by (auto simp: cancel_ops_by_key_def outcome_inv_def split: if_splits)
next
  case (deregister d st cs d' cs')
  then show ?case by (intro outcome_emptied) (auto simp: deregister_descriptor_def split: if_splits)
qed

text \<open>On a connected stream socket whose system calls behave as documented, every operation with
  a buffer of \<open>len i\<close> bytes that the reactor completes, at once, after waiting or by a
  cancellation, has transferred at most \<open>len i\<close> bytes, and it reports no error exactly if it has
  transferred some.\<close>

lemma reactor_outcomes:
  assumes "descriptor_run (socket_performer len) ty keyed d st cs" "y \<in> set cs"
  shows "ro_bytes y \<le> len (ro_id y) \<and> (ro_ec y = None \<longleftrightarrow> 0 < ro_bytes y)"
  using outcome_run [OF assms(1)] assms(2) by (auto simp: outcome_inv_def outcome_ok_def)

text \<open>A socket that takes \<open>n\<close> of \<open>len\<close> bytes at once.\<close>

definition sending :: "nat \<Rightarrow> nat \<Rightarrow> performer" where
  "sending len n x = fst (the (send_do_perform False stream_oriented len [Inr n] (ro_bytes x)))"

lemma sending:
  "send_do_perform False stream_oriented len [Inr n] k = Some (sending len n x, [])"
  "sending len n x = (if n < len then Done_And_Exhausted else Done, None, n)"
  by (simp_all add: sending_def send_do_perform_def flag_def stream_oriented_def)

lemma run_sending:
  assumes "0 < n" "n \<le> len"
  shows "\<exists>d y. descriptor_run (socket_performer (\<lambda>_. len)) (\<lambda>_. epoll_write_op) False d [0] [y]
    \<and> ro_id y = 0 \<and> ro_ec y = None \<and> ro_bytes y = n"
proof -
  have "\<exists>single state os os'. flag state stream_oriented \<and> transfers_at_most len os
      \<and> (recv_do_perform single state os (ro_bytes x) = Some (sending len n x, os')
        \<or> sends_some os \<and> send_do_perform single state len os (ro_bytes x) = Some (sending len n x, os'))"
    for x
    using sending(1) [of len n "ro_bytes x" x] assms
    by (intro exI [of _ False] exI [of _ stream_oriented] exI [of _ "[Inr n]"] exI [of _ "[]"])
      (simp add: flag_def stream_oriented_def transfers_at_most_def sends_some_def)
  then have pf: "socket_performer (\<lambda>_. len) (sending len n)"
    unfolding socket_performer_def by blast
  define d where "d = fst (register_descriptor 5 None)"
  have reg: "register_descriptor 5 None = (d, None)"
    and d: "\<not> d_shutdown d" "d_queue d = (\<lambda>t. [])" "try_speculative d = (\<lambda>t. True)"
    by (simp_all add: d_def register_descriptor_def allocated_def Let_def)
  obtain d' y where st: "start_op epoll_write_op (Some d) (new_reactor_op 0 0) True (sending len n) None
      = (Some d', Immediate y)" "ro_id y = 0" "ro_ec y = None" "ro_bytes y = n"
    by (cases "n < len") (simp_all add: start_op_def perform_def d sending(2) op_types new_reactor_op_def)
  let ?run = "descriptor_run (socket_performer (\<lambda>_. len)) (\<lambda>_. epoll_write_op) False"
  have "?run d [] []" by (rule descriptor_run.new [OF reg])
  then have "?run d' ([] @ [0]) ([] @ [y])"
    by (rule descriptor_run.immediate [where pf = "sending len n"])
      (use pf d(1) st(1) in \<open>auto simp: epoll_write_op_def max_ops_def\<close>)
  then show ?thesis using st(2-4) by auto
qed

lemma reactor_outcomes_example:
  "\<exists>d y. descriptor_run (socket_performer (\<lambda>_. 8)) (\<lambda>_. epoll_write_op) False d [0] [y]
    \<and> ro_ec y = None \<and> 0 < ro_bytes y \<and> ro_bytes y \<le> 8"
proof -
  obtain d y where run: "descriptor_run (socket_performer (\<lambda>_. 8)) (\<lambda>_. epoll_write_op) False d [0] [y]"
    "ro_ec y = None"
    using run_sending [of 5 8] by auto
  then show ?thesis using reactor_outcomes [OF run(1), of y] by auto
qed

end
