(* ===== verification/Asio_Composed.thy ===== *)
theory Asio_Composed
  imports Asio_Consuming
begin

text \<open>
  The composed operations of asio, \<open>asio/impl/write.hpp\<close> and \<open>asio/impl/read.hpp\<close>. They transfer a
  whole sequence of buffers by calling the stream's \<open>write_some\<close> or \<open>read_some\<close> until it is done;
  how much each call transfers and whether it fails is up to the stream, so a run is given by the
  outcomes of these calls. The main results are what a caller of \<open>async_write\<close> and \<open>async_read\<close>
  relies on.
\<close>

section \<open>Blocking writes and reads\<close>

text \<open>
  \<open>write\<close>: the outcomes of \<open>write_some\<close> are the bytes it took and the error it set. The result
  holds the addresses of the bytes written, in order, the error code and the number of bytes;
  \<open>None\<close> if the last call has not returned.
\<close>

fun write_loop :: "'c consumer_ops \<Rightarrow> condition \<Rightarrow> (nat \<times> error_code) list \<Rightarrow> error_code \<Rightarrow> 'c
    \<Rightarrow> (nat list \<times> error_code \<times> nat) option" where
  "write_loop ops cond os ec c =
     (if \<not> c_empty ops c then
        let max_size = adapt_size (cond ec (c_total ops c))
        in if max_size \<noteq> 0 then
             case os of
               [] \<Rightarrow> None
             | (n, ec') # os' \<Rightarrow>
                 map_option (\<lambda>(sent, r). (take n (addr_list (c_prepare ops c max_size)) @ sent, r))
                   (write_loop ops cond os' ec' (c_consume ops c n))
           else Some ([], ec, c_total ops c)
      else Some ([], ec, c_total ops c))"

definition write_buffers :: "'c consumer_ops \<Rightarrow> condition \<Rightarrow> (nat \<times> error_code) list \<Rightarrow> 'c
    \<Rightarrow> (nat list \<times> error_code \<times> nat) option" where
  "write_buffers ops cond os tmp = write_loop ops cond os None tmp"

text \<open>The overloads of \<open>write\<close> for buffer sequences. \<open>throw_error\<close> throws if the code is set.\<close>

definition throw_error :: "error_code \<Rightarrow> nat \<Rightarrow> asio_error + nat" where
  "throw_error ec n = (case ec of Some e \<Rightarrow> Inl e | None \<Rightarrow> Inr n)"

definition write_cond_ec :: "'c consumer_ops \<Rightarrow> condition \<Rightarrow> (nat \<times> error_code) list \<Rightarrow> 'c
    \<Rightarrow> (nat list \<times> error_code \<times> nat) option" where
  "write_cond_ec ops cond os c = write_buffers ops cond os c"

definition write_throws :: "'c consumer_ops \<Rightarrow> (nat \<times> error_code) list \<Rightarrow> 'c
    \<Rightarrow> (nat list \<times> (asio_error + nat)) option" where
  "write_throws ops os c = map_option (\<lambda>(sent, ec, n). (sent, throw_error ec n))
     (write_cond_ec ops transfer_all os c)"

definition write_ec :: "'c consumer_ops \<Rightarrow> (nat \<times> error_code) list \<Rightarrow> 'c
    \<Rightarrow> (nat list \<times> error_code \<times> nat) option" where
  "write_ec ops os c = write_cond_ec ops transfer_all os c"

definition write_cond_throws :: "'c consumer_ops \<Rightarrow> condition \<Rightarrow> (nat \<times> error_code) list \<Rightarrow> 'c
    \<Rightarrow> (nat list \<times> (asio_error + nat)) option" where
  "write_cond_throws ops cond os c = map_option (\<lambda>(sent, ec, n). (sent, throw_error ec n))
     (write_cond_ec ops cond os c)"

text \<open>\<open>read\<close>: an outcome of \<open>read_some\<close> is the bytes it stored in the prepared buffers.\<close>

definition scatter :: "nat list \<Rightarrow> byte list \<Rightarrow> memory \<Rightarrow> memory" where
  "scatter as bs m = (\<lambda>a. case map_of (zip as bs) a of None \<Rightarrow> m a | Some b \<Rightarrow> b)"

fun read_loop :: "'c consumer_ops \<Rightarrow> condition \<Rightarrow> (byte list \<times> error_code) list \<Rightarrow> error_code \<Rightarrow> 'c
    \<Rightarrow> memory \<Rightarrow> (memory \<times> error_code \<times> nat) option" where
  "read_loop ops cond os ec c m =
     (if \<not> c_empty ops c then
        let max_size = adapt_size (cond ec (c_total ops c))
        in if max_size \<noteq> 0 then
             case os of
               [] \<Rightarrow> None
             | (bs, ec') # os' \<Rightarrow>
                 read_loop ops cond os' ec' (c_consume ops c (length bs))
                   (scatter (addr_list (c_prepare ops c max_size)) bs m)
           else Some (m, ec, c_total ops c)
      else Some (m, ec, c_total ops c))"

definition read_buffer_seq :: "'c consumer_ops \<Rightarrow> condition \<Rightarrow> (byte list \<times> error_code) list \<Rightarrow> 'c
    \<Rightarrow> memory \<Rightarrow> (memory \<times> error_code \<times> nat) option" where
  "read_buffer_seq ops cond os tmp m = read_loop ops cond os None tmp m"

definition read_cond_ec :: "'c consumer_ops \<Rightarrow> condition \<Rightarrow> (byte list \<times> error_code) list \<Rightarrow> 'c
    \<Rightarrow> memory \<Rightarrow> (memory \<times> error_code \<times> nat) option" where
  "read_cond_ec ops cond os c m = read_buffer_seq ops cond os c m"

definition read_throws :: "'c consumer_ops \<Rightarrow> (byte list \<times> error_code) list \<Rightarrow> 'c
    \<Rightarrow> memory \<Rightarrow> (memory \<times> (asio_error + nat)) option" where
  "read_throws ops os c m = map_option (\<lambda>(m', ec, n). (m', throw_error ec n))
     (read_cond_ec ops transfer_all os c m)"

definition read_ec :: "'c consumer_ops \<Rightarrow> (byte list \<times> error_code) list \<Rightarrow> 'c
    \<Rightarrow> memory \<Rightarrow> (memory \<times> error_code \<times> nat) option" where
  "read_ec ops os c m = read_cond_ec ops transfer_all os c m"

definition read_cond_throws :: "'c consumer_ops \<Rightarrow> condition \<Rightarrow> (byte list \<times> error_code) list \<Rightarrow> 'c
    \<Rightarrow> memory \<Rightarrow> (memory \<times> (asio_error + nat)) option" where
  "read_cond_throws ops cond os c m = map_option (\<lambda>(m', ec, n). (m', throw_error ec n))
     (read_cond_ec ops cond os c m)"

section \<open>Asynchronous writes and reads\<close>

text \<open>
  A call of the operation object either starts \<open>async_write_some\<close> on prepared buffers, moving
  itself into the operation, or calls the handler. \<open>cancelled\<close> is the cancellation state.
\<close>

datatype 'c effect = Start_Some "buffer list" 'c | Call_Handler error_code nat

definition write_op_call :: "'c consumer_ops \<Rightarrow> condition \<Rightarrow> bool \<Rightarrow> error_code \<Rightarrow> nat \<Rightarrow> nat
    \<Rightarrow> 'c \<Rightarrow> 'c effect" where
  "write_op_call ops cond cancelled ec bytes_transferred start c =
     (if start = 1 then
        let max_size = check_for_completion cond ec (c_total ops c)
        in Start_Some (c_prepare ops c max_size) c
      else
        let c1 = c_consume ops c bytes_transferred
        in if (ec = None \<and> bytes_transferred = 0) \<or> c_empty ops c1
           then Call_Handler ec (c_total ops c1)
           else
             let max_size = check_for_completion cond ec (c_total ops c1)
             in if max_size = 0 then Call_Handler ec (c_total ops c1)
                else if cancelled then Call_Handler (Some Operation_Aborted) (c_total ops c1)
                else Start_Some (c_prepare ops c1 max_size) c1)"

definition start_write_op :: "'c consumer_ops \<Rightarrow> condition \<Rightarrow> 'c \<Rightarrow> 'c effect" where
  "start_write_op ops cond c = write_op_call ops cond False None 0 1 c"

definition read_op_call :: "'c consumer_ops \<Rightarrow> condition \<Rightarrow> bool \<Rightarrow> error_code \<Rightarrow> nat \<Rightarrow> nat
    \<Rightarrow> 'c \<Rightarrow> 'c effect" where
  "read_op_call ops cond cancelled ec bytes_transferred start c =
     (if start = 1 then
        let max_size = check_for_completion cond ec (c_total ops c)
        in Start_Some (c_prepare ops c max_size) c
      else
        let c1 = c_consume ops c bytes_transferred
        in if (ec = None \<and> bytes_transferred = 0) \<or> c_empty ops c1
           then Call_Handler ec (c_total ops c1)
           else
             let max_size = check_for_completion cond ec (c_total ops c1)
             in if max_size = 0 then Call_Handler ec (c_total ops c1)
                else if cancelled then Call_Handler (Some Operation_Aborted) (c_total ops c1)
                else Start_Some (c_prepare ops c1 max_size) c1)"

definition start_read_op :: "'c consumer_ops \<Rightarrow> condition \<Rightarrow> 'c \<Rightarrow> 'c effect" where
  "start_read_op ops cond c = read_op_call ops cond False None 0 1 c"

text \<open>
  Runs: the outcomes of the operations started are an error code, what was transferred, and
  whether cancellation has been requested by then. The results are the addresses of the bytes
  written, or the memory read into, and where the operation has come to.
\<close>

fun write_run :: "'c consumer_ops \<Rightarrow> condition \<Rightarrow> (error_code \<times> nat \<times> bool) list \<Rightarrow> 'c effect
    \<Rightarrow> nat list \<times> 'c effect" where
  "write_run ops cond ((ec, n, cancelled) # os) (Start_Some bs c) =
     (let (sent, eff) = write_run ops cond os (write_op_call ops cond cancelled ec n 0 c)
      in (take n (addr_list bs) @ sent, eff))"
| "write_run ops cond os eff = ([], eff)"

fun read_run :: "'c consumer_ops \<Rightarrow> condition \<Rightarrow> (error_code \<times> byte list \<times> bool) list \<Rightarrow> 'c effect
    \<Rightarrow> memory \<Rightarrow> memory \<times> 'c effect" where
  "read_run ops cond ((ec, bytes, cancelled) # os) (Start_Some bs c) m =
     read_run ops cond os (read_op_call ops cond cancelled ec (length bytes) 0 c)
       (scatter (addr_list bs) bytes m)"
| "read_run ops cond os eff m = (m, eff)"

definition received :: "(error_code \<times> byte list \<times> bool) list \<Rightarrow> byte list" where
  "received os = concat (map (\<lambda>(ec, bytes, cancelled). bytes) os)"

lemma received_simps [simp]:
  "received [] = []" "received ((ec, bytes, cancelled) # os) = bytes @ received os"
  by (simp_all add: received_def)

lemma scatter_append:
  assumes "length A = length x" "set A \<inter> set B = {}"
  shows "scatter B y (scatter A x m) = scatter (A @ B) (x @ y) m"
proof
  fix a
  have none: "map_of (zip A x) a = None" if "map_of (zip B y) a = Some b" for b
  proof -
    have "a \<in> set B" using that by (auto dest!: map_of_SomeD intro: set_zip_leftD)
    then have "a \<notin> set A" using assms(2) by auto
    then show ?thesis using set_zip_leftD by (fastforce simp: map_of_eq_None_iff)
  qed
  show "scatter B y (scatter A x m) a = scatter (A @ B) (x @ y) m a"
    using assms(1) none
    by (cases "map_of (zip B y) a"; cases "map_of (zip A x) a")
       (simp_all add: scatter_def map_add_def del: map_of_zip_is_None)
qed

text \<open>
  What a stream promises of the outcomes: it transfers no more than the buffers hold, and reports
  success without a byte only for empty buffers.
\<close>

fun legal_run :: "'c consumer_ops \<Rightarrow> condition \<Rightarrow> (error_code \<times> nat \<times> bool) list \<Rightarrow> 'c effect
    \<Rightarrow> bool" where
  "legal_run ops cond ((ec, n, cancelled) # os) (Start_Some bs c) \<longleftrightarrow>
     n \<le> length (addr_list bs) \<and> (ec = None \<and> addr_list bs \<noteq> [] \<longrightarrow> 0 < n)
     \<and> legal_run ops cond os (write_op_call ops cond cancelled ec n 0 c)"
| "legal_run ops cond os eff \<longleftrightarrow> True"

text \<open>The conditions of asio end the operation at the first error.\<close>

definition stops_on_error :: "condition \<Rightarrow> bool" where
  "stops_on_error cond \<longleftrightarrow> (\<forall>e n. cond (Some e) n = 0)"

lemma conditions_stop [simp]:
  "stops_on_error transfer_all" "stops_on_error (transfer_at_least k)"
  "stops_on_error (transfer_exactly k)"
  by (simp_all add: stops_on_error_def transfer_all_def transfer_at_least_def transfer_exactly_def)

lemma check_eq [simp]: "check_for_completion cond ec n = cond ec n"
  by (simp add: check_for_completion_def adapt_size_def)

section \<open>Runs over any class of consuming buffers\<close>

context consumer begin

lemma call_cases:
  assumes "ok c" "n \<le> length (addr_list (c_prepare ops c mx))" "stops_on_error cond" "0 < mx"
    and "ec = None \<and> addr_list (c_prepare ops c mx) \<noteq> [] \<longrightarrow> 0 < n"
  obtains (finished) ec' where "write_op_call ops cond cn ec n 0 c = Call_Handler ec' (c_total ops c + n)"
      "ec' = None \<longrightarrow> n = length (pending c) \<or> cond None (c_total ops c + n) = 0"
  | (more) mx' where "write_op_call ops cond cn ec n 0 c
        = Start_Some (c_prepare ops (c_consume ops c n) mx') (c_consume ops c n)"
      "0 < mx'" "0 < n" "mx' = cond None (c_total ops c + n)" "n < length (pending c)" "\<not> cn"
proof -
  let ?c = "c_consume ops c n"
  note len = prepare_take(2) [OF assms(1,2)]
  have ok: "ok ?c" by (rule consume_ok [OF assms(1) len])
  have rest: "pending ?c = drop n (pending c)" by (rule consume_pending [OF assms(1) len])
  have e: "c_empty ops ?c \<longleftrightarrow> n = length (pending c)"
    using empty_iff [OF ok] rest len by auto
  have z: "pending c = []" if "ec = None" "n = 0"
    using assms(5) that prepare_nonempty [OF assms(1) _ assms(4)] by blast
  have stop: "cond (Some er) k = 0" for er k using assms(3) by (simp add: stops_on_error_def)
  show ?thesis
  proof (cases "(ec = None \<and> n = 0) \<or> c_empty ops ?c")
    case True
    then show ?thesis
      using z e by (intro finished [of ec]) (auto simp: write_op_call_def Let_def consume_total)
  next
    case go: False
    show ?thesis
    proof (cases "cond ec (c_total ops c + n) = 0 \<or> cn")
      case True
      let ?ec = "if cond ec (c_total ops c + n) = 0 then ec else Some Operation_Aborted"
      show ?thesis
        using True go
        by (intro finished [of ?ec]) (auto simp: write_op_call_def Let_def consume_total)
    next
      case False
      then have ec: "ec = None" using stop by (cases ec) auto
      have "n < length (pending c)" using go e len by auto
      then show ?thesis
        using False go ec by (intro more) (auto simp: write_op_call_def Let_def consume_total)
    qed
  qed
qed

lemma write_run_sent:
  assumes "ok c" "0 < mx" "stops_on_error cond"
    and "legal_run ops cond os (Start_Some (c_prepare ops c mx) c)"
    and "write_run ops cond os (Start_Some (c_prepare ops c mx) c) = (sent, eff)"
  shows "sent = take (length sent) (pending c)
    \<and> (case eff of
         Call_Handler ec t \<Rightarrow> t = c_total ops c + length sent
           \<and> (ec = None \<longrightarrow> sent = pending c \<or> cond None t = 0)
       | Start_Some bs c' \<Rightarrow> length os \<le> length sent \<and> (os = [] \<or> sent \<noteq> pending c))"
  using assms
proof (induction os arbitrary: c mx sent eff)
  case (Cons out os)
  obtain ec n cn where out: "out = (ec, n, cn)" by (metis prod_cases3)
  have n: "n \<le> length (addr_list (c_prepare ops c mx))"
    "ec = None \<and> addr_list (c_prepare ops c mx) \<noteq> [] \<longrightarrow> 0 < n"
    using Cons.prems(4) by (simp_all add: out)
  obtain sent' where r: "write_run ops cond os (write_op_call ops cond cn ec n 0 c) = (sent', eff)"
    and sent: "sent = take n (pending c) @ sent'"
    using Cons.prems(5) prepare_take(1) [OF Cons.prems(1) n(1)]
    by (auto simp: out split: prod.splits)
  note len = prepare_take(2) [OF Cons.prems(1) n(1)]
  show ?case
    using Cons.prems(1) n(1) Cons.prems(3,2) n(2)
  proof (cases rule: call_cases [where cn = cn])
    case (finished ec')
    then have "eff = Call_Handler ec' (c_total ops c + n)" "sent' = []"
      using r by (cases os, auto)+
    then show ?thesis using finished(2) len sent by auto
  next
    case (more mx')
    let ?c = "c_consume ops c n"
    have rest: "pending ?c = drop n (pending c)"
      by (rule consume_pending [OF Cons.prems(1) len])
    have leg: "legal_run ops cond os (Start_Some (c_prepare ops ?c mx') ?c)"
      using Cons.prems(4) more(1) by (simp add: out)
    note IH = Cons.IH [OF consume_ok [OF Cons.prems(1) len] more(2) Cons.prems(3) leg
        r [unfolded more(1)], unfolded rest consume_total]
    have "sent = take (n + length sent') (pending c)"
      using IH by (simp add: sent take_add)
    moreover have l: "length sent = n + length sent'" using sent len by simp
    moreover have "sent = pending c \<longleftrightarrow> sent' = drop n (pending c)"
      by (metis sent append_take_drop_id same_append_eq)
    moreover have "os = [] \<or> sent' \<noteq> drop n (pending c) \<Longrightarrow> sent' \<noteq> drop n (pending c)"
      using r more by (auto simp: more(1))
    ultimately show ?thesis
      using IH more(3) by (simp split: effect.splits)
  qed
qed simp

lemma async_write:
  assumes "ok c" "stops_on_error cond" "0 < cond None (c_total ops c)"
    and "legal_run ops cond os (start_write_op ops cond c)"
    and "write_run ops cond os (start_write_op ops cond c) = (sent, eff)"
  shows "prefix sent (pending c)"
    and "eff = Call_Handler ec t \<Longrightarrow> t = c_total ops c + length sent
      \<and> (ec = None \<longrightarrow> sent = pending c \<or> cond None t = 0)"
    and "length (pending c) < length os \<Longrightarrow> \<exists>ec t. eff = Call_Handler ec t"
proof -
  let ?mx = "cond None (c_total ops c)"
  have start: "start_write_op ops cond c = Start_Some (c_prepare ops c ?mx) c"
    by (simp add: start_write_op_def write_op_call_def)
  note R = write_run_sent [OF assms(1,3,2) assms(4,5) [unfolded start]]
  then show "prefix sent (pending c)" by (metis take_is_prefix)
  show "t = c_total ops c + length sent \<and> (ec = None \<longrightarrow> sent = pending c \<or> cond None t = 0)"
    if "eff = Call_Handler ec t"
    using conjunct2 [OF R] that by auto
  show "\<exists>ec t. eff = Call_Handler ec t" if "length (pending c) < length os"
  proof (cases eff)
    case (Start_Some bs c')
    then have "length os \<le> length sent" using R by simp
    moreover have "length sent \<le> length (pending c)"
      using R by (metis length_take min.cobounded1)
    ultimately show ?thesis using that by simp
  qed auto
qed

text \<open>The bytes of a read land where those of a write with the same outcomes come from.\<close>

lemma read_run_write_run:
  assumes "ok c" "0 < mx" "stops_on_error cond" "distinct (pending c)"
    and "legal_run ops cond (map (\<lambda>(ec, bs, cn). (ec, length bs, cn)) os)
      (Start_Some (c_prepare ops c mx) c)"
    and "write_run ops cond (map (\<lambda>(ec, bs, cn). (ec, length bs, cn)) os)
      (Start_Some (c_prepare ops c mx) c) = (sent, eff)"
  shows "read_run ops cond os (Start_Some (c_prepare ops c mx) c) m
    = (scatter sent (take (length sent) (received os)) m, eff)"
  using assms
proof (induction os arbitrary: c mx sent eff m)
  case Nil
  then show ?case by (simp add: scatter_def)
next
  case (Cons out os)
  let ?os = "map (\<lambda>(ec, bs, cn). (ec, length bs, cn)) os"
  obtain ec bs cn where out: "out = (ec, bs, cn)" by (metis prod_cases3)
  let ?n = "length bs"
  have n: "?n \<le> length (addr_list (c_prepare ops c mx))"
    "ec = None \<and> addr_list (c_prepare ops c mx) \<noteq> [] \<longrightarrow> 0 < ?n"
    using Cons.prems(5) by (simp_all add: out)
  obtain sent' where r: "write_run ops cond ?os (write_op_call ops cond cn ec ?n 0 c) = (sent', eff)"
    and sent: "sent = take ?n (pending c) @ sent'"
    using Cons.prems(6) prepare_take(1) [OF Cons.prems(1) n(1)]
    by (auto simp: out split: prod.splits)
  note len = prepare_take(2) [OF Cons.prems(1) n(1)]
  have first: "scatter (addr_list (c_prepare ops c mx)) bs m = scatter (take ?n (pending c)) bs m"
    unfolding scatter_def using zip_take_swap [of ?n "addr_list (c_prepare ops c mx)" bs]
      prepare_take(1) [OF Cons.prems(1) n(1)] by simp
  have run: "read_run ops cond (out # os) (Start_Some (c_prepare ops c mx) c) m
      = read_run ops cond os (write_op_call ops cond cn ec ?n 0 c)
          (scatter (take ?n (pending c)) bs m)"
    by (simp add: out first read_op_call_def write_op_call_def)
  show ?case
    using Cons.prems(1) n(1) Cons.prems(3,2) n(2)
  proof (cases rule: call_cases [where cn = cn])
    case (finished ec')
    then have "eff = Call_Handler ec' (c_total ops c + ?n)" "sent' = []"
      using r by (cases ?os, auto)+
    then show ?thesis
      unfolding run using finished(1) len by (cases os) (simp_all add: out sent)
  next
    case (more mx')
    let ?c = "c_consume ops c ?n"
    have rest: "pending ?c = drop ?n (pending c)"
      by (rule consume_pending [OF Cons.prems(1) len])
    have leg: "legal_run ops cond ?os (Start_Some (c_prepare ops ?c mx') ?c)"
      using Cons.prems(5) more(1) by (simp add: out)
    note ok = consume_ok [OF Cons.prems(1) len]
    have d: "distinct (pending ?c)" using Cons.prems(4) by (simp add: rest)
    note IH = Cons.IH [OF ok more(2) Cons.prems(3) d leg r [unfolded more(1)]]
    have "set sent' \<subseteq> set (drop ?n (pending c))"
      using write_run_sent [OF ok more(2) Cons.prems(3) leg r [unfolded more(1)]]
      by (metis rest set_take_subset)
    then have "set (take ?n (pending c)) \<inter> set sent' = {}"
      using Cons.prems(4) by (metis append_take_drop_id distinct_append disjoint_iff subsetD)
    then show ?thesis
      unfolding run more(1) IH using len
      by (simp add: out sent scatter_append)
  qed
qed

text \<open>The blocking loop does the same transfers, if nobody cancels.\<close>

lemma write_loop_write_run:
  assumes "ok c" "0 < cond ec0 (c_total ops c)" "stops_on_error cond" "pending c \<noteq> []"
    and "legal_run ops cond os (Start_Some (c_prepare ops c (cond ec0 (c_total ops c))) c)"
    and "\<forall>(ec, n, cancelled)\<in>set os. \<not> cancelled"
  shows "write_loop ops cond (map (\<lambda>(ec, n, cancelled). (n, ec)) os) ec0 c
    = (case write_run ops cond os (Start_Some (c_prepare ops c (cond ec0 (c_total ops c))) c) of
         (sent, Call_Handler ec t) \<Rightarrow> Some (sent, ec, t) | (sent, Start_Some bs c') \<Rightarrow> None)"
  using assms
proof (induction os arbitrary: c ec0)
  case Nil
  have "\<not> c_empty ops c" using empty_iff [OF Nil(1)] Nil(4) by simp
  then show ?case
    using Nil(2) by (simp add: adapt_size_def)
next
  case (Cons out os)
  obtain ec n where out: "out = (ec, n, False)" using Cons.prems(6) by (cases out) auto
  let ?mx = "cond ec0 (c_total ops c)" and ?c = "c_consume ops c n"
  have n: "n \<le> length (addr_list (c_prepare ops c ?mx))"
    "ec = None \<and> addr_list (c_prepare ops c ?mx) \<noteq> [] \<longrightarrow> 0 < n"
    using Cons.prems(5) by (simp_all add: out)
  note len = prepare_take(2) [OF Cons.prems(1) n(1)]
  note ok = consume_ok [OF Cons.prems(1) len]
  have rest: "pending ?c = drop n (pending c)"
    by (rule consume_pending [OF Cons.prems(1) len])
  have ne: "\<not> c_empty ops c" using empty_iff [OF Cons.prems(1)] Cons.prems(4) by simp
  have pos: "ec = None \<Longrightarrow> 0 < n"
    using n(2) prepare_nonempty [OF Cons.prems(1,4,2)] by blast
  have loop: "write_loop ops cond (map (\<lambda>(ec, n, cancelled). (n, ec)) (out # os)) ec0 c
      = map_option (\<lambda>(sent, r). (take n (addr_list (c_prepare ops c ?mx)) @ sent, r))
          (write_loop ops cond (map (\<lambda>(ec, n, cancelled). (n, ec)) os) ec ?c)"
    using ne Cons.prems(2) by (simp add: out adapt_size_def)
  show ?case
  proof (cases "c_empty ops ?c \<or> cond ec (c_total ops ?c) = 0")
    case True
    then have "write_op_call ops cond False ec n 0 c = Call_Handler ec (c_total ops ?c)"
      by (auto simp: write_op_call_def Let_def)
    moreover have "write_run ops cond os (Call_Handler ec (c_total ops ?c)) = ([], Call_Handler ec (c_total ops ?c))"
      by (cases os) simp_all
    moreover have "write_loop ops cond os' ec ?c = Some ([], ec, c_total ops ?c)" for os'
      using True by (auto simp: adapt_size_def)
    ultimately show ?thesis unfolding loop by (simp add: out)
  next
    case False
    then have ec: "ec = None" using Cons.prems(3) by (cases ec) (auto simp: stops_on_error_def)
    have call: "write_op_call ops cond False ec n 0 c
        = Start_Some (c_prepare ops ?c (cond ec (c_total ops ?c))) ?c"
      using False pos ec by (simp add: write_op_call_def Let_def)
    have "legal_run ops cond os (Start_Some (c_prepare ops ?c (cond ec (c_total ops ?c))) ?c)"
      using Cons.prems(5) call by (simp add: out)
    moreover have "pending ?c \<noteq> []" using False empty_iff [OF ok] by simp
    ultimately have IH: "write_loop ops cond (map (\<lambda>(ec, n, cancelled). (n, ec)) os) ec ?c
      = (case write_run ops cond os (Start_Some (c_prepare ops ?c (cond ec (c_total ops ?c))) ?c) of
           (sent, Call_Handler ec t) \<Rightarrow> Some (sent, ec, t) | (sent, Start_Some bs c') \<Rightarrow> None)"
      using Cons.IH [OF ok _ Cons.prems(3)] False Cons.prems(6) by simp
    show ?thesis
      unfolding loop IH by (simp add: out call split: prod.splits effect.splits)
  qed
qed

text \<open>With \<open>transfer_exactly k\<close> no more than \<open>k\<close> bytes are transferred.\<close>

lemma transfer_exactly_bound:
  assumes "ok c" "legal_run ops (transfer_exactly k) os (Start_Some (c_prepare ops c mx) c)"
    and "mx = transfer_exactly k None (c_total ops c)" "0 < mx"
    and "write_run ops (transfer_exactly k) os (Start_Some (c_prepare ops c mx) c) = (sent, eff)"
  shows "c_total ops c + length sent \<le> k"
  using assms
proof (induction os arbitrary: c mx sent eff)
  case Nil
  then show ?case by (auto simp: transfer_exactly_def split: if_splits)
next
  case (Cons out os)
  let ?cond = "transfer_exactly k"
  obtain ec n cn where out: "out = (ec, n, cn)" by (metis prod_cases3)
  have n: "n \<le> length (addr_list (c_prepare ops c mx))"
    "ec = None \<and> addr_list (c_prepare ops c mx) \<noteq> [] \<longrightarrow> 0 < n"
    using Cons.prems(2) by (simp_all add: out)
  obtain sent' where r: "write_run ops ?cond os (write_op_call ops ?cond cn ec n 0 c) = (sent', eff)"
    and sent: "sent = take n (pending c) @ sent'"
    using Cons.prems(5) prepare_take(1) [OF Cons.prems(1) n(1)]
    by (auto simp: out split: prod.splits)
  note len = prepare_take(2,3) [OF Cons.prems(1) n(1)]
  have le: "c_total ops c + n \<le> k"
    using len(2) Cons.prems(3,4) by (auto simp: transfer_exactly_def split: if_splits)
  show ?case
    using Cons.prems(1) n(1) conditions_stop(3) [of k] Cons.prems(4) n(2)
  proof (cases rule: call_cases [where cn = cn])
    case (finished ec')
    then have "sent' = []" using r by (cases os, auto)
    then show ?thesis using le len sent by simp
  next
    case (more mx')
    have leg: "legal_run ops ?cond os (Start_Some (c_prepare ops (c_consume ops c n) mx') (c_consume ops c n))"
      using Cons.prems(2) more(1) by (simp add: out)
    show ?thesis
      using Cons.IH [OF consume_ok [OF Cons.prems(1) len(1)] leg _ more(2) r [unfolded more(1)]]
        more(4) len sent by (simp add: consume_total)
  qed
qed

end

section \<open>Whole buffers\<close>

lemma general_start:
  "0 < N \<Longrightarrow> cb_ok (new_consuming bs) \<and> 0 < N"
  "c_total (general_ops N) (new_consuming bs) = 0"
  by (simp add: cb_ok_new) (simp add: new_consuming_def general_ops_def)

lemma transfer_all_None [simp]: "transfer_all None n = 65536"
  by (simp add: transfer_all_def default_max_transfer_size_def)

text \<open>\<open>async_write\<close> of a sequence of buffers to a stream that transfers as much as it likes at a
  time, with errors and cancellation at any point: the bytes written are always the leading bytes
  of the buffers, in order and none twice; the handler gets their number; without an error they
  are all bytes; and the handler is called after at most one operation more than there are bytes.\<close>

lemma async_write_all:
  assumes "0 < N"
    and "legal_run (general_ops N) transfer_all os
      (start_write_op (general_ops N) transfer_all (new_consuming bs))"
    and "write_run (general_ops N) transfer_all os
      (start_write_op (general_ops N) transfer_all (new_consuming bs)) = (sent, eff)"
  shows "prefix sent (addr_list bs)
    \<and> (\<forall>ec t. eff = Call_Handler ec t \<longrightarrow> t = length sent \<and> (ec = None \<longrightarrow> sent = addr_list bs))
    \<and> (length (addr_list bs) < length os \<longrightarrow> (\<exists>ec t. eff = Call_Handler ec t))"
  using general.async_write [OF general_start(1) [OF assms(1)] conditions_stop(1) _ assms(2,3)]
  by (auto simp: general_start cb_ok_new)

text \<open>Two buffers; the second operation takes the rest.\<close>

lemma async_write_all_example:
  "write_run (general_ops 64) transfer_all [(None, 3, False), (None, 2, False)]
     (start_write_op (general_ops 64) transfer_all (new_consuming sample_targets))
   = ([100, 101, 200, 201, 202], Call_Handler None 5)"
proof -
  let ?start = "start_write_op (general_ops 64) transfer_all (new_consuming sample_targets)"
  let ?os = "[(None, 3, False), (None, 2, False)]"
  note defs = start_write_op_def write_op_call_def general_ops_def new_consuming_def cb_prepare_def
    cb_consume_def cb_empty_def max_prepared_def transfer_all_def default_max_transfer_size_def
    sample_targets_def buffer_size_def buffer_size_many_def buffer_plus_def buffer_limit_def
    Let_def addrs_def
  have run: "write_run (general_ops 64) transfer_all ?os ?start
      = ([100, 101, 200, 201, 202], Call_Handler None 5)"
    by (simp add: defs upt_rec)
  moreover have "legal_run (general_ops 64) transfer_all ?os ?start"
    by (simp add: defs upt_rec)
  ultimately show ?thesis
    using async_write_all [of 64 ?os sample_targets] by simp
qed

section \<open>Reads\<close>

definition legal_reads :: "'c consumer_ops \<Rightarrow> condition \<Rightarrow> (error_code \<times> byte list \<times> bool) list
    \<Rightarrow> 'c effect \<Rightarrow> bool" where
  "legal_reads ops cond os eff =
     legal_run ops cond (map (\<lambda>(ec, bytes, cancelled). (ec, length bytes, cancelled)) os) eff"

lemma write_run_length:
  "length (fst (write_run ops cond (map (\<lambda>(ec, bs, cn). (ec, length bs, cn)) os) eff))
    \<le> length (received os)"
proof (induction os arbitrary: eff)
  case (Cons out os)
  obtain ec bytes cn where out: "out = (ec, bytes, cn)" by (metis prod_cases3)
  show ?case
  proof (cases eff)
    case (Start_Some bs c)
    then show ?thesis
      using Cons [of "write_op_call ops cond cn ec (length bytes) 0 c"]
      by (auto simp: out split: prod.splits)
  qed (simp add: out)
qed simp

lemma scatter_contents:
  assumes "distinct T" "n \<le> length T" "n \<le> length R"
  shows "map (scatter (take n T) (take n R) m) T = take n R @ drop n (map m T)"
    and "a \<notin> set T \<Longrightarrow> scatter (take n T) (take n R) m a = m a"
proof -
  have len: "length (take n T) = length (take n R)" using assms by simp
  have "scatter (take n T) (take n R) m (T ! i) = (if i < n then R ! i else m (T ! i))"
    if "i < length T" for i
  proof (cases "i < n")
    case True
    then show ?thesis
      using map_of_zip_nth [OF len distinct_take [OF assms(1)], of i] assms
      by (simp add: scatter_def)
  next
    case False
    have "T ! i \<notin> set (take n T)"
      using False that assms(1) by (auto simp: in_set_conv_nth nth_eq_iff_index_eq)
    then have "map_of (zip (take n T) (take n R)) (T ! i) = None"
      using len by (simp del: length_take)
    with False show ?thesis by (simp add: scatter_def)
  qed
  then show "map (scatter (take n T) (take n R) m) T = take n R @ drop n (map m T)"
    using assms by (intro nth_equalityI) (auto simp: nth_append)
  show "scatter (take n T) (take n R) m a = m a" if "a \<notin> set T"
  proof -
    have "a \<notin> set (take n T)" using that by (meson in_set_takeD)
    then have "map_of (zip (take n T) (take n R)) a = None" using len by (simp del: length_take)
    then show ?thesis by (simp add: scatter_def)
  qed
qed

text \<open>\<open>async_read\<close> into a sequence of buffers: the bytes the stream delivers land in the buffers
  in order and nowhere else, whatever the sizes of the pieces; the handler gets their number;
  without an error the buffers are full; and the handler is called after at most one operation
  more than there are bytes.\<close>

lemma async_read_all:
  assumes "0 < N" "distinct (addr_list bs)"
    and "legal_reads (general_ops N) transfer_all os
      (start_read_op (general_ops N) transfer_all (new_consuming bs))"
    and "read_run (general_ops N) transfer_all os
      (start_read_op (general_ops N) transfer_all (new_consuming bs)) m = (m', eff)"
  shows "\<exists>n\<le>length (addr_list bs). contents m' bs = take n (received os) @ drop n (contents m bs)
    \<and> n \<le> length (received os) \<and> (\<forall>a. a \<notin> set (addr_list bs) \<longrightarrow> m' a = m a)
    \<and> (\<forall>ec t. eff = Call_Handler ec t \<longrightarrow> t = n \<and> (ec = None \<longrightarrow> n = length (addr_list bs)))
    \<and> (length (addr_list bs) < length os \<longrightarrow> (\<exists>ec t. eff = Call_Handler ec t))"
proof -
  let ?ops = "general_ops N" and ?c = "new_consuming bs"
  let ?os = "map (\<lambda>(ec, bytes, cancelled). (ec, length bytes, cancelled)) os"
  have "start_read_op ?ops transfer_all ?c = start_write_op ?ops transfer_all ?c"
    by (simp add: start_read_op_def start_write_op_def read_op_call_def write_op_call_def)
  note start = this [unfolded start_write_op_def write_op_call_def, simplified]
  have startw: "start_write_op ?ops transfer_all ?c = Start_Some (c_prepare ?ops ?c 65536) ?c"
    by (simp add: start_write_op_def write_op_call_def)
  obtain sent eff' where run: "write_run ?ops transfer_all ?os (start_write_op ?ops transfer_all ?c) = (sent, eff')"
    by (metis surj_pair)
  have leg: "legal_run ?ops transfer_all ?os (start_write_op ?ops transfer_all ?c)"
    using assms(3) unfolding legal_reads_def start startw .
  note W = general.async_write [OF general_start(1) [OF assms(1)] conditions_stop(1) _ leg run,
      unfolded cb_ok_new(2), simplified]
  have read: "m' = scatter sent (take (length sent) (received os)) m" "eff = eff'"
    using general.read_run_write_run [OF general_start(1) [OF assms(1)] _ conditions_stop(1) _
        leg [unfolded startw] run [unfolded startw], of m] assms(2,4)
    by (simp_all add: start cb_ok_new)
  have n: "length sent \<le> length (received os)"
    using write_run_length [of ?ops transfer_all os "start_write_op ?ops transfer_all ?c"]
    by (simp add: run)
  have sent: "sent = take (length sent) (addr_list bs)" "length sent \<le> length (addr_list bs)"
    using W(1) by (auto simp: prefix_def)
  have m': "m' = scatter (take (length sent) (addr_list bs)) (take (length sent) (received os)) m"
    using read(1) sent(1) by simp
  have "contents m' bs = take (length sent) (received os) @ drop (length sent) (contents m bs)"
    "\<forall>a. a \<notin> set (addr_list bs) \<longrightarrow> m' a = m a"
    unfolding contents_def m' using scatter_contents [OF assms(2) sent(2) n] by auto
  then show ?thesis
    using W n sent(2) read(2) by (intro exI [where x = "length sent"]) (auto simp: general_start)
qed

lemma async_read_all_example:
  "\<exists>m'. read_run (general_ops 64) transfer_all [(None, [7, 8, 9], False), (Some Eof, [], False)]
     (start_read_op (general_ops 64) transfer_all (new_consuming sample_targets)) (\<lambda>_. 0)
     = (m', Call_Handler (Some Eof) 3) \<and> contents m' sample_targets = [7, 8, 9, 0, 0]"
proof -
  let ?start = "start_read_op (general_ops 64) transfer_all (new_consuming sample_targets)"
  let ?os = "[(None, [7, 8, 9], False), (Some Eof, [], False)]"
  note defs = start_read_op_def read_op_call_def write_op_call_def general_ops_def new_consuming_def
    cb_prepare_def cb_consume_def cb_empty_def max_prepared_def transfer_all_def
    default_max_transfer_size_def sample_targets_def buffer_size_def buffer_size_many_def
    buffer_plus_def buffer_limit_def Let_def addrs_def
  obtain m' where run: "read_run (general_ops 64) transfer_all ?os ?start (\<lambda>_. 0)
      = (m', Call_Handler (Some Eof) 3)"
    by (simp add: defs upt_rec)
  moreover have "legal_reads (general_ops 64) transfer_all ?os ?start"
    by (simp add: defs legal_reads_def upt_rec)
  ultimately have "\<exists>n\<le>5. contents m' sample_targets
      = take n [7, 8, 9] @ drop n (contents (\<lambda>_. 0) sample_targets) \<and> n = 3"
    using async_read_all [of 64 sample_targets ?os "\<lambda>_. 0" m' "Call_Handler (Some Eof) 3"]
    by (fastforce simp: sample_addrs)
  with run show ?thesis by (auto simp: contents_def sample_addrs)
qed

section \<open>Blocking and asynchronous writes, and the other conditions\<close>

text \<open>The blocking \<open>write\<close> and \<open>async_write\<close> of the same non-empty buffers, given the same
  outcomes and no cancellation, send the same bytes and report the same error code and count, and
  the one has returned exactly if the other has called its handler; for every completion
  condition of asio that does not hold from the start.\<close>

lemma write_equals_async_write:
  assumes "0 < N" "addr_list bs \<noteq> []" "stops_on_error cond" "0 < cond None 0"
    and "legal_run (general_ops N) cond os (start_write_op (general_ops N) cond (new_consuming bs))"
    and "\<forall>(ec, n, cancelled)\<in>set os. \<not> cancelled"
  shows "write_cond_ec (general_ops N) cond (map (\<lambda>(ec, n, cancelled). (n, ec)) os) (new_consuming bs)
    = (case write_run (general_ops N) cond os
              (start_write_op (general_ops N) cond (new_consuming bs)) of
         (sent, Call_Handler ec t) \<Rightarrow> Some (sent, ec, t) | (sent, Start_Some bs' c) \<Rightarrow> None)"
proof -
  have start: "start_write_op (general_ops N) cond (new_consuming bs)
      = Start_Some (c_prepare (general_ops N) (new_consuming bs) (cond None 0)) (new_consuming bs)"
    by (simp add: start_write_op_def write_op_call_def general_start)
  show ?thesis
    using general.write_loop_write_run [OF general_start(1) [OF assms(1)], of cond None bs os]
      assms(2-6)
    unfolding write_cond_ec_def write_buffers_def start by (simp add: general_start cb_ok_new)
qed

lemma write_equals_async_write_example:
  "write_cond_ec (general_ops 64) (transfer_exactly 4) [(3, None), (1, None)]
     (new_consuming sample_targets) = Some ([100, 101, 200, 201], None, 4)"
proof -
  let ?start = "start_write_op (general_ops 64) (transfer_exactly 4) (new_consuming sample_targets)"
  let ?os = "[(None, 3, False), (None, 1, False)]"
  note defs = start_write_op_def write_op_call_def general_ops_def new_consuming_def cb_prepare_def
    cb_consume_def cb_empty_def max_prepared_def transfer_exactly_def default_max_transfer_size_def
    sample_targets_def buffer_size_def buffer_size_many_def buffer_plus_def buffer_limit_def
    Let_def addrs_def
  have "write_run (general_ops 64) (transfer_exactly 4) ?os ?start
      = ([100, 101, 200, 201], Call_Handler None 4)"
    by (simp add: defs upt_rec)
  moreover have "legal_run (general_ops 64) (transfer_exactly 4) ?os ?start"
    by (simp add: defs upt_rec)
  moreover have "0 < transfer_exactly 4 None 0"
    by (simp add: transfer_exactly_def default_max_transfer_size_def)
  ultimately show ?thesis
    using write_equals_async_write [of 64 sample_targets "transfer_exactly 4" ?os]
    by (simp add: sample_addrs)
qed

text \<open>With \<open>transfer_exactly(k)\<close> an asynchronous write never sends more than \<open>k\<close> bytes, and
  exactly \<open>min k\<close> of the size if it succeeds; with \<open>transfer_at_least(k)\<close> a success means at
  least that many, although an operation may run on to the end of the buffers.\<close>

lemma transfer_conditions:
  assumes "0 < N" "0 < k"
    and "cond = transfer_exactly k \<or> cond = transfer_at_least k"
    and "legal_run (general_ops N) cond os (start_write_op (general_ops N) cond (new_consuming bs))"
    and "write_run (general_ops N) cond os (start_write_op (general_ops N) cond (new_consuming bs))
      = (sent, eff)"
  shows "prefix sent (addr_list bs) \<and> (cond = transfer_exactly k \<longrightarrow> length sent \<le> k)
    \<and> (\<forall>t. eff = Call_Handler None t \<longrightarrow> t = length sent \<and> min k (length (addr_list bs)) \<le> t)"
proof -
  let ?c = "new_consuming bs"
  note ok = general_start(1) [OF assms(1), of bs]
  have start: "start_write_op (general_ops N) cond ?c
      = Start_Some (c_prepare (general_ops N) ?c (cond None 0)) ?c"
    by (simp add: start_write_op_def write_op_call_def general_start)
  have pos: "0 < cond None 0" and stop: "stops_on_error cond"
    using assms(2,3)
    by (auto simp: transfer_exactly_def transfer_at_least_def default_max_transfer_size_def)
  note W = general.async_write [OF ok stop _ assms(4,5)]
  have "min k (length (addr_list bs)) \<le> length sent"
    if "sent = addr_list bs \<or> cond None (length sent) = 0"
    using assms(3) that
    by (auto simp: transfer_exactly_def transfer_at_least_def default_max_transfer_size_def
        split: if_splits)
  moreover have "length sent \<le> k" if "cond = transfer_exactly k"
    using general.transfer_exactly_bound [OF ok, of k os "cond None 0" sent eff] assms(4,5) pos that
    unfolding start by (simp add: general_start)
  ultimately show ?thesis
    using W pos by (auto simp: general_start cb_ok_new)
qed

lemma transfer_conditions_example:
  "\<exists>sent eff. write_run (general_ops 64) (transfer_exactly 4) [(None, 3, False), (None, 1, False)]
     (start_write_op (general_ops 64) (transfer_exactly 4) (new_consuming sample_targets)) = (sent, eff)
     \<and> length sent \<le> 4"
proof -
  let ?start = "start_write_op (general_ops 64) (transfer_exactly 4) (new_consuming sample_targets)"
  let ?os = "[(None, 3, False), (None, 1, False)]"
  obtain sent eff where run: "write_run (general_ops 64) (transfer_exactly 4) ?os ?start = (sent, eff)"
    by (metis surj_pair)
  have "legal_run (general_ops 64) (transfer_exactly 4) ?os ?start"
    by (simp add: start_write_op_def write_op_call_def general_ops_def new_consuming_def
        cb_prepare_def cb_consume_def cb_empty_def max_prepared_def transfer_exactly_def
        default_max_transfer_size_def sample_targets_def buffer_size_def buffer_size_many_def
        buffer_plus_def buffer_limit_def Let_def addrs_def upt_rec)
  from transfer_conditions [OF _ _ _ this run, of 4] run show ?thesis by auto
qed

end
