(* ===== verification/Asio_Connection.thy ===== *)
theory Asio_Connection
  imports Asio_Composed Connection_Write
begin

text \<open>
  The connection of the program over the composed operations of asio. \<open>Connection\<close> lets its
  environment complete a write with no error and the whole buffer, or with an error and some
  leading bytes, and a read with an error or exactly the bytes that fill the buffer. Here this is
  derived from the code of \<open>async_write\<close> and \<open>async_read\<close> for the single buffers that
  \<open>connection.h\<close> gives them, over any stream.
\<close>

section \<open>Single buffers\<close>

definition async_write_one :: "buffer \<Rightarrow> single_consuming effect" where
  "async_write_one b = start_write_op single_ops transfer_all (new_single b)"

definition async_read_one :: "buffer \<Rightarrow> single_consuming effect" where
  "async_read_one b = start_read_op single_ops transfer_all (new_single b)"

text \<open>What the handlers of \<open>Connection\<close> are given for a call of the handler by asio.\<close>

definition write_report :: "error_code \<Rightarrow> nat \<Rightarrow> nat option" where
  "write_report ec t = (case ec of None \<Rightarrow> None | Some _ \<Rightarrow> Some t)"

definition read_report :: "error_code \<Rightarrow> byte list \<Rightarrow> byte list option" where
  "read_report ec bs = (case ec of None \<Rightarrow> Some bs | Some _ \<Rightarrow> None)"

lemma single_start:
  "sc_pending (new_single b) = addrs b" "c_total single_ops (new_single b) = 0"
  by (simp_all add: sc_pending_def new_single_def single_ops_def)

lemma async_write_one:
  assumes "legal_run single_ops transfer_all os (async_write_one b)"
    and "write_run single_ops transfer_all os (async_write_one b) = (sent, Call_Handler ec t)"
  shows "map m sent = (case write_report ec t of None \<Rightarrow> map m (addrs b)
    | Some n \<Rightarrow> take n (map m (addrs b)))"
proof -
  note W = single.async_write [OF TrueI conditions_stop(1) _ assms [unfolded async_write_one_def]]
  have "sent = take (length sent) (addrs b)"
    using W(1) by (auto simp: single_start prefix_def)
  then have "map m sent = take (length sent) (map m (addrs b))" by (metis take_map)
  then show ?thesis
    using W(2) [OF _ refl] by (auto simp: single_start write_report_def split: option.splits)
qed

section \<open>The handlers of the connection\<close>

lemma pop_and_continue_wire: "pop_and_continue k = Inr k' \<Longrightarrow> wire k' = wire k"
  by (auto simp: pop_and_continue_def WriteHeader_def Let_def split: if_splits)

lemma on_WriteHeader_wire:
  assumes "on_WriteHeader r k = Inr k'" "q_out k = msg # ms"
  shows "wire k' = wire k @ (case r of None \<Rightarrow> enc_header (header msg)
    | Some n \<Rightarrow> take n (enc_header (header msg)))"
proof (cases r)
  case None
  with assms show ?thesis
    by (auto simp: on_WriteHeader_def Let_def Front_def WriteBody_def
        split: if_splits dest!: pop_and_continue_wire)
qed (use assms in \<open>auto simp: on_WriteHeader_def Let_def sent_part_def close_socket_def\<close>)

lemma on_WriteBody_wire:
  assumes "on_WriteBody r k = Inr k'" "q_out k = msg # ms"
  shows "wire k' = wire k @ (case r of None \<Rightarrow> body msg | Some n \<Rightarrow> take n (body msg))"
proof (cases r)
  case None
  with assms show ?thesis
    by (auto simp: on_WriteBody_def Let_def Front_def dest!: pop_and_continue_wire)
qed (use assms in \<open>auto simp: on_WriteBody_def Let_def sent_part_def close_socket_def\<close>)

text \<open>Whatever the stream does with the operations that \<open>async_write\<close> starts on the header
  (or on the body) of the front message, when asio calls the handler of the connection, the bytes
  this puts on the wire are exactly those \<open>Connection\<close> says: all of them if there is no error,
  else the leading ones that were transferred.\<close>

lemma connection_writes_are_asio_writes:
  assumes "q_out k = msg # ms"
    and "legal_run single_ops transfer_all os (async_write_one b)"
    and "write_run single_ops transfer_all os (async_write_one b) = (sent, Call_Handler ec t)"
  shows "(map m (addrs b) = enc_header (header msg)
           \<and> on_WriteHeader (write_report ec t) k = Inr k1 \<longrightarrow> wire k1 = wire k @ map m sent)
    \<and> (map m (addrs b) = body msg
           \<and> on_WriteBody (write_report ec t) k = Inr k2 \<longrightarrow> wire k2 = wire k @ map m sent)
    \<and> (map m (addrs b) = enc_u64 (hs_out k)
           \<longrightarrow> wire (on_WriteValidation (write_report ec t) k) = wire k @ map m sent)"
proof (intro conjI impI; (elim conjE)?)
  note sent = async_write_one [OF assms(2,3), of m]
  show "wire k1 = wire k @ map m sent"
    if "map m (addrs b) = enc_header (header msg)" "on_WriteHeader (write_report ec t) k = Inr k1"
    using on_WriteHeader_wire [OF that(2) assms(1)] sent that(1) by (simp split: option.splits)
  show "wire k2 = wire k @ map m sent"
    if "map m (addrs b) = body msg" "on_WriteBody (write_report ec t) k = Inr k2"
    using on_WriteBody_wire [OF that(2) assms(1)] sent that(1) by (simp split: option.splits)
  show "wire (on_WriteValidation (write_report ec t) k) = wire k @ map m sent"
    if "map m (addrs b) = enc_u64 (hs_out k)"
    using sent that
    by (auto simp: on_WriteValidation_def Let_def close_socket_def ReadHeader_def split: option.splits)
qed

text \<open>A read is a write with the same outcomes, which scatters what was received.\<close>

definition outcomes :: "(error_code \<times> byte list \<times> bool) list \<Rightarrow> (error_code \<times> nat \<times> bool) list" where
  "outcomes os = map (\<lambda>(ec, bytes, cancelled). (ec, length bytes, cancelled)) os"

lemma async_read_one:
  assumes "legal_reads single_ops transfer_all os (async_read_one b)"
    and "read_run single_ops transfer_all os (async_read_one b) m = (m', eff)"
  obtains sent where
    "legal_run single_ops transfer_all (outcomes os) (async_write_one b)"
    "write_run single_ops transfer_all (outcomes os) (async_write_one b) = (sent, eff)"
    "m' = scatter sent (take (length sent) (received os)) m"
proof -
  let ?c = "new_single b"
  have start: "async_read_one b = Start_Some (c_prepare single_ops ?c 65536) ?c"
    "async_write_one b = Start_Some (c_prepare single_ops ?c 65536) ?c"
    by (simp_all add: async_read_one_def async_write_one_def start_read_op_def start_write_op_def
        read_op_call_def write_op_call_def)
  obtain sent eff' where run: "write_run single_ops transfer_all (outcomes os) (async_write_one b)
      = (sent, eff')"
    by (metis surj_pair)
  have leg: "legal_run single_ops transfer_all (outcomes os) (async_write_one b)"
    using assms(1) unfolding legal_reads_def start outcomes_def .
  have "distinct (sc_pending ?c)" by (simp add: single_start addrs_def)
  then have "m' = scatter sent (take (length sent) (received os)) m" "eff = eff'"
    using single.read_run_write_run [OF TrueI _ conditions_stop(1) _ leg [unfolded start outcomes_def]
        run [unfolded start outcomes_def], of m] assms(2)
    by (simp_all add: start)
  then show ?thesis using that leg run by simp
qed

text \<open>A read of the connection is told of no error exactly with the bytes that fill its buffer:
  the first bytes the stream delivered, in order, as many as the buffer holds.\<close>

lemma connection_reads_are_asio_reads:
  assumes "legal_reads single_ops transfer_all os (async_read_one b)"
    and "read_run single_ops transfer_all os (async_read_one b) m = (m', Call_Handler ec t)"
    and "read_report ec (map m' (addrs b)) = Some bs"
  shows "bs = take (b_size b) (received os) \<and> length bs = b_size b
    \<and> (\<forall>a. a \<notin> set (addrs b) \<longrightarrow> m' a = m a)"
proof -
  obtain sent where leg: "legal_run single_ops transfer_all (outcomes os) (async_write_one b)"
    and run: "write_run single_ops transfer_all (outcomes os) (async_write_one b)
      = (sent, Call_Handler ec t)"
    and m': "m' = scatter sent (take (length sent) (received os)) m"
    by (rule async_read_one [OF assms(1,2)])
  have "ec = None" using assms(3) by (simp add: read_report_def split: option.splits)
  then have sent: "sent = addrs b"
    using single.async_write(2) [OF TrueI conditions_stop(1) _ leg [unfolded async_write_one_def]
        run [unfolded async_write_one_def] refl]
    by (simp add: single_start)
  have len: "b_size b \<le> length (received os)"
    using write_run_length [of single_ops transfer_all os "async_write_one b"]
    by (simp add: run [unfolded outcomes_def] sent)
  have "map m' (addrs b) = take (b_size b) (received os)" "a \<notin> set (addrs b) \<Longrightarrow> m' a = m a" for a
    using scatter_contents [of "addrs b" "b_size b" "received os", where m = m] len
    by (simp_all add: m' sent addrs_def)
  then show ?thesis
    using assms(3) len by (auto simp: read_report_def split: option.splits)
qed

text \<open>The header of a message, eight bytes at address 100, in two pieces.\<close>

definition header_memory :: "message \<Rightarrow> memory" where
  "header_memory msg = (\<lambda>a. enc_header (header msg) ! (a - 100))"

lemma header_memory: "map (header_memory msg) (addrs (make_buffer 100 8)) = enc_header (header msg)"
  by (intro nth_equalityI) (simp_all add: addrs_def header_memory_def del: upt_rec_numeral)

lemma sample_runs:
  "legal_run single_ops transfer_all [(None, 5, False), (None, 3, False)]
     (async_write_one (make_buffer 100 8))"
  "write_run single_ops transfer_all [(None, 5, False), (None, 3, False)]
     (async_write_one (make_buffer 100 8)) = ([100..<108], Call_Handler None 8)"
  "legal_reads single_ops transfer_all [(None, [1, 2, 3], False), (None, [4], False)]
     (async_read_one (make_buffer 100 4))"
  "snd (read_run single_ops transfer_all [(None, [1, 2, 3], False), (None, [4], False)]
     (async_read_one (make_buffer 100 4)) m) = Call_Handler None 4"
  by (simp_all add: async_write_one_def async_read_one_def start_write_op_def start_read_op_def
      write_op_call_def read_op_call_def legal_reads_def single_ops_def new_single_def sc_prepare_def
      sc_consume_def sc_empty_def Let_def buffer_plus_def buffer_limit_def addrs_def upt_rec)

end
