(* ===== verification/Asio_Socket.thy ===== *)
theory Asio_Socket
  imports Asio_Reactor_Facts Asio_Connection
begin

text \<open>
  A socket as its service keeps it, \<open>asio/detail/impl/reactive_socket_service_base.ipp\<close>: a native
  socket, its flags and its descriptor in the reactor. The two results are what a connection of
  the program relies on: closing the socket ends every pending operation with an error, and over a
  socket whose system calls behave as documented \<open>async_write\<close> is as \<open>Connection\<close> takes it to be.
\<close>

section \<open>Sockets\<close>

record socket_impl =
  si_socket :: socket_type
  si_state :: state_type
  si_data :: "descriptor_state option"

definition construct :: socket_impl where
  "construct = \<lparr>si_socket = invalid_socket, si_state = 0, si_data = None\<rparr>"

definition is_open :: "socket_impl \<Rightarrow> bool" where
  "is_open impl \<longleftrightarrow> si_socket impl \<noteq> invalid_socket"

text \<open>The new socket and what is left of the other one.\<close>

definition base_move_construct :: "socket_impl \<Rightarrow> socket_impl \<times> socket_impl" where
  "base_move_construct other =
     (let (target_data, other_data) = move_descriptor (si_data other)
      in (\<lparr>si_socket = si_socket other, si_state = si_state other, si_data = target_data\<rparr>,
          \<lparr>si_socket = invalid_socket, si_state = 0, si_data = other_data\<rparr>))"

text \<open>\<open>destroy\<close> and \<open>close\<close>, with the operations that the reactor posts.\<close>

definition si_destroy :: "socket_impl \<Rightarrow> script \<Rightarrow> ((socket_impl \<times> reactor_op list) \<times> script) option" where
  "si_destroy impl os =
     (if si_socket impl \<noteq> invalid_socket then
        let (data, ops) = deregister_descriptor (si_data impl) in
        map_option (\<lambda>((res, ec, state), os').
          ((impl\<lparr>si_state := state, si_data := cleanup_descriptor_data data\<rparr>, ops), os'))
          (so_close (si_socket impl) (si_state impl) True os)
      else Some ((impl, []), os))"

definition base_move_assign :: "socket_impl \<Rightarrow> socket_impl \<Rightarrow> script
    \<Rightarrow> ((socket_impl \<times> socket_impl \<times> reactor_op list) \<times> script) option" where
  "base_move_assign impl other os =
     map_option (\<lambda>((impl1, ops), os').
       let (target_data, other_data) = move_descriptor (si_data other)
       in ((impl1\<lparr>si_socket := si_socket other, si_state := si_state other, si_data := target_data\<rparr>,
            \<lparr>si_socket = invalid_socket, si_state = 0, si_data = other_data\<rparr>, ops), os'))
       (si_destroy impl os)"

definition si_close :: "socket_impl \<Rightarrow> script
    \<Rightarrow> ((socket_impl \<times> error_code \<times> reactor_op list) \<times> script) option" where
  "si_close impl os =
     (if is_open impl then
        let (data, ops) = deregister_descriptor (si_data impl) in
        map_option (\<lambda>((res, ec, state), os'). ((construct, ec, ops), os'))
          (so_close (si_socket impl) (si_state impl) False os)
      else Some ((construct, None, []), os))"

definition si_release :: "socket_impl \<Rightarrow> socket_impl \<times> socket_type \<times> error_code \<times> reactor_op list" where
  "si_release impl =
     (if \<not> is_open impl then (impl, invalid_socket, Some Bad_Descriptor, [])
      else let (data, ops) = deregister_descriptor (si_data impl)
           in (construct, si_socket impl, None, ops))"

definition si_cancel :: "socket_impl \<Rightarrow> socket_impl \<times> error_code \<times> reactor_op list" where
  "si_cancel impl =
     (if \<not> is_open impl then (impl, Some Bad_Descriptor, [])
      else let (data, ops) = cancel_ops (si_data impl) in (impl\<lparr>si_data := data\<rparr>, None, ops))"

datatype sock_type = SOCK_STREAM | SOCK_DGRAM | SOCK_Other

definition type_state :: "sock_type \<Rightarrow> state_type" where
  "type_state ty = (case ty of SOCK_STREAM \<Rightarrow> stream_oriented | SOCK_DGRAM \<Rightarrow> datagram_oriented
     | SOCK_Other \<Rightarrow> 0)"

text \<open>
  \<open>do_open\<close>: the result of \<open>epoll_ctl\<close> is \<open>ctl\<close>. If the descriptor cannot be registered, the holder
  of the new socket closes it.
\<close>

definition do_open :: "socket_impl \<Rightarrow> sock_type \<Rightarrow> error_code \<Rightarrow> script
    \<Rightarrow> ((socket_impl \<times> error_code) \<times> script) option" where
  "do_open impl ty ctl os =
     (if is_open impl then Some ((impl, Some Already_Open), os)
      else case os of [] \<Rightarrow> None
      | r # os1 \<Rightarrow>
          let (sock, ec) = sys_return r in
          if sock = invalid_socket then Some ((impl, ec), os1)
          else case register_descriptor sock ctl of
            (d, Some e) \<Rightarrow>
              map_option (\<lambda>(res, os2). ((impl\<lparr>si_data := Some d\<rparr>, Some e), os2)) (so_close sock 0 True os1)
          | (d, None) \<Rightarrow>
              Some ((impl\<lparr>si_socket := sock, si_state := type_state ty, si_data := Some d\<rparr>, None), os1))"

definition do_assign :: "socket_impl \<Rightarrow> sock_type \<Rightarrow> socket_type \<Rightarrow> error_code \<Rightarrow> socket_impl \<times> error_code"
  where
  "do_assign impl ty native_socket ctl =
     (if is_open impl then (impl, Some Already_Open)
      else case register_descriptor native_socket ctl of
        (d, Some e) \<Rightarrow> (impl\<lparr>si_data := Some d\<rparr>, Some e)
      | (d, None) \<Rightarrow>
          (impl\<lparr>si_socket := native_socket, si_state := type_state ty OR possible_dup, si_data := Some d\<rparr>, None))"

section \<open>Starting operations\<close>

definition with_start :: "socket_impl \<Rightarrow> descriptor_state option \<times> start_effect
    \<Rightarrow> socket_impl \<times> start_effect" where
  "with_start impl de = (impl\<lparr>si_data := fst de\<rparr>, snd de)"

definition do_start_op :: "socket_impl \<Rightarrow> op_type \<Rightarrow> reactor_op \<Rightarrow> bool \<Rightarrow> bool \<Rightarrow> performer \<Rightarrow> error_code
    \<Rightarrow> script \<Rightarrow> ((socket_impl \<times> start_effect) \<times> script) option" where
  "do_start_op impl t x is_non_blocking noop pf ctl os =
     (if \<not> noop then
        if flag (si_state impl) non_blocking
        then Some (with_start impl (start_op t (si_data impl) x is_non_blocking pf ctl), os)
        else map_option (\<lambda>((ok, ec, state), os').
          let impl1 = impl\<lparr>si_state := state\<rparr>; x1 = x\<lparr>ro_ec := ec\<rparr> in
          if ok then (with_start impl1 (start_op t (si_data impl) x1 is_non_blocking pf ctl), os')
          else ((impl1, Immediate x1), os'))
          (set_internal_non_blocking (si_socket impl) (si_state impl) True os)
      else Some ((impl, Immediate x), os))"

definition do_start_accept_op :: "socket_impl \<Rightarrow> reactor_op \<Rightarrow> bool \<Rightarrow> performer \<Rightarrow> error_code
    \<Rightarrow> script \<Rightarrow> ((socket_impl \<times> start_effect) \<times> script) option" where
  "do_start_accept_op impl x peer_is_open pf ctl os =
     (if \<not> peer_is_open then do_start_op impl epoll_read_op x True False pf ctl os
      else Some ((impl, Immediate (x\<lparr>ro_ec := Some Already_Open\<rparr>)), os))"

text \<open>The connect itself, once the socket is non-blocking.\<close>

definition start_connect :: "socket_impl \<Rightarrow> reactor_op \<Rightarrow> bool \<Rightarrow> performer \<Rightarrow> error_code
    \<Rightarrow> script \<Rightarrow> ((socket_impl \<times> start_effect) \<times> script) option" where
  "start_connect impl x is_unix pf ctl os =
     map_option (\<lambda>((res, ec), os').
       if res \<noteq> 0 \<and> (ec = Some In_Progress \<or> ec = Some Would_Block)
       then (with_start impl (start_op connect_op (si_data impl) (x\<lparr>ro_ec := None\<rparr>) False pf ctl), os')
       else ((impl, Immediate (x\<lparr>ro_ec := ec\<rparr>)), os'))
       (so_connect (si_socket impl) is_unix os)"

definition do_start_connect_op :: "socket_impl \<Rightarrow> reactor_op \<Rightarrow> bool \<Rightarrow> performer \<Rightarrow> error_code
    \<Rightarrow> script \<Rightarrow> ((socket_impl \<times> start_effect) \<times> script) option" where
  "do_start_connect_op impl x is_unix pf ctl os =
     (if flag (si_state impl) non_blocking then start_connect impl x is_unix pf ctl os
      else case set_internal_non_blocking (si_socket impl) (si_state impl) True os of None \<Rightarrow> None
      | Some ((ok, ec, state), os1) \<Rightarrow>
          if ok then start_connect (impl\<lparr>si_state := state\<rparr>) (x\<lparr>ro_ec := ec\<rparr>) is_unix pf ctl os1
          else Some ((impl\<lparr>si_state := state\<rparr>, Immediate (x\<lparr>ro_ec := ec\<rparr>)), os1))"

text \<open>\<open>async_send\<close> and \<open>async_receive\<close> of a sequence of buffers of \<open>len\<close> bytes, without flags.\<close>

definition async_send :: "socket_impl \<Rightarrow> nat \<Rightarrow> nat \<Rightarrow> nat \<Rightarrow> performer \<Rightarrow> error_code
    \<Rightarrow> script \<Rightarrow> ((socket_impl \<times> start_effect) \<times> script) option" where
  "async_send impl len i key pf ctl os =
     do_start_op impl epoll_write_op (new_reactor_op i key) True
       (flag (si_state impl) stream_oriented \<and> len = 0) pf ctl os"

definition async_receive :: "socket_impl \<Rightarrow> nat \<Rightarrow> nat \<Rightarrow> nat \<Rightarrow> performer \<Rightarrow> error_code
    \<Rightarrow> script \<Rightarrow> ((socket_impl \<times> start_effect) \<times> script) option" where
  "async_receive impl len i key pf ctl os =
     do_start_op impl epoll_read_op (new_reactor_op i key) True
       (flag (si_state impl) stream_oriented \<and> len = 0) pf ctl os"

section \<open>Closing\<close>

lemma construct_closed: "\<not> is_open construct" "si_state construct = 0" "si_data construct = None"
  by (simp_all add: construct_def is_open_def)

text \<open>C33: Closing an open socket completes every operation that was pending on it, once and with
  \<open>operation_aborted\<close>, in the order of the types and of the starts; and every operation with a
  non-empty buffer that is started on the socket afterwards completes at once with
  \<open>bad_descriptor\<close>. So no handler of a closed connection waits for ever or sees a success.\<close>

theorem close_aborts_all:
  assumes "is_open impl" "si_data impl = Some d" "\<not> d_shutdown d"
    and "si_close impl os = Some ((impl', ec, ops), os')"
  shows "map ro_id ops = concat (map (\<lambda>t. map ro_id (d_queue d t)) [0 ..< max_ops])
    \<and> (\<forall>y \<in> set ops. ro_ec y = Some Operation_Aborted)
    \<and> \<not> is_open impl'
    \<and> (\<forall>len i key pf ctl os. async_send impl' (Suc len) i key pf ctl os
        = Some ((impl', Immediate ((new_reactor_op i key)\<lparr>ro_ec := Some Bad_Descriptor\<rparr>)), os))
    \<and> (\<forall>len i key pf ctl os. async_receive impl' (Suc len) i key pf ctl os
        = Some ((impl', Immediate ((new_reactor_op i key)\<lparr>ro_ec := Some Bad_Descriptor\<rparr>)), os))"
proof -
  have ops: "ops = concat (map (\<lambda>t. map aborted (d_queue d t)) [0 ..< max_ops])" and "impl' = construct"
    using assms by (auto simp: si_close_def deregister_descriptor_def)
  then have i: "\<not> is_open impl'" "si_socket impl' = invalid_socket" "si_state impl' = 0"
    by (simp_all add: construct_def is_open_def)
  have self: "impl'\<lparr>si_state := 0\<rparr> = impl'" using i(3) by simp
  show ?thesis
    using i self by (auto simp: ops map_concat o_def aborted_def async_send_def async_receive_def
        do_start_op_def flag_def set_internal_non_blocking_def)
qed


text \<open>A socket with one read and two writes pending.\<close>

definition busy_descriptor :: descriptor_state where
  "busy_descriptor = (let d = fst (register_descriptor 5 None)
     in push_op 1 (new_reactor_op 3 0) (push_op 1 (new_reactor_op 2 0) (push_op 0 (new_reactor_op 1 0) d)))"

theorem close_aborts_all_witness:
  "\<exists>ops. si_close \<lparr>si_socket = 5, si_state = stream_oriented, si_data = Some busy_descriptor\<rparr> [Inr 0]
      = Some ((construct, None, ops), []) \<and> map ro_id ops = [1, 2, 3]
    \<and> (\<forall>y \<in> set ops. ro_ec y = Some Operation_Aborted)"
proof -
  let ?i = "\<lparr>si_socket = 5, si_state = stream_oriented, si_data = Some busy_descriptor\<rparr>"
  have d: "\<not> d_shutdown busy_descriptor" "d_queue busy_descriptor = (\<lambda>t. if t = 0 then [new_reactor_op 1 0]
      else if t = 1 then [new_reactor_op 2 0, new_reactor_op 3 0] else [])"
    by (auto simp: busy_descriptor_def register_descriptor_def allocated_def push_op_def Let_def)
  have o: "is_open ?i" by (simp add: is_open_def invalid_socket_def)
  obtain ops where c: "si_close ?i [Inr 0] = Some ((construct, None, ops), [])"
    using d by (auto simp: si_close_def is_open_def invalid_socket_def deregister_descriptor_def
        so_close_def sys_value_def get_last_error_def Let_def)
  have "[0 ..< max_ops] = [0, 1, 2]" by (simp add: max_ops_def upt_rec)
  then show ?thesis
    using close_aborts_all [OF o _ d(1) c] c by (auto simp: d(2) new_reactor_op_def)
qed

section \<open>Writing to a socket\<close>

text \<open>
  What an \<open>async_write_some\<close> or \<open>async_read_some\<close> on a buffer of \<open>len\<close> bytes completes with: it does
  nothing for an empty buffer, fails on a closed socket, or is completed by the reactor at some
  point of the life of the descriptor.
\<close>

definition socket_outcome :: "nat \<Rightarrow> error_code \<Rightarrow> nat \<Rightarrow> bool" where
  "socket_outcome len ec n \<longleftrightarrow> len = 0 \<and> ec = None \<and> n = 0 \<or> ec = Some Bad_Descriptor \<and> n = 0
     \<or> (\<exists>lens ty keyed d st cs. \<exists>y \<in> set cs. descriptor_run (socket_performer lens) ty keyed d st cs
          \<and> lens (ro_id y) = len \<and> ro_ec y = ec \<and> ro_bytes y = n)"

fun socket_run :: "'c consumer_ops \<Rightarrow> condition \<Rightarrow> (error_code \<times> nat \<times> bool) list \<Rightarrow> 'c effect \<Rightarrow> bool" where
  "socket_run ops cond ((ec, n, cancelled) # os) (Start_Some bs c) \<longleftrightarrow>
     socket_outcome (length (addr_list bs)) ec n
     \<and> socket_run ops cond os (write_op_call ops cond cancelled ec n 0 c)"
| "socket_run ops cond os eff \<longleftrightarrow> True"

lemma socket_outcome_legal:
  "socket_outcome len ec n \<Longrightarrow> n \<le> len \<and> (ec = None \<and> len \<noteq> 0 \<longrightarrow> 0 < n)"
  using outcome_run by (fastforce simp: socket_outcome_def outcome_inv_def outcome_ok_def)

lemma socket_run_legal: "socket_run ops cond os eff \<Longrightarrow> legal_run ops cond os eff"
  by (induction ops cond os eff rule: socket_run.induct) (auto dest: socket_outcome_legal)

lemma socket_outcome_possible:
  assumes "0 < n" "n \<le> len" shows "socket_outcome len None n"
proof -
  obtain d y where "descriptor_run (socket_performer (\<lambda>_. len)) (\<lambda>_. epoll_write_op) False d [0] [y]"
    "ro_ec y = None" "ro_bytes y = n"
    using run_sending [OF assms] by blast
  then have "\<exists>lens ty keyed d st cs. \<exists>y \<in> set cs. descriptor_run (socket_performer lens) ty keyed d st cs
      \<and> lens (ro_id y) = len \<and> ro_ec y = None \<and> ro_bytes y = n"
    by (intro exI [of _ "\<lambda>_. len"] exI [of _ "\<lambda>_. epoll_write_op"] exI [of _ False] exI [of _ d]
        exI [of _ "[0]"] exI [of _ "[y]"]) simp
  then show ?thesis unfolding socket_outcome_def by blast
qed

text \<open>A message header in two pieces, and four bytes in two pieces.\<close>

lemma sample_socket_runs:
  "socket_run single_ops transfer_all [(None, 5, False), (None, 3, False)]
     (async_write_one (make_buffer 100 8))"
  "socket_run single_ops transfer_all (outcomes [(None, [1, 2, 3], False), (None, [4], False)])
     (async_read_one (make_buffer 100 4))"
  by (simp_all add: async_write_one_def async_read_one_def start_write_op_def start_read_op_def
      write_op_call_def read_op_call_def single_ops_def new_single_def sc_prepare_def outcomes_def
      sc_consume_def sc_empty_def Let_def buffer_plus_def buffer_limit_def addrs_def upt_rec
      socket_outcome_possible)

text \<open>The handlers of a connection over a real socket. Whatever happens to the operations that
  \<open>async_write\<close> starts on the header (or on the body) of the front message, provided the system
  calls behave as documented: asio calls the handler after at most one operation more than there
  are bytes, and then the bytes on the wire are exactly those \<open>Connection\<close> says, all of them if no
  error is reported and else the leading ones that were sent.\<close>

lemma connection_writes_over_sockets:
  assumes "q_out k = msg # ms"
    and "socket_run single_ops transfer_all os (async_write_one b)"
    and "write_run single_ops transfer_all os (async_write_one b) = (sent, eff)"
  shows "(b_size b < length os \<longrightarrow> (\<exists>ec t. eff = Call_Handler ec t))
    \<and> (\<forall>ec t. eff = Call_Handler ec t \<longrightarrow>
       (map m (addrs b) = enc_header (header msg)
         \<and> on_WriteHeader (write_report ec t) k = Inr k1 \<longrightarrow> wire k1 = wire k @ map m sent)
       \<and> (map m (addrs b) = body msg
         \<and> on_WriteBody (write_report ec t) k = Inr k2 \<longrightarrow> wire k2 = wire k @ map m sent)
       \<and> (map m (addrs b) = enc_u64 (hs_out k)
         \<longrightarrow> wire (on_WriteValidation (write_report ec t) k) = wire k @ map m sent))"
proof (intro conjI allI impI)
  note legal = socket_run_legal [OF assms(2)]
  show "\<exists>ec t. eff = Call_Handler ec t" if "b_size b < length os"
    using single.async_write(3) [OF TrueI conditions_stop(1) _ legal [unfolded async_write_one_def]
        assms(3) [unfolded async_write_one_def]] that
    by (simp add: single_start addrs_def)
  fix ec t assume "eff = Call_Handler ec t"
  then have run: "write_run single_ops transfer_all os (async_write_one b) = (sent, Call_Handler ec t)"
    using assms(3) by simp
  note W = connection_writes_are_asio_writes [OF assms(1) legal run, of m k1 k2]
  show "wire k1 = wire k @ map m sent"
    if "map m (addrs b) = enc_header (header msg) \<and> on_WriteHeader (write_report ec t) k = Inr k1"
    using W that by blast
  show "wire k2 = wire k @ map m sent"
    if "map m (addrs b) = body msg \<and> on_WriteBody (write_report ec t) k = Inr k2"
    using W that by blast
  show "wire (on_WriteValidation (write_report ec t) k) = wire k @ map m sent"
    if "map m (addrs b) = enc_u64 (hs_out k)"
    using W that by blast
qed

lemma connection_writes_over_sockets_example:
  "\<exists>k1. on_WriteHeader (write_report None 8) sample_writing = Inr k1
    \<and> wire k1 = map (header_memory sample_message) [100..<108]"
proof -
  have q: "q_out sample_writing = [sample_message]" "wire sample_writing = []"
    by (simp_all add: sample_writing_def sample_conn_def new_connection_def Let_def)
  have "0 < GetBodySize sample_message"
    by (simp add: sample_message_def GetBodySize_def put_def msg_push_def message_of_def)
  then obtain k1 where k1: "on_WriteHeader (write_report None 8) sample_writing = Inr k1"
    using q by (simp add: on_WriteHeader_def Let_def write_report_def Front_def WriteBody_def)
  then show ?thesis
    using connection_writes_over_sockets [OF q(1) sample_socket_runs(1) sample_runs(2),
        of "header_memory sample_message" k1]
    by (simp add: header_memory q)
qed

text \<open>A read of a connection over a real socket whose system calls behave as documented: asio
  calls the handler after at most one operation more than there are bytes, and it reports no error
  only if the buffer holds exactly the first bytes received, as many as it has room for, and
  nothing else in memory has changed.\<close>

lemma connection_reads_over_sockets:
  assumes "socket_run single_ops transfer_all (outcomes os) (async_read_one b)"
    and "read_run single_ops transfer_all os (async_read_one b) m = (m', eff)"
  shows "(b_size b < length os \<longrightarrow> (\<exists>ec t. eff = Call_Handler ec t))
    \<and> (\<forall>t. eff = Call_Handler None t \<longrightarrow>
       map m' (addrs b) = take (b_size b) (received os) \<and> b_size b \<le> length (received os)
       \<and> (\<forall>a. a \<notin> set (addrs b) \<longrightarrow> m' a = m a))"
proof (intro conjI allI impI)
  have legal: "legal_reads single_ops transfer_all os (async_read_one b)"
    using socket_run_legal [OF assms(1)] by (simp add: legal_reads_def outcomes_def)
  obtain sent where leg: "legal_run single_ops transfer_all (outcomes os) (async_write_one b)"
    and run: "write_run single_ops transfer_all (outcomes os) (async_write_one b) = (sent, eff)"
    by (rule async_read_one [OF legal assms(2)])
  show "\<exists>ec t. eff = Call_Handler ec t" if "b_size b < length os"
    using single.async_write(3) [OF TrueI conditions_stop(1) _ leg [unfolded async_write_one_def]
        run [unfolded async_write_one_def]] that
    by (simp add: single_start addrs_def outcomes_def)
  fix t assume eff: "eff = Call_Handler None t"
  have rep: "read_report None (map m' (addrs b)) = Some (map m' (addrs b))" by (simp add: read_report_def)
  note R = connection_reads_are_asio_reads [OF legal assms(2) [unfolded eff] rep]
  show "map m' (addrs b) = take (b_size b) (received os)" using R by blast
  have "length (map m' (addrs b)) = b_size b" using R by blast
  then show "b_size b \<le> length (received os)" using R by (metis length_take min.absorb_iff2 nat_le_linear min_def)
  show "m' a = m a" if "a \<notin> set (addrs b)" for a using R that by blast
qed

lemma connection_reads_over_sockets_example:
  "\<exists>m'. read_run single_ops transfer_all [(None, [1, 2, 3], False), (None, [4], False)]
      (async_read_one (make_buffer 100 4)) (\<lambda>_. 0) = (m', Call_Handler None 4)
    \<and> map m' (addrs (make_buffer 100 4)) = [1, 2, 3, 4]"
proof -
  let ?os = "[(None, [1, 2, 3], False), (None, [4], False)]"
  obtain m' where run: "read_run single_ops transfer_all ?os (async_read_one (make_buffer 100 4))
      (\<lambda>_. 0) = (m', Call_Handler None 4)"
    using sample_runs(4) by (metis prod.collapse)
  have "map m' (addrs (make_buffer 100 4)) = take (b_size (make_buffer 100 4)) (received ?os)"
    using connection_reads_over_sockets [OF sample_socket_runs(2) run] by blast
  then have "map m' (addrs (make_buffer 100 4)) = [1, 2, 3, 4]" by simp
  with run show ?thesis by (intro exI [where x = m'] conjI)
qed

end
