(* ===== verification/Asio_Stack.thy ===== *)
theory Asio_Stack
  imports Asio_Socket Connection_Read
begin

text \<open>
  Both ends of a connection over asio and sockets. The writer of \<open>Connection_Write\<close> runs with every
  \<open>async_write\<close> carried out operation by operation, the reader of \<open>Connection_Read\<close> with every
  \<open>async_read\<close>; the kernel accepts and delivers bytes in pieces of its choice. The messages that the
  reader delivers are those the writer was given, in order.
\<close>

section \<open>Runs, one operation at a time\<close>

lemma write_run_snoc:
  "write_run ops cond os e = (sent, Start_Some bs c)
    \<Longrightarrow> write_run ops cond (os @ [(ec, n, cancelled)]) e
      = (sent @ take n (addr_list bs), write_op_call ops cond cancelled ec n 0 c)"
  by (induction ops cond os e arbitrary: sent rule: write_run.induct) (auto split: prod.splits)

lemma legal_run_snoc:
  "legal_run ops cond os e \<Longrightarrow> write_run ops cond os e = (sent, Start_Some bs c)
    \<Longrightarrow> socket_outcome (length (addr_list bs)) ec n \<Longrightarrow> legal_run ops cond (os @ [(ec, n, cancelled)]) e"
proof (induction ops cond os e arbitrary: sent rule: legal_run.induct)
qed (auto dest!: socket_outcome_legal split: prod.splits)

lemma read_run_snoc:
  "read_run ops cond os e m = (m', Start_Some bs c)
    \<Longrightarrow> read_run ops cond (os @ [(ec, bytes, cancelled)]) e m
      = (scatter (addr_list bs) bytes m', read_op_call ops cond cancelled ec (length bytes) 0 c)"
  by (induction ops cond os e m rule: read_run.induct) auto

section \<open>The writer\<close>

text \<open>The bytes that a write of the connection is given.\<close>

definition out_bytes :: "write_op \<Rightarrow> connection \<Rightarrow> byte list" where
  "out_bytes op k = (case op of
     W_Header \<Rightarrow> enc_header (header (hd (q_out k)))
   | W_Body \<Rightarrow> body (hd (q_out k))
   | W_Validation \<Rightarrow> enc_u64 (hs_out k))"

text \<open>
  The write in progress, if any: the memory its buffer is in and the effect of the last call of
  \<open>write_op\<close>. \<open>net\<close> is what the kernel has accepted.
\<close>

type_synonym writing = "(memory \<times> buffer \<times> single_consuming effect) option"

inductive swreach :: "connection \<Rightarrow> message list \<Rightarrow> connection \<Rightarrow> writing \<Rightarrow> byte list \<Rightarrow> bool" for k0 where
  start: "swreach k0 [] k0 None (wire k0)"
| send: "swreach k0 ms k act net \<Longrightarrow> swreach k0 (ms @ [m]) (Send m k) act net"
| disconnect: "swreach k0 ms k act net \<Longrightarrow> swreach k0 ms (Disconnect k) act net"
| task: "swreach k0 ms k act net \<Longrightarrow> run_task k = Inr k' \<Longrightarrow> swreach k0 ms k' act net"
| begin_write: "swreach k0 ms k None net \<Longrightarrow> writes k = [op] \<Longrightarrow> map m (addrs b) = out_bytes op k
    \<Longrightarrow> swreach k0 ms k (Some (m, b, async_write_one b)) net"
| io: "swreach k0 ms k (Some (m, b, Start_Some bs c)) net
    \<Longrightarrow> socket_outcome (length (addr_list bs)) ec n
    \<Longrightarrow> swreach k0 ms k (Some (m, b, write_op_call single_ops transfer_all cancelled ec n 0 c))
          (net @ map m (take n (addr_list bs)))"
| header: "swreach k0 ms k (Some (m, b, Call_Handler ec t)) net \<Longrightarrow> W_Header \<in> set (writes k)
    \<Longrightarrow> on_WriteHeader (write_report ec t) k = Inr k' \<Longrightarrow> swreach k0 ms k' None net"
| body: "swreach k0 ms k (Some (m, b, Call_Handler ec t)) net \<Longrightarrow> W_Body \<in> set (writes k)
    \<Longrightarrow> on_WriteBody (write_report ec t) k = Inr k' \<Longrightarrow> swreach k0 ms k' None net"

text \<open>
  What holds of it: the connection is one that \<open>Connection_Write\<close> describes, and the write in
  progress has put the leading bytes of its buffer on the wire.
\<close>

definition write_progress :: "connection \<Rightarrow> writing \<Rightarrow> byte list \<Rightarrow> bool" where
  "write_progress k act net \<longleftrightarrow> (case act of None \<Rightarrow> net = wire k
     | Some (m, b, eff) \<Rightarrow> \<exists>op os sent. writes k = [op] \<and> map m (addrs b) = out_bytes op k
         \<and> legal_run single_ops transfer_all os (async_write_one b)
         \<and> write_run single_ops transfer_all os (async_write_one b) = (sent, eff)
         \<and> net = wire k @ map m sent)"

lemma wreach_writing:
  assumes "wreach k0 ms k" "write_idle k0" "writes k = [op]"
  obtains msg qs where "q_out k = msg # qs" "op = W_Header \<or> op = W_Body"
proof -
  obtain part where "write_phase k part"
    using wreach_inv [OF assms(1,2)] by (auto simp: write_inv_def)
  then show ?thesis by (cases rule: write_phase_cases) (use assms(3) that in auto)
qed

lemma run_task_wire: "run_task k = Inr k' \<Longrightarrow> wire k' = wire k"
  by (auto simp: run_task_def WriteHeader_def close_socket_def Let_def split: list.splits task.splits if_splits)

lemma run_task_writing:
  assumes "run_task k = Inr k'" "q_out k = msg # qs"
  shows "writes k' = writes k \<and> out_bytes op k' = out_bytes op k"
  using assms by (auto simp: run_task_def close_socket_def PushBack_def IsEmpty_def out_bytes_def Let_def
      split: list.splits task.splits if_splits write_op.splits)

lemma swreach_inv:
  assumes "swreach k0 ms k act net" "write_idle k0"
  shows "wreach k0 ms k \<and> write_progress k act net"
  using assms(1)
proof (induction rule: swreach.induct)
  case start
  then show ?case by (simp add: wreach.start write_progress_def)
next
  case (send ms k act net m)
  then show ?case
    using wreach.send [of k0 ms k m]
    by (auto simp: write_progress_def Send_def out_bytes_def split: option.splits write_op.splits)
next
  case (disconnect ms k act net)
  then show ?case
    using wreach.disconnect [of k0 ms k]
    by (auto simp: write_progress_def Disconnect_def out_bytes_def split: option.splits write_op.splits)
next
  case (task ms k act net k')
  then have w: "wreach k0 ms k" "write_progress k act net" by simp_all
  have "write_progress k' act net"
  proof (cases act)
    case None
    then show ?thesis using w(2) run_task_wire [OF task.hyps(2)] by (simp add: write_progress_def)
  next
    case (Some mbe)
    then obtain op where op: "writes k = [op]" using w(2) by (auto simp: write_progress_def)
    then obtain msg qs where "q_out k = msg # qs" by (rule wreach_writing [OF w(1) assms(2)])
    then show ?thesis
      using w(2) run_task_writing [OF task.hyps(2)] run_task_wire [OF task.hyps(2)]
      by (simp add: write_progress_def Some split: prod.splits)
  qed
  then show ?case using wreach.task [OF w(1) task.hyps(2)] by simp
next
  case (begin_write ms k net op m b)
  then show ?case
    by (auto simp: write_progress_def intro!: exI [of _ op] exI [of _ "[]"])
next
  case (io ms k m b bs c net ec n cancelled)
  obtain op os sent where p: "writes k = [op]" "map m (addrs b) = out_bytes op k"
    "legal_run single_ops transfer_all os (async_write_one b)"
    "write_run single_ops transfer_all os (async_write_one b) = (sent, Start_Some bs c)"
    "net = wire k @ map m sent"
    using io.IH by (auto simp: write_progress_def)
  have "legal_run single_ops transfer_all (os @ [(ec, n, cancelled)]) (async_write_one b)"
    by (rule legal_run_snoc [OF p(3,4) io.hyps(2)])
  then show ?case
    using p io.IH write_run_snoc [OF p(4), of ec n cancelled] unfolding write_progress_def by fastforce
next
  case (header ms k m b ec t net k')
  then have w: "wreach k0 ms k" and "write_progress k (Some (m, b, Call_Handler ec t)) net" by simp_all
  then obtain os sent where p: "writes k = [W_Header]" "map m (addrs b) = out_bytes W_Header k"
    "legal_run single_ops transfer_all os (async_write_one b)"
    "write_run single_ops transfer_all os (async_write_one b) = (sent, Call_Handler ec t)"
    "net = wire k @ map m sent"
    using header.hyps(2) by (auto simp: write_progress_def)
  obtain msg qs where q: "q_out k = msg # qs" by (rule wreach_writing [OF w assms(2) p(1)])
  have "wire k' = wire k @ map m sent"
    using connection_writes_are_asio_writes [OF q p(3,4), of m k' k'] p(2) q header.hyps(3)
    by (auto simp: out_bytes_def)
  then show ?case using wreach.header [OF w header.hyps(2,3)] p(5) by (simp add: write_progress_def)
next
  case (body ms k m b ec t net k')
  then have w: "wreach k0 ms k" and "write_progress k (Some (m, b, Call_Handler ec t)) net" by simp_all
  then obtain os sent where p: "writes k = [W_Body]" "map m (addrs b) = out_bytes W_Body k"
    "legal_run single_ops transfer_all os (async_write_one b)"
    "write_run single_ops transfer_all os (async_write_one b) = (sent, Call_Handler ec t)"
    "net = wire k @ map m sent"
    using body.hyps(2) by (auto simp: write_progress_def)
  obtain msg qs where q: "q_out k = msg # qs" by (rule wreach_writing [OF w assms(2) p(1)])
  have "wire k' = wire k @ map m sent"
    using connection_writes_are_asio_writes [OF q p(3,4), of m k' k'] p(2) q body.hyps(3)
    by (auto simp: out_bytes_def)
  then show ?case using wreach.body [OF w body.hyps(2,3)] p(5) by (simp add: write_progress_def)
qed

text \<open>What the kernel has accepted, at every moment, also in the middle of an operation.\<close>

lemma single_sent:
  assumes "legal_run single_ops transfer_all os (async_write_one b)"
    and "write_run single_ops transfer_all os (async_write_one b) = (sent, eff)"
  shows "prefix sent (addrs b)"
  using single.async_write(1) [OF TrueI conditions_stop(1) _ assms [unfolded async_write_one_def]]
  by (simp add: single_start)

lemma wreach_stream_writing:
  assumes "wreach k0 ms k" "write_idle k0" "writes k = [op]"
  shows "\<exists>w. wire k = wire k0 @ w \<and> prefix (w @ out_bytes op k) (frames ms)"
proof -
  obtain sent part where inv: "ms = sent @ q_out k @ task_messages (tasks k)"
    "wire k = wire k0 @ frames sent @ part" "write_phase k part"
    using wreach_inv [OF assms(1,2)] by (auto simp: write_inv_def)
  have "prefix (part @ out_bytes op k) (frames (q_out k @ task_messages (tasks k)))"
    using inv(3) by (cases rule: write_phase_cases)
      (use assms(3) in \<open>auto simp: out_bytes_def frame_bytes_def\<close>)
  then show ?thesis by (intro exI [of _ "frames sent @ part"]) (simp add: inv(1,2))
qed

lemma swreach_stream:
  assumes "swreach k0 ms k act net" "write_idle k0"
  shows "\<exists>w. net = wire k0 @ w \<and> prefix w (frames ms)
    \<and> (tasks k = [] \<and> writes k = [] \<and> sock_open k \<longrightarrow> w = frames ms)"
proof -
  have w: "wreach k0 ms k" and p: "write_progress k act net" using swreach_inv [OF assms] by simp_all
  show ?thesis
  proof (cases act)
    case None
    then show ?thesis using wreach_stream [OF assms(2) w] p by (simp add: write_progress_def)
  next
    case (Some mbe)
    obtain m b eff where "mbe = (m, b, eff)" by (cases mbe)
    then obtain op os sent where a: "writes k = [op]" "map m (addrs b) = out_bytes op k"
      "legal_run single_ops transfer_all os (async_write_one b)"
      "write_run single_ops transfer_all os (async_write_one b) = (sent, eff)" "net = wire k @ map m sent"
      using p Some by (auto simp: write_progress_def)
    obtain w' where w': "wire k = wire k0 @ w'" "prefix (w' @ out_bytes op k) (frames ms)"
      using wreach_stream_writing [OF w assms(2) a(1)] by blast
    have "prefix (map m sent) (out_bytes op k)"
      using map_mono_prefix [OF single_sent [OF a(3,4)], of m] by (simp add: a(2))
    then have "prefix (w' @ map m sent) (frames ms)"
      using w'(2) by (auto simp: prefix_def)
    then show ?thesis using a(1,5) w'(1) by simp
  qed
qed

section \<open>The reader\<close>

text \<open>The size of the buffer that a read of the connection is given.\<close>

definition in_size :: "read_op \<Rightarrow> connection \<Rightarrow> nat" where
  "in_size op k = (case op of R_Header \<Rightarrow> 8 | R_Body \<Rightarrow> length (body (tmp_in k)) | R_Validation \<Rightarrow> 8)"

text \<open>What the read side has of a connection; the rest may change beside it.\<close>

definition read_side :: "connection \<Rightarrow> read_op list \<times> message \<times> owner" where
  "read_side k = (reads k, tmp_in k, owner_type k)"

text \<open>
  The read in progress, if any: its buffer, the memory and the effect of the last call of
  \<open>read_op\<close>. The queue is what the connection has put into the incoming messages, \<open>got\<close> what the
  kernel has delivered.
\<close>

type_synonym reading = "(buffer \<times> memory \<times> single_consuming effect) option"

inductive rreach :: "nat \<Rightarrow> connection \<Rightarrow> owned_message queue \<Rightarrow> connection \<Rightarrow> owned_message queue
    \<Rightarrow> reading \<Rightarrow> byte list \<Rightarrow> bool" for self r0 q0 where
  start: "rreach self r0 q0 r0 q0 None []"
| beside: "rreach self r0 q0 r q act got \<Longrightarrow> read_side r' = read_side r \<Longrightarrow> rreach self r0 q0 r' q act got"
| begin_read: "rreach self r0 q0 r q None got \<Longrightarrow> reads r = [op] \<Longrightarrow> b_size b = in_size op r
    \<Longrightarrow> rreach self r0 q0 r q (Some (b, m, async_read_one b)) got"
| io: "rreach self r0 q0 r q (Some (b, m, Start_Some bs c)) got
    \<Longrightarrow> socket_outcome (length (addr_list bs)) ec (length bytes)
    \<Longrightarrow> rreach self r0 q0 r q (Some (b, scatter (addr_list bs) bytes m,
          read_op_call single_ops transfer_all cancelled ec (length bytes) 0 c)) (got @ bytes)"
| header: "rreach self r0 q0 r q (Some (b, m, Call_Handler ec t)) got \<Longrightarrow> R_Header \<in> set (reads r)
    \<Longrightarrow> on_ReadHeader self (read_report ec (map m (addrs b))) (r, q) = (r', q')
    \<Longrightarrow> rreach self r0 q0 r' q' None got"
| body: "rreach self r0 q0 r q (Some (b, m, Call_Handler ec t)) got \<Longrightarrow> R_Body \<in> set (reads r)
    \<Longrightarrow> on_ReadBody self (read_report ec (map m (addrs b))) (r, q) = (r', q')
    \<Longrightarrow> rreach self r0 q0 r' q' None got"

text \<open>A turn of the read loop, or its end.\<close>

lemma recv_cases:
  obtains (head) "reads (fst kq) = [R_Header]" "8 \<le> length a"
      "recv self a kq = recv self (drop 8 a) (on_ReadHeader self (Some (take 8 a)) kq)"
  | (body) n where "reads (fst kq) = [R_Body]" "n = length (message.body (tmp_in (fst kq)))"
      "n \<le> length a" "recv self a kq = recv self (drop n a) (on_ReadBody self (Some (take n a)) kq)"
  | (stop) "recv self a kq = (a, kq)"
proof -
  consider "reads (fst kq) = [R_Header] \<and> 8 \<le> length a"
    | "reads (fst kq) = [R_Body] \<and> length (message.body (tmp_in (fst kq))) \<le> length a"
    | "\<not> (reads (fst kq) = [R_Header] \<and> 8 \<le> length a)"
      "\<not> (reads (fst kq) = [R_Body] \<and> length (message.body (tmp_in (fst kq))) \<le> length a)"
    by blast
  then show ?thesis
  proof cases
    case 1
    then show ?thesis by (intro head) (simp_all add: recv.simps [of self a])
  next
    case 2
    then show ?thesis by (intro body [OF _ refl]) (simp_all add: recv.simps [of self a] Let_def)
  next
    case 3
    then have "recv self a kq = (a, kq)" by (subst recv.simps) (auto simp: Let_def)
    then show ?thesis by (rule stop)
  qed
qed

lemma recv_append:
  "recv self a kq = (l, kq') \<Longrightarrow> recv self (a @ bs) kq = recv self (l @ bs) kq'"
proof (induction self a kq arbitrary: l kq' rule: recv.induct)
  case (1 self a kq)
  show ?case
  proof (cases rule: recv_cases [of kq a self])
    case head
    then have "recv self (drop 8 a) (on_ReadHeader self (Some (take 8 a)) kq) = (l, kq')"
      using "1.prems" by simp
    from "1.IH"(1) [OF refl _ _ this] show ?thesis
      using head(1,2) by (subst recv.simps) simp
  next
    case (body n)
    then have "recv self (drop n a) (on_ReadBody self (Some (take n a)) kq) = (l, kq')"
      using "1.prems" by simp
    from "1.IH"(2) [OF refl _ _ body(2) _ this] show ?thesis
      using body(1-3) by (subst recv.simps) (simp add: Let_def)
  next
    case stop
    then show ?thesis using "1.prems" by simp
  qed
qed

lemma on_ReadHeader_side:
  assumes "read_side k = read_side k'" "on_ReadHeader self r (k, q) = (k1, q1)"
    "on_ReadHeader self r (k', q) = (k1', q1')"
  shows "read_side k1 = read_side k1'" "q1 = q1'"
  using assms
  by (auto simp: on_ReadHeader_def read_side_def AddToIncomingMessageQueue_def ReadHeader_def ReadBody_def
      close_socket_def Let_def split: option.splits if_splits)

lemma on_ReadBody_side:
  assumes "read_side k = read_side k'" "on_ReadBody self r (k, q) = (k1, q1)"
    "on_ReadBody self r (k', q) = (k1', q1')"
  shows "read_side k1 = read_side k1'" "q1 = q1'"
  using assms
  by (auto simp: on_ReadBody_def read_side_def AddToIncomingMessageQueue_def ReadHeader_def ReadBody_def
      close_socket_def Let_def split: option.splits if_splits)

text \<open>
  What holds of the reader: it has delivered what \<open>recv\<close> delivers of the bytes up to the read in
  progress, and this read has stored the rest in the front of its buffer.
\<close>

definition in_progress :: "connection \<Rightarrow> buffer \<Rightarrow> memory \<Rightarrow> single_consuming effect \<Rightarrow> byte list \<Rightarrow> bool"
  where
  "in_progress r b m eff rest \<longleftrightarrow> (\<exists>op os sent m0. reads r = [op] \<and> b_size b = in_size op r
     \<and> rest = received os \<and> length sent = length rest
     \<and> legal_reads single_ops transfer_all os (async_read_one b)
     \<and> write_run single_ops transfer_all (outcomes os) (async_write_one b) = (sent, eff)
     \<and> read_run single_ops transfer_all os (async_read_one b) m0 = (m, eff))"

definition read_progress :: "nat \<Rightarrow> connection \<Rightarrow> owned_message queue \<Rightarrow> connection \<Rightarrow> owned_message queue
    \<Rightarrow> reading \<Rightarrow> byte list \<Rightarrow> bool" where
  "read_progress self r0 q0 r q act got \<longleftrightarrow> (\<exists>before rest r1.
     got = before @ rest \<and> recv self before (r0, q0) = ([], r1, q)
     \<and> (case act of None \<Rightarrow> reads r \<noteq> [] \<longrightarrow> rest = [] \<and> read_side r1 = read_side r
        | Some (b, m, eff) \<Rightarrow> read_side r1 = read_side r \<and> in_progress r b m eff rest))"

lemma async_read_is_write: "async_read_one b = async_write_one b"
  by (simp add: async_read_one_def async_write_one_def start_read_op_def start_write_op_def
      read_op_call_def write_op_call_def)

lemma in_progress_start:
  assumes "reads r = [op]" "b_size b = in_size op r"
  shows "in_progress r b m (async_read_one b) []"
  unfolding in_progress_def
  by (intro exI [of _ op] exI [of _ "[]"] exI [of _ m])
    (simp add: assms legal_reads_def outcomes_def async_read_is_write)

lemma in_progress_reads:
  "in_progress r b m eff rest \<Longrightarrow> \<exists>op. reads r = [op] \<and> b_size b = in_size op r"
  by (auto simp: in_progress_def)

lemma in_progress_io:
  assumes "in_progress r b m (Start_Some bs c) rest" "socket_outcome (length (addr_list bs)) ec (length bytes)"
  shows "in_progress r b (scatter (addr_list bs) bytes m)
    (read_op_call single_ops transfer_all cancelled ec (length bytes) 0 c) (rest @ bytes)"
proof -
  obtain op os sent m0 where p: "reads r = [op]" "b_size b = in_size op r" "rest = received os"
    "length sent = length rest" "legal_reads single_ops transfer_all os (async_read_one b)"
    "write_run single_ops transfer_all (outcomes os) (async_write_one b) = (sent, Start_Some bs c)"
    "read_run single_ops transfer_all os (async_read_one b) m0 = (m, Start_Some bs c)"
    using assms(1) by (auto simp: in_progress_def)
  let ?os = "os @ [(ec, bytes, cancelled)]"
  let ?eff = "read_op_call single_ops transfer_all cancelled ec (length bytes) 0 c"
  have os: "outcomes ?os = outcomes os @ [(ec, length bytes, cancelled)]" "received ?os = received os @ bytes"
    by (simp_all add: outcomes_def received_def)
  have "legal_run single_ops transfer_all (outcomes ?os) (async_write_one b)"
    using legal_run_snoc [OF _ p(6) assms(2)] p(5)
    by (simp add: os legal_reads_def async_read_is_write outcomes_def)
  then have "legal_reads single_ops transfer_all ?os (async_read_one b)"
    by (simp add: legal_reads_def async_read_is_write outcomes_def)
  moreover have "length (sent @ take (length bytes) (addr_list bs)) = length (received ?os)"
    using socket_outcome_legal [OF assms(2)] p(3,4) by (simp add: os)
  moreover have "write_run single_ops transfer_all (outcomes ?os) (async_write_one b)
      = (sent @ take (length bytes) (addr_list bs), ?eff)"
    unfolding os write_run_snoc [OF p(6)] by (simp add: read_op_call_def write_op_call_def)
  moreover have "read_run single_ops transfer_all ?os (async_read_one b) m0
      = (scatter (addr_list bs) bytes m, ?eff)"
    by (rule read_run_snoc [OF p(7)])
  ultimately show ?thesis
    using p(1-3) os(2) unfolding in_progress_def by metis
qed

lemma in_progress_complete:
  assumes "in_progress r b m (Call_Handler None t) rest"
  shows "map m (addrs b) = rest \<and> length rest = b_size b"
proof -
  obtain os sent m0 where p: "rest = received os" "length sent = length rest"
    "legal_reads single_ops transfer_all os (async_read_one b)"
    "write_run single_ops transfer_all (outcomes os) (async_write_one b) = (sent, Call_Handler None t)"
    "read_run single_ops transfer_all os (async_read_one b) m0 = (m, Call_Handler None t)"
    using assms by (auto simp: in_progress_def)
  have "legal_run single_ops transfer_all (outcomes os) (async_write_one b)"
    using p(3) by (simp add: legal_reads_def async_read_is_write outcomes_def)
  then have "sent = addrs b"
    using single.async_write(2) [OF TrueI conditions_stop(1) _ _ p(4) [unfolded async_write_one_def] refl]
    by (simp add: single_start async_write_one_def)
  then have "length rest = b_size b" using p(2) by (simp add: addrs_def)
  moreover have "read_report None (map m (addrs b)) = Some (map m (addrs b))" by (simp add: read_report_def)
  ultimately show ?thesis
    using connection_reads_are_asio_reads [OF p(3,5)] p(1) by simp
qed

lemma header_next:
  "on_ReadHeader self (Some bs) (k, q) = (k', q') \<Longrightarrow> reads k = [R_Header]
    \<Longrightarrow> reads k' = [R_Header] \<or> reads k' = [R_Body] \<and> message.body (tmp_in k') \<noteq> []"
  by (auto simp: on_ReadHeader_def AddToIncomingMessageQueue_def ReadHeader_def ReadBody_def resize_def
      unat_0_iff word_gt_0 Let_def split: if_splits)

lemma body_next:
  "on_ReadBody self (Some bs) (k, q) = (k', q') \<Longrightarrow> reads k = [R_Body] \<Longrightarrow> reads k' = [R_Header]"
  using on_ReadBody_reads [of "(k, q)" self bs] by simp

lemma recv_short:
  "reads k = [R_Header] \<or> reads k = [R_Body] \<and> message.body (tmp_in k) \<noteq> []
    \<Longrightarrow> recv self [] (k, q) = ([], k, q)"
  by (subst recv.simps) auto

lemma rreach_inv:
  assumes "rreach self r0 q0 r q act got" "reads r0 = [R_Header]"
  shows "read_progress self r0 q0 r q act got \<and> (\<forall>op. reads r = [op] \<longrightarrow> op \<noteq> R_Validation
    \<and> (op = R_Body \<longrightarrow> message.body (tmp_in r) \<noteq> [])) \<and> length (reads r) \<le> 1"
  using assms(1)
proof (induction rule: rreach.induct)
  case start
  then show ?case
    using assms(2) by (auto simp: read_progress_def recv_nothing intro!: exI [of _ "[]"])
next
  case (beside r q act got r')
  then have e: "reads r' = reads r" "tmp_in r' = tmp_in r" "in_size op r' = in_size op r" for op
    by (auto simp: read_side_def in_size_def split: read_op.splits)
  show ?case using beside.IH unfolding read_progress_def in_progress_def beside.hyps(2) e .
next
  case (begin_read r q got op b m)
  obtain r1 where "recv self got (r0, q0) = ([], r1, q)" "read_side r1 = read_side r"
    using begin_read.IH begin_read.hyps(2) by (auto simp: read_progress_def)
  then have "read_progress self r0 q0 r q (Some (b, m, async_read_one b)) got"
    using in_progress_start [OF begin_read.hyps(2,3)] by (auto simp: read_progress_def)
  then show ?case using begin_read.IH by blast
next
  case (io r q b m bs c got ec bytes cancelled)
  then obtain before rest r1 where "got = before @ rest" "recv self before (r0, q0) = ([], r1, q)"
    "read_side r1 = read_side r" "in_progress r b m (Start_Some bs c) rest"
    by (auto simp: read_progress_def)
  then have "read_progress self r0 q0 r q (Some (b, scatter (addr_list bs) bytes m,
      read_op_call single_ops transfer_all cancelled ec (length bytes) 0 c)) (got @ bytes)"
    using in_progress_io [OF _ io.hyps(2)] by (fastforce simp: read_progress_def)
  then show ?case using io.IH by blast
next
  case (header r q b m ec t got r' q')
  then obtain before rest r1 where p: "got = before @ rest" "recv self before (r0, q0) = ([], r1, q)"
    "read_side r1 = read_side r" "in_progress r b m (Call_Handler ec t) rest"
    by (auto simp: read_progress_def)
  have r: "reads r = [R_Header]" "b_size b = 8"
    using in_progress_reads [OF p(4)] header.hyps(2) by (auto simp: in_size_def)
  show ?case
  proof (cases ec)
    case None
    note R = in_progress_complete [OF p(4) [unfolded None]]
    have h: "on_ReadHeader self (Some rest) (r, q) = (r', q')"
      using header.hyps(3) R by (simp add: None read_report_def)
    obtain r1' q1' where h1: "on_ReadHeader self (Some rest) (r1, q) = (r1', q1')"
      by (cases "on_ReadHeader self (Some rest) (r1, q)")
    note side = on_ReadHeader_side [OF p(3) h1 h]
    note nx = header_next [OF h r(1)]
    have nx1: "reads r1' = [R_Header] \<or> reads r1' = [R_Body] \<and> message.body (tmp_in r1') \<noteq> []"
      using nx side by (simp add: read_side_def)
    have "recv self got (r0, q0) = ([], r1', q')"
      using recv_append [OF p(2), of rest] recv_header [of r1 rest self "[]" q] p(1,3) r R h1
        recv_short [OF nx1] side
      by (simp add: read_side_def)
    then show ?thesis using side nx by (auto simp: read_progress_def)
  next
    case (Some e)
    then have "reads r' = [] \<and> q' = q"
      using header.hyps(3) r(1) by (auto simp: read_report_def on_ReadHeader_def close_socket_def)
    then show ?thesis using p(1,2) by (auto simp: read_progress_def)
  qed
next
  case (body r q b m ec t got r' q')
  then obtain before rest r1 where p: "got = before @ rest" "recv self before (r0, q0) = ([], r1, q)"
    "read_side r1 = read_side r" "in_progress r b m (Call_Handler ec t) rest"
    by (auto simp: read_progress_def)
  have r: "reads r = [R_Body]" "b_size b = length (message.body (tmp_in r))"
    using in_progress_reads [OF p(4)] body.hyps(2) by (auto simp: in_size_def)
  show ?case
  proof (cases ec)
    case None
    note R = in_progress_complete [OF p(4) [unfolded None]]
    have h: "on_ReadBody self (Some rest) (r, q) = (r', q')"
      using body.hyps(3) R by (simp add: None read_report_def)
    obtain r1' q1' where h1: "on_ReadBody self (Some rest) (r1, q) = (r1', q1')"
      by (cases "on_ReadBody self (Some rest) (r1, q)")
    note side = on_ReadBody_side [OF p(3) h1 h]
    note nx = body_next [OF h r(1)]
    have nx1: "reads r1' = [R_Header] \<or> reads r1' = [R_Body] \<and> message.body (tmp_in r1') \<noteq> []"
      using nx side by (simp add: read_side_def)
    have "recv self got (r0, q0) = ([], r1', q')"
      using recv_append [OF p(2), of rest] recv_body [of r1 rest self "[]" q] p(1,3) r R h1
        recv_short [OF nx1] side
      by (simp add: read_side_def)
    then show ?thesis using side nx by (auto simp: read_progress_def)
  next
    case (Some e)
    then have "reads r' = [] \<and> q' = q"
      using body.hyps(3) r(1) by (auto simp: read_report_def on_ReadBody_def close_socket_def)
    then show ?thesis using p(1,2) by (auto simp: read_progress_def)
  qed
qed

section \<open>End to end\<close>

lemma on_Read_queue:
  "on_ReadHeader self (Some bs) (k, q) = (k', q') \<Longrightarrow> prefix q q'"
  "on_ReadBody self (Some bs) (k, q) = (k', q') \<Longrightarrow> prefix q q'"
  by (auto simp: on_ReadHeader_def on_ReadBody_def AddToIncomingMessageQueue_def PushBack_def Let_def
      split: if_splits)

lemma recv_queue: "prefix (snd kq) (snd (snd (recv self bs kq)))"
proof (induction self bs kq rule: recv.induct)
  case (1 self bs kq)
  show ?case
  proof (cases rule: recv_cases [of kq bs self])
    case head
    have "prefix (snd kq) (snd (on_ReadHeader self (Some (take 8 bs)) kq))"
      using on_Read_queue(1) [of self "take 8 bs" "fst kq" "snd kq"] by (metis prod.collapse)
    then show ?thesis
      unfolding head(3) using "1.IH"(1) [OF refl] head(1,2) prefix_order.trans by fastforce
  next
    case (body n)
    have "prefix (snd kq) (snd (on_ReadBody self (Some (take n bs)) kq))"
      using on_Read_queue(2) [of self "take n bs" "fst kq" "snd kq"] by (metis prod.collapse)
    then show ?thesis
      unfolding body(4) using "1.IH"(2) [OF refl _ _ body(2)] body(1,3) prefix_order.trans by fastforce
  qed simp
qed

lemma recv_all:
  assumes "list_all sendable ms" "reads r = [R_Header]"
  shows "\<exists>r'. recv self (frames ms) (r, q)
    = ([], r', q @ map (own self r) (delivered (message.body (tmp_in r)) ms))"
  using read_side_result [OF assms(2,1), of self q] by blast

text \<open>C2: End to end over sockets. Two connections joined by a TCP stream, from a writer at rest
  whose handshake is over and a reader that waits for a header, with system calls that behave as
  documented: whatever pieces the kernels accept and deliver, and whatever fails or is closed on
  either side, the reader has delivered at every moment what its read loop makes of a prefix of the
  frames of the messages given to \<open>Send\<close>. If the messages are as \<open>operator<<\<close> builds them, these are
  the first of them, in order; each is unchanged, but that one without a body (\<open>StartGame\<close>) has
  the body of the last one that had a body. The reader has delivered all of them when the writer
  is idle and open and the reader, not failed, has taken everything.\<close>

theorem messages_over_sockets:
  assumes "write_idle k0" "swreach k0 ms k act net" "net = wire k0 @ w"
    and "rreach self r0 q0 r q ract got" "reads r0 = [R_Header]" "prefix got w"
  shows "(\<exists>before r1. prefix before (frames ms) \<and> recv self before (r0, q0) = ([], r1, q))
    \<and> (list_all sendable ms \<longrightarrow>
        (\<exists>n. q = q0 @ map (own self r0) (take n (delivered (message.body (tmp_in r0)) ms)))
        \<and> (tasks k = [] \<and> writes k = [] \<and> sock_open k \<and> got = w \<and> ract = None \<and> reads r \<noteq> []
          \<longrightarrow> q = q0 @ map (own self r0) (delivered (message.body (tmp_in r0)) ms)))"
proof -
  have w: "prefix w (frames ms)" "tasks k = [] \<and> writes k = [] \<and> sock_open k \<longrightarrow> w = frames ms"
    using swreach_stream [OF assms(2,1)] assms(3) by auto
  obtain before rest r1 where p: "got = before @ rest" "recv self before (r0, q0) = ([], r1, q)"
    "ract = None \<longrightarrow> reads r \<noteq> [] \<longrightarrow> rest = []"
  proof -
    have "\<exists>before rest r1. got = before @ rest \<and> recv self before (r0, q0) = ([], r1, q)
        \<and> (ract = None \<longrightarrow> reads r \<noteq> [] \<longrightarrow> rest = [])"
      using conjunct1 [OF rreach_inv [OF assms(4,5)]] unfolding read_progress_def
      by (elim exE conjE, intro exI conjI) (assumption+, intro impI, simp)
    then show ?thesis using that by blast
  qed
  obtain x where x: "frames ms = before @ rest @ x"
    using w(1) assms(6) p(1) by (auto simp: prefix_def)
  have 1: "\<exists>before r1. prefix before (frames ms) \<and> recv self before (r0, q0) = ([], r1, q)"
    using p(2) x by (auto simp: prefix_def)
  let ?ds = "delivered (message.body (tmp_in r0)) ms"
  have "(\<exists>n. q = q0 @ map (own self r0) (take n ?ds))
      \<and> (tasks k = [] \<and> writes k = [] \<and> sock_open k \<and> got = w \<and> ract = None \<and> reads r \<noteq> []
        \<longrightarrow> q = q0 @ map (own self r0) ?ds)" if ms: "list_all sendable ms"
  proof -
    obtain r' where all: "recv self (frames ms) (r0, q0) = ([], r', q0 @ map (own self r0) ?ds)"
      using recv_all [OF ms assms(5)] by blast
    have "recv self (rest @ x) (r1, q) = ([], r', q0 @ map (own self r0) ?ds)"
      using recv_append [OF p(2), of "rest @ x"] all x by simp
    then have "prefix q (q0 @ map (own self r0) ?ds)" "prefix q0 q"
      using recv_queue [of "(r1, q)" self "rest @ x"] recv_queue [of "(r0, q0)" self before] p(2) by simp_all
    then obtain n where "q = q0 @ take n (map (own self r0) ?ds)"
      by (metis append_eq_conv_conj prefix_def same_prefix_prefix)
    moreover have "q = q0 @ map (own self r0) ?ds"
      if "tasks k = [] \<and> writes k = [] \<and> sock_open k \<and> got = w \<and> ract = None \<and> reads r \<noteq> []"
      using that w(2) p all by simp
    ultimately show ?thesis by (metis take_map)
  qed
  with 1 show ?thesis by blast
qed

section \<open>A run\<close>

text \<open>An operation that the kernel completes at once.\<close>

lemma one_call:
  assumes "b = make_buffer a n" "0 < n" "n \<le> 65536"
  shows "async_write_one b = Start_Some (sc_prepare (new_single b) 65536) (new_single b)"
    and "addr_list (sc_prepare (new_single b) 65536) = addrs b"
    and "write_op_call single_ops transfer_all False None n 0 (new_single b) = Call_Handler None n"
    and "read_op_call single_ops transfer_all False None n 0 (new_single b) = Call_Handler None n"
  using assms(2,3)
  by (simp_all add: assms(1) async_write_one_def start_write_op_def write_op_call_def read_op_call_def
      single_ops_def new_single_def sc_prepare_def sc_consume_def sc_empty_def Let_def buffer_plus_def
      buffer_limit_def make_buffer_def addrs_def check_for_completion_def)

lemma write_at_once:
  assumes "swreach k0 ms k None net" "writes k = [op]" "0 < length (out_bytes op k)"
    "length (out_bytes op k) \<le> 65536"
  shows "\<exists>m b. swreach k0 ms k (Some (m, b, Call_Handler None (length (out_bytes op k)))) (net @ out_bytes op k)"
proof -
  let ?bs = "out_bytes op k"
  define m where "m = (\<lambda>a. ?bs ! (a - 100))"
  define b where "b = make_buffer 100 (length ?bs)"
  have b: "addrs b = [100 ..< 100 + length ?bs]" by (simp add: addrs_def b_def make_buffer_def)
  have m: "map m (addrs b) = ?bs"
    by (intro nth_equalityI) (simp_all add: b m_def)
  note one = one_call [OF b_def assms(3,4)]
  have "swreach k0 ms k (Some (m, b, Start_Some (sc_prepare (new_single b) 65536) (new_single b))) net"
    using swreach.begin_write [OF assms(1,2) m] by (simp add: one(1))
  from swreach.io [OF this, unfolded one, of None "length ?bs" False]
  have "swreach k0 ms k (Some (m, b, Call_Handler None (length ?bs))) (net @ map m (take (length ?bs) (addrs b)))"
    using socket_outcome_possible [OF assms(3), of "length ?bs"] by (simp add: one(3) b)
  moreover have "take (length ?bs) (addrs b) = addrs b" by (simp add: b)
  ultimately show ?thesis using m by auto
qed

lemma read_at_once:
  assumes "rreach self r0 q0 r q None got" "reads r = [op]" "in_size op r = length bs" "0 < length bs"
    "length bs \<le> 65536"
  shows "\<exists>b m. rreach self r0 q0 r q (Some (b, m, Call_Handler None (length bs))) (got @ bs)
    \<and> map m (addrs b) = bs"
proof -
  define b where "b = make_buffer 100 (length bs)"
  have b: "addrs b = [100 ..< 100 + length bs]" "b_size b = length bs"
    by (simp_all add: addrs_def b_def make_buffer_def)
  let ?m = "scatter (addrs b) bs (\<lambda>_. 0)"
  note one = one_call [OF b_def assms(4,5)]
  have "rreach self r0 q0 r q (Some (b, (\<lambda>_. 0), Start_Some (sc_prepare (new_single b) 65536) (new_single b))) got"
    using rreach.begin_read [OF assms(1,2), of b "\<lambda>_. 0"] assms(3) b(2)
    by (simp add: one(1) async_read_is_write)
  from rreach.io [OF this, unfolded one, of None bs False]
  have "rreach self r0 q0 r q (Some (b, ?m, Call_Handler None (length bs))) (got @ bs)"
    using socket_outcome_possible [OF assms(4), of "length bs"] by (simp add: one(4) b(1))
  moreover have "map ?m (addrs b) = bs"
    using scatter_contents(1) [of "addrs b" "length bs" bs "\<lambda>_. 0"] by (simp add: b(1))
  ultimately show ?thesis by blast
qed

text \<open>One message is sent and received.\<close>

lemma sample_writer:
  "\<exists>k. swreach sample_conn [sample_message] k None (frames [sample_message]) \<and> writes k = []
    \<and> tasks k = [] \<and> sock_open k"
proof -
  have sizes: "length (enc_header (header sample_message)) = 8" "length (message.body sample_message) = 4"
    by (simp_all add: body_sample_message)
  then have "0 < GetBodySize sample_message" by (simp add: GetBodySize_def)
  have w0: "wire sample_conn = []" "q_out sample_writing = [sample_message]" "writes sample_writing = [W_Header]"
    "tasks sample_writing = []" "sock_open sample_writing" "wire sample_writing = []"
    by (simp_all add: sample_conn_def sample_writing_def new_connection_def Let_def)
  have "swreach sample_conn ([] @ [sample_message]) (Send sample_message sample_conn) None []"
    using swreach.send [OF swreach.start] w0(1) by metis
  then have "swreach sample_conn [sample_message] sample_writing None []"
    by (auto intro: swreach.task simp: run_task_def Send_def sample_conn_def sample_writing_def new_connection_def
      WriteHeader_def PushBack_def IsEmpty_def Front_def Let_def)
  from write_at_once [OF this w0(3)] sizes
  obtain m b where h: "swreach sample_conn [sample_message] sample_writing (Some (m, b, Call_Handler None 8))
      (enc_header (header sample_message))"
    by (auto simp: out_bytes_def w0)
  let ?k1 = "sample_writing\<lparr>writes := [W_Body], wire := enc_header (header sample_message)\<rparr>"
  have "on_WriteHeader (write_report None 8) sample_writing = Inr ?k1"
    using \<open>0 < GetBodySize sample_message\<close>
    by (simp add: on_WriteHeader_def write_report_def w0 Front_def WriteBody_def Let_def)
  from swreach.header [OF h _ this]
  have "swreach sample_conn [sample_message] ?k1 None (enc_header (header sample_message))"
    by (simp add: w0)
  from write_at_once [OF this, of W_Body] sizes
  obtain m b where h: "swreach sample_conn [sample_message] ?k1 (Some (m, b, Call_Handler None 4))
      (frames [sample_message])"
    by (auto simp: out_bytes_def w0 frame_bytes_def)
  let ?k2 = "?k1\<lparr>q_out := [], writes := [], wire := frames [sample_message]\<rparr>"
  have "on_WriteBody (write_report None 4) ?k1 = Inr ?k2"
    by (simp add: on_WriteBody_def write_report_def w0 Front_def pop_and_continue_cons Let_def frame_bytes_def)
  from swreach.body [OF h _ this]
  have "swreach sample_conn [sample_message] ?k2 None (frames [sample_message])" by simp
  then show ?thesis using w0 by (intro exI [of _ ?k2]) simp
qed

lemma sample_read:
  "\<exists>r q. rreach 0 sample_reader [] r q None (frames [sample_message]) \<and> reads r = [R_Header]"
proof -
  have sizes: "length (enc_header (header sample_message)) = 8" "length (message.body sample_message) = 4"
    by (simp_all add: body_sample_message)
  have bs: "body_size (header sample_message) = 4"
    using sendable_samples(1) sizes by (simp add: sendable_def synced_def)
  have "rreach 0 sample_reader [] sample_reader [] None []" by (rule rreach.start)
  from read_at_once [OF this sample_reader_simps(1), of "enc_header (header sample_message)"] sizes
  obtain b m where h: "rreach 0 sample_reader [] sample_reader [] (Some (b, m, Call_Handler None 8))
      (enc_header (header sample_message))" "map m (addrs b) = enc_header (header sample_message)"
    by (auto simp: in_size_def)
  let ?r1 = "sample_reader\<lparr>tmp_in := \<lparr>header = header sample_message, body = replicate 4 0\<rparr>, reads := [R_Body]\<rparr>"
  have "on_ReadHeader 0 (read_report None (map m (addrs b))) (sample_reader, []) = (?r1, [])"
    using sendable_samples(1) bs
    by (simp add: h(2) read_report_def on_ReadHeader_def dec_enc_header sendable_def sample_reader_simps
        ReadBody_def resize_def Let_def)
  from rreach.header [OF h(1) _ this]
  have "rreach 0 sample_reader [] ?r1 [] None (enc_header (header sample_message))"
    by (simp add: sample_reader_simps)
  from read_at_once [OF this, of R_Body "message.body sample_message"] sizes
  obtain b m where g: "rreach 0 sample_reader [] ?r1 [] (Some (b, m, Call_Handler None 4))
      (frames [sample_message])" "map m (addrs b) = message.body sample_message"
    by (auto simp: in_size_def frame_bytes_def)
  let ?r2 = "?r1\<lparr>tmp_in := sample_message, reads := [R_Header]\<rparr>"
  have "on_ReadBody 0 (read_report None (map m (addrs b))) (?r1, []) = (?r2, [own 0 sample_reader sample_message])"
    by (simp add: g(2) read_report_def on_ReadBody_def AddToIncomingMessageQueue_def PushBack_def ReadHeader_def
        own_def Let_def)
  from rreach.body [OF g(1) _ this] show ?thesis
    by (intro exI [of _ ?r2] exI [of _ "[own 0 sample_reader sample_message]"]) simp
qed

theorem messages_over_sockets_witness:
  "\<exists>r q. rreach 0 sample_reader [] r q None (frames [sample_message])
    \<and> q = [own 0 sample_reader sample_message]"
proof -
  obtain k where k: "swreach sample_conn [sample_message] k None (frames [sample_message])" "writes k = []"
    "tasks k = []" "sock_open k"
    using sample_writer by blast
  obtain r q where r: "rreach 0 sample_reader [] r q None (frames [sample_message])" "reads r = [R_Header]"
    using sample_read by blast
  have "frames [sample_message] = wire sample_conn @ frames [sample_message]"
    by (simp add: sample_conn_def new_connection_def Let_def)
  from messages_over_sockets [OF sample_conn_idle(1) k(1) this r(1) sample_reader_simps(1)]
  have "q = [own 0 sample_reader sample_message]"
    using k(2-4) r(2) sendable_samples(1) enc_u32_ne by (simp add: body_sample_message)
  then show ?thesis using r(1) by blast
qed

end
