(* ===== verification/Asio_Delivery.thy ===== *)
theory Asio_Delivery
  imports Asio_Stack
begin

text \<open>
  That messages get through: from every state of the two ends of \<open>Asio_Stack\<close> in which nothing has
  failed, sockets that work bring the writer to rest and the reader to deliver every message.
\<close>

section \<open>Operations that succeed\<close>

text \<open>The next call of a composed operation, after one that has filled its buffers.\<close>

lemma next_call:
  "write_op_call single_ops transfer_all cancelled None n 0 c
    = (let c1 = c_consume single_ops c n in
       if n = 0 \<or> sc_pending c1 = [] then Call_Handler None (c_total single_ops c1)
       else if cancelled then Call_Handler (Some Operation_Aborted) (c_total single_ops c1)
       else Start_Some (c_prepare single_ops c1 65536) c1)"
  "read_op_call single_ops transfer_all cancelled ec n 0 c = write_op_call single_ops transfer_all cancelled ec n 0 c"
  by (auto simp: write_op_call_def read_op_call_def single.empty_iff [OF TrueI] Let_def)

lemma next_call_error:
  "write_op_call single_ops transfer_all cancelled (Some e) n 0 c
    = Call_Handler (Some e) (c_total single_ops (c_consume single_ops c n))"
  by (simp add: write_op_call_def transfer_all_def Let_def)

text \<open>An operation in progress has its buffers ready for what is left.\<close>

lemma run_stuck: "write_run ops cond os (Call_Handler ec t) = ([], Call_Handler ec t)"
  by (cases os) auto

lemma single_shape:
  "legal_run single_ops transfer_all os (Start_Some (c_prepare single_ops c0 65536) c0)
    \<Longrightarrow> write_run single_ops transfer_all os (Start_Some (c_prepare single_ops c0 65536) c0) = (sent, Start_Some bs c)
    \<Longrightarrow> bs = c_prepare single_ops c 65536 \<and> sc_pending c = drop (length sent) (sc_pending c0)"
proof (induction os arbitrary: c0 sent)
  case (Cons x os)
  obtain ec n cn where x: "x = (ec, n, cn)" by (metis prod_cases3)
  let ?c1 = "c_consume single_ops c0 n"
  have n: "n \<le> length (addr_list (c_prepare single_ops c0 65536))" using Cons.prems(1) by (simp add: x)
  note take = single.prepare_take [OF TrueI n]
  obtain sent' where r: "write_run single_ops transfer_all os (write_op_call single_ops transfer_all cn ec n 0 c0)
      = (sent', Start_Some bs c)" "sent = take n (sc_pending c0) @ sent'"
    using Cons.prems(2) take(1) by (auto simp: x split: prod.splits)
  have call: "write_op_call single_ops transfer_all cn ec n 0 c0 = Start_Some (c_prepare single_ops ?c1 65536) ?c1"
    using r(1) by (cases ec) (auto simp: next_call(1) next_call_error run_stuck Let_def split: if_splits)
  have "legal_run single_ops transfer_all os (Start_Some (c_prepare single_ops ?c1 65536) ?c1)"
    using Cons.prems(1) call by (simp add: x)
  then show ?case
    using Cons.IH r call single.consume_pending [OF TrueI take(2)] take(2) by (simp add: add.commute)
qed simp

text \<open>What an operation transfers that does all that the code asks of it.\<close>

lemma full_outcome: "socket_outcome n None n"
  using socket_outcome_possible [of n n] by (cases "n = 0") (auto simp: socket_outcome_def)

lemma full_consume:
  assumes "n = length (addr_list (c_prepare single_ops c 65536))"
  shows "sc_pending (c_consume single_ops c n) = drop n (sc_pending c)" "n \<le> length (sc_pending c)"
    "n = 0 \<longleftrightarrow> sc_pending c = []" "take n (addr_list (c_prepare single_ops c 65536)) = take n (sc_pending c)"
proof -
  show n: "n \<le> length (sc_pending c)" using single.prepare_take(2) [OF TrueI] assms by blast
  show "sc_pending (c_consume single_ops c n) = drop n (sc_pending c)"
    by (rule single.consume_pending [OF TrueI n])
  show "n = 0 \<longleftrightarrow> sc_pending c = []"
    using single.prepare_nonempty [of c 65536] n assms by auto
  show "take n (addr_list (c_prepare single_ops c 65536)) = take n (sc_pending c)"
    using single.prepare_take(1) [OF TrueI, of n c 65536] assms by simp
qed

lemma finish_write:
  "swreach k0 ms k (Some (m, b, Start_Some (c_prepare single_ops c 65536) c)) net
    \<Longrightarrow> \<exists>t net'. swreach k0 ms k (Some (m, b, Call_Handler None t)) net'"
proof (induction "length (sc_pending c)" arbitrary: c net rule: less_induct)
  case less
  define n where "n = length (addr_list (c_prepare single_ops c 65536))"
  note f = full_consume [OF n_def]
  have step: "swreach k0 ms k (Some (m, b, write_op_call single_ops transfer_all False None n 0 c))
      (net @ map m (take n (addr_list (c_prepare single_ops c 65536))))"
    by (rule swreach.io [OF less.prems]) (simp add: n_def full_outcome)
  show ?case
  proof (cases "n = 0 \<or> sc_pending (c_consume single_ops c n) = []")
    case True
    then show ?thesis using step by (auto simp: next_call Let_def)
  next
    case False
    then have "length (sc_pending (c_consume single_ops c n)) < length (sc_pending c)"
      using f by simp
    then show ?thesis using less.hyps step False by (auto simp: next_call(1) Let_def)
  qed
qed

lemma finish_read:
  "rreach self r0 q0 r q (Some (b, m, Start_Some (c_prepare single_ops c 65536) c)) got
    \<Longrightarrow> length bs = length (sc_pending c)
    \<Longrightarrow> \<exists>m' t. rreach self r0 q0 r q (Some (b, m', Call_Handler None t)) (got @ bs)"
proof (induction "length (sc_pending c)" arbitrary: c m got bs rule: less_induct)
  case less
  define n where "n = length (addr_list (c_prepare single_ops c 65536))"
  note f = full_consume [OF n_def]
  have len: "length (take n bs) = n" using f(2) less.prems(2) by simp
  obtain m' where step: "rreach self r0 q0 r q
      (Some (b, m', write_op_call single_ops transfer_all False None n 0 c)) (got @ take n bs)"
    using rreach.io [OF less.prems(1), of None "take n bs" False] full_outcome [of n] len
    by (auto simp: n_def [symmetric] next_call(2))
  show ?case
  proof (cases "n = 0 \<or> sc_pending (c_consume single_ops c n) = []")
    case True
    then have "take n bs = bs" using f less.prems(2) by auto
    then show ?thesis using step True by (auto simp: next_call Let_def)
  next
    case False
    let ?c1 = "c_consume single_ops c n"
    have "length (sc_pending ?c1) < length (sc_pending c)" "length (drop n bs) = length (sc_pending ?c1)"
      using f False less.prems(2) by simp_all
    moreover have "rreach self r0 q0 r q (Some (b, m', Start_Some (c_prepare single_ops ?c1 65536) ?c1))
        (got @ take n bs)"
      using step False by (simp add: next_call(1) Let_def)
    ultimately have "\<exists>m' t. rreach self r0 q0 r q (Some (b, m', Call_Handler None t))
        ((got @ take n bs) @ drop n bs)"
      using less.hyps by blast
    then show ?thesis by simp
  qed
qed

section \<open>The writer\<close>

lemma async_write_one_start:
  "async_write_one b = Start_Some (c_prepare single_ops (new_single b) 65536) (new_single b)"
  by (simp add: async_write_one_def start_write_op_def write_op_call_def)

lemma memory_holds: "\<exists>m b. map m (addrs b) = bs \<and> b_size b = length bs"
proof (intro exI conjI)
  let ?b = "make_buffer 100 (length bs)"
  show "map (\<lambda>a. bs ! (a - 100)) (addrs ?b) = bs"
    by (intro nth_equalityI) (simp_all add: addrs_def make_buffer_def)
  show "b_size ?b = length bs" by (simp add: make_buffer_def)
qed

lemma write_succeeds:
  assumes "swreach k0 ms k None net" "writes k = [op]"
  shows "\<exists>m b t net'. swreach k0 ms k (Some (m, b, Call_Handler None t)) net'"
proof -
  obtain m b where "map m (addrs b) = out_bytes op k" using memory_holds by blast
  from finish_write [OF swreach.begin_write [OF assms this, unfolded async_write_one_start]]
  show ?thesis by blast
qed

lemma single_write:
  assumes "write_idle k0 \<and> (\<exists>net. swreach k0 ms k None net)" "op \<in> set (writes k)"
  shows "writes k = [op]"
proof -
  obtain part where "write_phase k part"
    using assms(1) swreach_inv wreach_phase by blast
  then show ?thesis by (cases rule: write_phase_cases) (use assms(2) in auto)
qed

text \<open>Sockets are a transport as the drained connection needs it.\<close>

interpretation sk: drainable "\<lambda>k. write_idle k0 \<and> (\<exists>net. swreach k0 ms k None net)" for k0 ms
proof unfold_locales
  show "\<exists>part. write_phase k part" if "write_idle k0 \<and> (\<exists>net. swreach k0 ms k None net)" for k
    using that swreach_inv wreach_phase by blast
  show "write_idle k0 \<and> (\<exists>net. swreach k0 ms k' None net)"
    if "write_idle k0 \<and> (\<exists>net. swreach k0 ms k None net)" "run_task k = Inr k'" for k k'
    using that swreach.task by blast
  show "write_idle k0 \<and> (\<exists>net. swreach k0 ms k' None net)"
    if "write_idle k0 \<and> (\<exists>net. swreach k0 ms k None net)" "W_Header \<in> set (writes k)"
      "on_WriteHeader None k = Inr k'" for k k'
    using write_succeeds [OF _ single_write [OF that(1,2)]] that swreach.header [of k0 ms k _ _ None _ _ k']
    by (fastforce simp: write_report_def)
  show "write_idle k0 \<and> (\<exists>net. swreach k0 ms k' None net)"
    if "write_idle k0 \<and> (\<exists>net. swreach k0 ms k None net)" "W_Body \<in> set (writes k)"
      "on_WriteBody None k = Inr k'" for k k'
    using write_succeeds [OF _ single_write [OF that(1,2)]] that swreach.body [of k0 ms k _ _ None _ _ k']
    by (fastforce simp: write_report_def)
qed

lemma writer_comes_to_rest:
  assumes "write_idle k0" "swreach k0 ms k None net" "sock_open k" "all_sends (tasks k)"
  shows "\<exists>k'. swreach k0 ms k' None (wire k0 @ frames ms) \<and> write_idle k' \<and> sock_open k'"
proof -
  obtain k' net' where k': "swreach k0 ms k' None net'" "write_idle k'" "sock_open k'"
    using sk.drains [of k0 ms k] assms by blast
  then have "net' = wire k0 @ frames ms"
    using swreach_stream [OF k'(1) assms(1)] by (auto simp: write_idle_def)
  then show ?thesis using k' by blast
qed

section \<open>The reader\<close>

lemma read_succeeds:
  assumes "rreach self r0 q0 r q None got" "reads r0 = [R_Header]" "reads r = [op]" "in_size op r = length bs"
  shows "\<exists>b m t. rreach self r0 q0 r q (Some (b, m, Call_Handler None t)) (got @ bs) \<and> map m (addrs b) = bs"
proof -
  obtain b :: buffer where b: "b_size b = length bs" using memory_holds [of bs] by blast
  have start: "rreach self r0 q0 r q (Some (b, (\<lambda>_. 0),
      Start_Some (c_prepare single_ops (new_single b) 65536) (new_single b))) got"
    using rreach.begin_read [OF assms(1,3)] assms(4) b
    by (metis async_read_is_write async_write_one_start)
  have "length bs = length (sc_pending (new_single b))" by (simp add: b single_start addrs_def)
  from finish_read [OF start this]
  obtain m t where fin: "rreach self r0 q0 r q (Some (b, m, Call_Handler None t)) (got @ bs)" by blast
  obtain before rest where p: "got @ bs = before @ rest" "in_progress r b m (Call_Handler None t) rest"
    using rreach_inv [OF fin assms(2)] by (auto simp: read_progress_def)
  have "map m (addrs b) = rest" "length rest = length bs"
    using in_progress_complete [OF p(2)] b by simp_all
  then show ?thesis using fin p(1) by auto
qed

text \<open>The reader can follow \<open>recv\<close> on whatever arrives.\<close>

lemma reader_follows:
  "rreach self r0 q0 (fst rq) (snd rq) None got \<Longrightarrow> reads r0 = [R_Header] \<Longrightarrow> recv self bs rq = ([], r', q')
    \<Longrightarrow> rreach self r0 q0 r' q' None (got @ bs)"
proof (induction self bs rq arbitrary: got rule: recv.induct)
  case (1 self bs rq)
  show ?case
  proof (cases rule: recv_cases [of rq bs self])
    case head
    obtain b m t where s: "rreach self r0 q0 (fst rq) (snd rq) (Some (b, m, Call_Handler None t)) (got @ take 8 bs)"
      "map m (addrs b) = take 8 bs"
      using read_succeeds [OF "1.prems"(1,2) head(1), of "take 8 bs"] head(2) by (auto simp: in_size_def)
    let ?rq = "on_ReadHeader self (Some (take 8 bs)) rq"
    have "rreach self r0 q0 (fst ?rq) (snd ?rq) None (got @ take 8 bs)"
      by (rule rreach.header [OF s(1)]) (simp_all add: head(1) s(2) read_report_def)
    from "1.IH"(1) [OF refl head(1) _ this "1.prems"(2)] show ?thesis
      using head(2,3) "1.prems"(3) by simp
  next
    case (body n)
    obtain b m t where s: "rreach self r0 q0 (fst rq) (snd rq) (Some (b, m, Call_Handler None t)) (got @ take n bs)"
      "map m (addrs b) = take n bs"
      using read_succeeds [OF "1.prems"(1,2) body(1), of "take n bs"] body(2,3) by (auto simp: in_size_def)
    let ?rq = "on_ReadBody self (Some (take n bs)) rq"
    have "rreach self r0 q0 (fst ?rq) (snd ?rq) None (got @ take n bs)"
      by (rule rreach.body [OF s(1)]) (simp_all add: body(1) s(2) read_report_def)
    from "1.IH"(2) [OF refl _ body(1,2) _ this "1.prems"(2)] show ?thesis
      using body(1,3,4) "1.prems"(3) by simp
  next
    case stop
    then show ?thesis using "1.prems" by auto
  qed
qed

section \<open>Delivery\<close>

text \<open>An operation that has not failed.\<close>

fun unfailed :: "single_consuming effect \<Rightarrow> bool" where
  "unfailed (Call_Handler (Some e) t) \<longleftrightarrow> False"
| "unfailed eff \<longleftrightarrow> True"

lemma write_in_progress_ends:
  assumes "swreach k0 ms k (Some (m, b, eff)) net" "write_idle k0" "unfailed eff"
  shows "\<exists>t net'. swreach k0 ms k (Some (m, b, Call_Handler None t)) net'"
proof (cases eff)
  case (Start_Some bs c)
  obtain os sent where "legal_run single_ops transfer_all os (async_write_one b)"
    "write_run single_ops transfer_all os (async_write_one b) = (sent, Start_Some bs c)"
    using swreach_inv [OF assms(1,2)] Start_Some by (auto simp: write_progress_def)
  then have "bs = c_prepare single_ops c 65536"
    using single_shape unfolding async_write_one_start by blast
  then show ?thesis using finish_write assms(1) Start_Some by blast
next
  case (Call_Handler ec t)
  then show ?thesis using assms(1,3) by (cases ec) auto
qed

lemma writer_unblocks:
  assumes "swreach k0 ms k act net" "write_idle k0" "sock_open k"
    and "\<forall>m b eff. act = Some (m, b, eff) \<longrightarrow> unfailed eff"
  shows "\<exists>k' net'. swreach k0 ms k' None net' \<and> sock_open k' \<and> tasks k' = tasks k"
proof (cases act)
  case None
  then show ?thesis using assms by blast
next
  case (Some mbe)
  obtain m b eff where a: "act = Some (m, b, eff)" using Some by (metis prod_cases3)
  obtain t net' where h: "swreach k0 ms k (Some (m, b, Call_Handler None t)) net'"
    using write_in_progress_ends assms a by blast
  have w: "wreach k0 ms k" using swreach_inv [OF h assms(2)] by simp
  obtain op where op: "writes k = [op]" using swreach_inv [OF h assms(2)] by (auto simp: write_progress_def)
  obtain msg qs where q: "q_out k = msg # qs" "op = W_Header \<or> op = W_Body"
    by (rule wreach_writing [OF w assms(2) op])
  show ?thesis
  proof (cases "op = W_Header")
    case True
    obtain k' where k': "on_WriteHeader None k = Inr k'" "sock_open k' = sock_open k" "tasks k' = tasks k"
      using q(1) by (cases "0 < GetBodySize msg")
        (auto simp: on_WriteHeader_def Front_def WriteBody_def pop_and_continue_cons Let_def)
    show ?thesis using swreach.header [OF h] k' op True assms(3) by (auto simp: write_report_def)
  next
    case False
    obtain k' where k': "on_WriteBody None k = Inr k'" "sock_open k' = sock_open k" "tasks k' = tasks k"
      using q(1) by (auto simp: on_WriteBody_def Front_def pop_and_continue_cons Let_def)
    show ?thesis using swreach.body [OF h] k' op q(2) False assms(3) by (auto simp: write_report_def)
  qed
qed

lemma read_in_progress_ends:
  assumes "rreach self r0 q0 r q (Some (b, m, eff)) got" "reads r0 = [R_Header]" "unfailed eff"
    "in_progress r b m eff rest" "length x = b_size b - length rest"
  shows "\<exists>m' t. rreach self r0 q0 r q (Some (b, m', Call_Handler None t)) (got @ x)"
proof (cases eff)
  case (Start_Some bs c)
  obtain os sent where p: "length sent = length rest" "legal_reads single_ops transfer_all os (async_read_one b)"
    "write_run single_ops transfer_all (outcomes os) (async_write_one b) = (sent, Start_Some bs c)"
    using assms(4) Start_Some by (auto simp: in_progress_def)
  have "legal_run single_ops transfer_all (outcomes os) (async_write_one b)"
    using p(2) by (simp add: legal_reads_def async_read_is_write outcomes_def)
  then have s: "bs = c_prepare single_ops c 65536 \<and> sc_pending c = drop (length sent) (sc_pending (new_single b))"
    using single_shape p(3) unfolding async_write_one_start by blast
  then have "length x = length (sc_pending c)"
    using assms(5) p(1) by (simp add: single_start addrs_def)
  then show ?thesis using finish_read assms(1) Start_Some s by blast
next
  case (Call_Handler ec t)
  then have "ec = None" using assms(3) by (cases ec) auto
  then show ?thesis using in_progress_complete assms(1,4,5) Call_Handler by fastforce
qed

lemma in_progress_length:
  assumes "in_progress r b m eff rest" shows "length rest \<le> b_size b"
proof -
  obtain os sent where p: "length sent = length rest" "legal_reads single_ops transfer_all os (async_read_one b)"
    "write_run single_ops transfer_all (outcomes os) (async_write_one b) = (sent, eff)"
    using assms by (auto simp: in_progress_def)
  have "legal_run single_ops transfer_all (outcomes os) (async_write_one b)"
    using p(2) by (simp add: legal_reads_def async_read_is_write outcomes_def)
  then have "length sent \<le> length (addrs b)" using single_sent p(3) prefix_length_le by blast
  then show ?thesis by (simp add: p(1) addrs_def)
qed

text \<open>What the completed read has in its buffer.\<close>

lemma read_complete_bytes:
  assumes "rreach self r0 q0 r q (Some (b, m, Call_Handler None t)) (before @ bs)" "reads r0 = [R_Header]"
    "length bs = b_size b"
  shows "map m (addrs b) = bs"
proof -
  obtain before' rest where p: "before @ bs = before' @ rest" "in_progress r b m (Call_Handler None t) rest"
    using rreach_inv [OF assms(1,2)] by (auto simp: read_progress_def)
  then show ?thesis using in_progress_complete [OF p(2)] assms(3) by auto
qed

lemma idle_reader_gets_all:
  assumes "rreach self r0 q0 r q None got" "reads r0 = [R_Header]" "reads r \<noteq> []"
    "recv self (got @ x) (r0, q0) = ([], rf, qf)"
  shows "rreach self r0 q0 rf qf None (got @ x)"
proof -
  obtain r1 where r1: "recv self got (r0, q0) = ([], r1, q)" "read_side r1 = read_side r"
    using rreach_inv [OF assms(1,2)] assms(3) by (auto simp: read_progress_def)
  have "recv self x (r1, q) = ([], rf, qf)" using recv_append [OF r1(1), of x] assms(4) by simp
  moreover have "rreach self r0 q0 r1 q None got" by (rule rreach.beside [OF assms(1) r1(2)])
  ultimately show ?thesis using reader_follows [of self r0 q0 "(r1, q)" got x rf qf] assms(2) by simp
qed

lemma reader_gets_all:
  assumes "rreach self r0 q0 r q ract got" "reads r0 = [R_Header]" "reads r \<noteq> []"
    "\<forall>b m eff. ract = Some (b, m, eff) \<longrightarrow> unfailed eff"
    "recv self (got @ x) (r0, q0) = ([], rf, qf)"
  shows "\<exists>r' ract'. rreach self r0 q0 r' qf ract' (got @ x)"
proof (cases ract)
  case None
  then show ?thesis using idle_reader_gets_all assms(1-3,5) by blast
next
  case (Some bme)
  obtain b m eff where a: "ract = Some (b, m, eff)" using Some by (metis prod_cases3)
  obtain before rest r1 where p: "got = before @ rest" "recv self before (r0, q0) = ([], r1, q)"
    "read_side r1 = read_side r" "in_progress r b m eff rest"
    using rreach_inv [OF assms(1,2)] by (auto simp: read_progress_def a)
  have rs: "reads r1 = reads r" "tmp_in r1 = tmp_in r" using p(3) by (simp_all add: read_side_def)
  have rv: "recv self (rest @ x) (r1, q) = ([], rf, qf)"
    using recv_append [OF p(2), of "rest @ x"] assms(5) p(1) by simp
  note le = in_progress_length [OF p(4)]
  show ?thesis
  proof (cases rule: recv_cases [of "(r1, q)" "rest @ x" self])
    case head
    let ?x1 = "take (8 - length rest) x"
    have "b_size b = 8" "reads r = [R_Header]"
      using in_progress_reads [OF p(4)] head(1) rs by (auto simp: in_size_def)
    then obtain m' t where h: "rreach self r0 q0 r q (Some (b, m', Call_Handler None t)) (got @ ?x1)"
      using read_in_progress_ends [OF assms(1) [unfolded a] assms(2) _ p(4), of ?x1] assms(4) a head(2) by auto
    then have "map m' (addrs b) = rest @ ?x1"
      using read_complete_bytes [of self r0 q0 r q b m' t before "rest @ ?x1"] assms(2) p(1) head(2) le
        \<open>b_size b = 8\<close> by simp
    moreover obtain r' q' where o: "on_ReadHeader self (Some (rest @ ?x1)) (r, q) = (r', q')"
      by (cases "on_ReadHeader self (Some (rest @ ?x1)) (r, q)")
    ultimately have n: "rreach self r0 q0 r' q' None (got @ ?x1)"
      using rreach.header [OF h, of r' q'] \<open>reads r = [R_Header]\<close> by (simp add: read_report_def)
    have "reads r' \<noteq> []" using header_next [OF o \<open>reads r = [R_Header]\<close>] by auto
    from idle_reader_gets_all [OF n assms(2) this, of "drop (8 - length rest) x"] assms(5)
    show ?thesis by auto
  next
    case (body n)
    let ?x1 = "take (n - length rest) x"
    have bn: "b_size b = n" "reads r = [R_Body]"
      using in_progress_reads [OF p(4)] body(1,2) rs by (auto simp: in_size_def)
    then obtain m' t where h: "rreach self r0 q0 r q (Some (b, m', Call_Handler None t)) (got @ ?x1)"
      using read_in_progress_ends [OF assms(1) [unfolded a] assms(2) _ p(4), of ?x1] assms(4) a body(3) by auto
    then have "map m' (addrs b) = rest @ ?x1"
      using read_complete_bytes [of self r0 q0 r q b m' t before "rest @ ?x1"] assms(2) p(1) body(3) le bn
      by simp
    moreover obtain r' q' where o: "on_ReadBody self (Some (rest @ ?x1)) (r, q) = (r', q')"
      by (cases "on_ReadBody self (Some (rest @ ?x1)) (r, q)")
    ultimately have k: "rreach self r0 q0 r' q' None (got @ ?x1)"
      using rreach.body [OF h, of r' q'] bn by (simp add: read_report_def)
    have "reads r' \<noteq> []" using body_next [OF o bn(2)] by auto
    from idle_reader_gets_all [OF k assms(2) this, of "drop (n - length rest) x"] assms(5)
    show ?thesis by auto
  next
    case stop
    then have "x = []" "q = qf" using rv by simp_all
    then show ?thesis using assms(1) by auto
  qed
qed



end
