(* ===== verification/Asio_Overlap.thy ===== *)
theory Asio_Overlap
  imports Asio_Delivery Handshake
begin

text \<open>
  Two writes on one socket. The challenge of the handshake and the header of a message can be in
  flight at the same time; what the reactor makes of that, operation by operation.
\<close>

section \<open>The write queue of the descriptor\<close>

text \<open>
  The challenge and then the header wait for a socket that is not ready. When it is, the kernel takes
  \<open>n\<close> bytes of the challenge; its operation completes, and \<open>write_op\<close> starts another for the rest,
  which waits behind the header. Then the kernel takes everything. Operation 0 has the challenge,
  1 the header and 2 the rest of the challenge.
\<close>

definition blocked :: performer where
  "blocked x = (Not_Done, None, 0)"

definition content :: "nat \<Rightarrow> byte list \<Rightarrow> byte list \<Rightarrow> nat \<Rightarrow> byte list" where
  "content n challenge hdr i = (if i = 0 then challenge else if i = 1 then hdr else drop n challenge)"

definition overlapping_writes :: "nat \<Rightarrow> byte list \<Rightarrow> byte list \<Rightarrow> descriptor_state \<Rightarrow> reactor_op list" where
  "overlapping_writes n challenge hdr d =
     (let (dd1, e1) = start_op epoll_write_op (Some d) (new_reactor_op 0 0) True blocked None;
          (dd2, e2) = start_op epoll_write_op dd1 (new_reactor_op 1 0) True blocked None;
          (d3, cs) = perform_io (\<lambda>x. (Done_And_Exhausted, None, n)) EPOLLOUT (the dd2);
          (dd4, e4) = start_op epoll_write_op (Some d3) (new_reactor_op 2 0) True blocked None;
          (d5, cs') = perform_io (\<lambda>x. (Done, None, length (content n challenge hdr (ro_id x)))) EPOLLOUT (the dd4)
      in cs @ cs')"

definition transferred :: "(nat \<Rightarrow> byte list) \<Rightarrow> reactor_op list \<Rightarrow> byte list" where
  "transferred f cs = concat (map (\<lambda>x. take (ro_bytes x) (f (ro_id x))) cs)"

lemma or_nonzero:
  assumes "w \<noteq> 0"
  shows "w OR v \<noteq> (0 :: 'a :: len word)"
proof
  assume "w OR v = 0"
  then have "\<not> bit w i" for i by (metis bit_or_iff bit_0_eq bot_apply bot_bool_def)
  then show False using assms by (auto intro: bit_eqI)
qed

lemma waits:
  assumes "\<not> d_shutdown d" "registered_events d \<noteq> 0"
  shows "\<exists>d' y. start_op epoll_write_op (Some d) x True blocked None = (Some d', Queued) \<and> ro_id y = ro_id x
    \<and> d_queue d' epoll_write_op = d_queue d epoll_write_op @ [y] \<and> \<not> d_shutdown d' \<and> registered_events d' \<noteq> 0"
  using assms
  by (auto simp: start_op_def blocked_def perform_def push_op_def Let_def op_types or_nonzero)

lemma writable:
  assumes "perform_loop pf (d_queue d epoll_write_op) True = (cs, q, spec)"
  shows "\<exists>d'. perform_io pf EPOLLOUT d = (d', cs) \<and> d_queue d' epoll_write_op = q
    \<and> d_shutdown d' = d_shutdown d \<and> registered_events d' = registered_events d"
  using assms
  by (simp add: perform_io_def perform_type_def io_flag_def EPOLLIN_def EPOLLPRI_def EPOLLOUT_def EPOLLERR_def
      EPOLLHUP_def epoll_write_op_def)

lemma overlapping_writes_order:
  assumes "d_queue d epoll_write_op = []" "\<not> d_shutdown d" "registered_events d \<noteq> 0" "n \<le> length challenge"
  shows "transferred (content n challenge hdr) (overlapping_writes n challenge hdr d)
    = take n challenge @ hdr @ drop n challenge"
proof -
  obtain d1 y0 where 1: "start_op epoll_write_op (Some d) (new_reactor_op 0 0) True blocked None = (Some d1, Queued)"
    "d_queue d1 epoll_write_op = [y0]" "\<not> d_shutdown d1" "registered_events d1 \<noteq> 0" "ro_id y0 = 0"
    using waits [OF assms(2,3), of "new_reactor_op 0 0"] assms(1) by (auto simp: new_reactor_op_def)
  obtain d2 y1 where 2: "start_op epoll_write_op (Some d1) (new_reactor_op 1 0) True blocked None = (Some d2, Queued)"
    "d_queue d2 epoll_write_op = [y0, y1]" "\<not> d_shutdown d2" "registered_events d2 \<noteq> 0" "ro_id y1 = 1"
    using waits [OF 1(3,4), of "new_reactor_op 1 0"] 1(2) by (auto simp: new_reactor_op_def)
  obtain d3 where 3: "perform_io (\<lambda>x. (Done_And_Exhausted, None, n)) EPOLLOUT d2
      = (d3, [y0\<lparr>ro_ec := None, ro_bytes := n\<rparr>])"
    "d_queue d3 epoll_write_op = [y1]" "\<not> d_shutdown d3" "registered_events d3 \<noteq> 0"
    using writable [of "\<lambda>x. (Done_And_Exhausted, None, n)" d2 "[y0\<lparr>ro_ec := None, ro_bytes := n\<rparr>]" "[y1]" False] 2
    by (auto simp: perform_def)
  obtain d4 y2 where 4: "start_op epoll_write_op (Some d3) (new_reactor_op 2 0) True blocked None = (Some d4, Queued)"
    "d_queue d4 epoll_write_op = [y1, y2]" "ro_id y2 = 2"
    using waits [OF 3(3,4), of "new_reactor_op 2 0"] 3(2) by (auto simp: new_reactor_op_def)
  let ?pf = "\<lambda>x. (Done, None, length (content n challenge hdr (ro_id x)))"
  obtain d5 where 5: "perform_io ?pf EPOLLOUT d4
      = (d5, [y1\<lparr>ro_ec := None, ro_bytes := length hdr\<rparr>, y2\<lparr>ro_ec := None, ro_bytes := length (drop n challenge)\<rparr>])"
    using writable [of ?pf d4] 4 2(5) by (auto simp: perform_def content_def)
  have "overlapping_writes n challenge hdr d = [y0\<lparr>ro_ec := None, ro_bytes := n\<rparr>,
      y1\<lparr>ro_ec := None, ro_bytes := length hdr\<rparr>, y2\<lparr>ro_ec := None, ro_bytes := length (drop n challenge)\<rparr>]"
    by (simp add: overlapping_writes_def 1(1) 2(1) 3(1) 4(1) 5 del: One_nat_def)
  then show ?thesis
    using 1(5) 2(5) 4(3) by (simp add: transferred_def content_def)
qed

section \<open>The handshake\<close>

lemma partial_write:
  assumes "b_size b = 8" "map mem (addrs b) = bs" "0 < n" "n < 8"
  shows "\<exists>rest c. write_op_call single_ops transfer_all False None n 0 (new_single b) = Start_Some rest c
    \<and> map mem (addr_list rest) = drop n bs"
proof -
  let ?c = "c_consume single_ops (new_single b) n"
  have "sc_pending ?c = drop n (addrs b)"
    using single.consume_pending [OF TrueI, of n "new_single b"] assms(1,4)
    by (simp add: single_start addrs_def)
  moreover from this have "sc_pending ?c \<noteq> []" using assms(1,4) by (simp add: addrs_def)
  moreover have "addr_list (c_prepare single_ops ?c 65536) = take 65536 (sc_pending ?c)"
    by (simp add: single_ops_def sc_prepare_def sc_pending_def addrs_limit addrs_plus)
  ultimately show ?thesis
    using assms by (simp add: next_call(1) Let_def drop_map [symmetric])
qed

text \<open>C23: The server side can have two writes in flight on one socket, which asio forbids: a
  connection is in the list of connections before it is validated, so a broadcast can run while
  the challenge is still being written. If the kernel takes only \<open>n\<close> bytes of the challenge
  at first, fewer than 8, the rest is written after the header of the message, which waits in the
  reactor before it: the peer takes the first bytes of the challenge and of the header for the
  challenge, and the server accepts its answer exactly if the low 56 bits of what it took are those
  of the clock reading.\<close>

theorem handshake_write_overlap:
  assumes "0 < n" "n < 8" "b_size b = 8" "map mem (addrs b) = enc_u64 now"
    and "d_queue d epoll_write_op = []" "\<not> d_shutdown d" "registered_events d \<noteq> 0"
  shows "\<exists>k rest c sent kc. run_task (Send m (fresh_server_side uid now)) = Inr k
    \<and> writes k = [W_Validation, W_Header]
    \<and> write_op_call single_ops transfer_all False None n 0 (new_single b) = Start_Some rest c
    \<and> map mem (addr_list rest) = drop n (enc_u64 now)
    \<and> sent = transferred (content n (enc_u64 now) (enc_header (header m)))
        (overlapping_writes n (enc_u64 now) (enc_header (header m)) d)
    \<and> sent = take n (enc_u64 now) @ enc_header (header m) @ drop n (enc_u64 now)
    \<and> on_ReadValidation (Some (take 8 sent)) fresh_client_side = V_Answered kc
    \<and> (accepts k (enc_u64 (hs_out kc))
        \<longleftrightarrow> take_bit 56 (dec_u64 (take 8 sent)) = take_bit 56 now)"
proof -
  let ?k = "(fresh_server_side uid now)\<lparr>writes := [W_Validation, W_Header], q_out := [m]\<rparr>"
  have k: "run_task (Send m (fresh_server_side uid now)) = Inr ?k"
    by (simp add: run_task_def Send_def WriteHeader_def Let_def fresh_server_side_def ConnectToClient_def new_connection_def
         ReadValidation_def WriteValidation_def)
  let ?sent = "take n (enc_u64 now) @ enc_header (header m) @ drop n (enc_u64 now)"
  have s: "transferred (content n (enc_u64 now) (enc_header (header m)))
      (overlapping_writes n (enc_u64 now) (enc_header (header m)) d) = ?sent"
    using assms(2) by (intro overlapping_writes_order [OF assms(5-7)]) simp
  obtain rest c where w: "write_op_call single_ops transfer_all False None n 0 (new_single b) = Start_Some rest c"
    "map mem (addr_list rest) = drop n (enc_u64 now)"
    using partial_write [OF assms(3,4,1,2)] by blast
  obtain kc where kc: "on_ReadValidation (Some (take 8 ?sent)) fresh_client_side = V_Answered kc"
    "hs_out kc = Scramble (dec_u64 (take 8 ?sent))"
    by (simp add: on_ReadValidation_def fresh_client_simps WriteValidation_def Let_def)
  have "accepts ?k (enc_u64 (hs_out kc)) \<longleftrightarrow> take_bit 56 (dec_u64 (take 8 ?sent)) = take_bit 56 now"
    by (simp add: accepts_iff fresh_server_simps kc(2) Scramble_eq_iff)
  then show ?thesis using k w s kc(1)
    by (intro exI [of _ ?k] exI [of _ rest] exI [of _ c] exI [of _ ?sent] exI [of _ kc]) simp
qed

definition slow_socket :: descriptor_state where
  "slow_socket = (allocated 7)\<lparr>registered_events := EPOLLIN\<rparr>"

theorem handshake_write_overlap_witness:
  "\<exists>k rest c sent kc. run_task (Send (message_of StartGame) (fresh_server_side 10000 77)) = Inr k
    \<and> writes k = [W_Validation, W_Header]
    \<and> write_op_call single_ops transfer_all False None 3 0 (new_single (make_buffer 100 8)) = Start_Some rest c
    \<and> sent = take 3 (enc_u64 77) @ enc_header (header (message_of StartGame)) @ drop 3 (enc_u64 77)
    \<and> on_ReadValidation (Some (take 8 sent)) fresh_client_side = V_Answered kc"
proof -
  let ?mem = "\<lambda>a. enc_u64 77 ! (a - 100)"
  have b: "b_size (make_buffer 100 8) = 8" "map ?mem (addrs (make_buffer 100 8)) = enc_u64 77"
    by (auto simp: make_buffer_def addrs_def simp del: upt_rec_numeral intro!: nth_equalityI)
  have d: "d_queue slow_socket epoll_write_op = []" "\<not> d_shutdown slow_socket" "registered_events slow_socket \<noteq> 0"
    by (simp_all add: slow_socket_def allocated_def EPOLLIN_def)
  show ?thesis
    using handshake_write_overlap [OF _ _ b d, of 3 "message_of StartGame" 10000] by fastforce
qed

end
