(* ===== verification/Asio_Scheduler.thy ===== *)
theory Asio_Scheduler
  imports Prelude
begin

text \<open>
  The scheduler behind \<open>asio::io_context\<close>, \<open>asio/detail/impl/scheduler.ipp\<close>, with the event it
  sleeps on, \<open>asio/detail/posix_event.hpp\<close>, as the program uses it: one thread calls \<open>run\<close>, any
  thread posts handlers and starts asynchronous operations. What happens between taking and
  releasing the mutex is one function; the functions are interleaved by a step relation. Queues
  are lists, as \<open>Asio_Op_Queue\<close> justifies. A call of another thread is one step although it counts
  the work before it takes the mutex: in between there is more work than is visible, as if the
  operation were still being started. The results are in \<open>Asio_Scheduler_Facts\<close>.
\<close>

section \<open>The event\<close>

text \<open>
  \<open>state_\<close> holds the signal in bit 0 and twice the number of waiters. Of the condition variable:
  the threads asleep in it, those woken that have not got the mutex back yet, and the
  notifications that signallers still have to give after they have released the mutex.
\<close>

record event =
  ev_state :: nat
  ev_sleepers :: nat
  ev_woken :: nat
  ev_signals :: nat

definition new_event :: event where
  "new_event = \<lparr>ev_state = 0, ev_sleepers = 0, ev_woken = 0, ev_signals = 0\<rparr>"

definition signal_all :: "event \<Rightarrow> event" where
  "signal_all e = e\<lparr>ev_state := or (ev_state e) 1, ev_woken := ev_woken e + ev_sleepers e,
     ev_sleepers := 0\<rparr>"

definition unlock_and_signal_one :: "event \<Rightarrow> event" where
  "unlock_and_signal_one e =
     (let st = or (ev_state e) 1; have_waiters = 1 < st
      in e\<lparr>ev_state := st, ev_signals := (if have_waiters then ev_signals e + 1 else ev_signals e)\<rparr>)"

definition maybe_unlock_and_signal_one :: "event \<Rightarrow> event \<times> bool" where
  "maybe_unlock_and_signal_one e =
     (let st = or (ev_state e) 1
      in if 1 < st then (e\<lparr>ev_state := st, ev_signals := ev_signals e + 1\<rparr>, True)
         else (e\<lparr>ev_state := st\<rparr>, False))"

definition clear_event :: "event \<Rightarrow> event" where
  "clear_event e = e\<lparr>ev_state := unset_bit 0 (ev_state e)\<rparr>"

text \<open>
  \<open>wait\<close> up to the call of \<open>pthread_cond_wait\<close>, and from its return: the flag says whether the
  thread sleeps (again) or has left the loop.
\<close>

definition wait_test :: "event \<Rightarrow> event \<times> bool" where
  "wait_test e =
     (if and (ev_state e) 1 = 0
      then (e\<lparr>ev_state := ev_state e + 2, ev_sleepers := ev_sleepers e + 1\<rparr>, True)
      else (e, False))"

definition wait_resume :: "event \<Rightarrow> event \<times> bool" where
  "wait_resume e = wait_test (e\<lparr>ev_state := ev_state e - 2, ev_woken := ev_woken e - 1\<rparr>)"

text \<open>A thread asleep wakes up: by a notification, or for no reason.\<close>

definition wake_sleeper :: "event \<Rightarrow> event" where
  "wake_sleeper e =
     (if 0 < ev_sleepers e then e\<lparr>ev_sleepers := ev_sleepers e - 1, ev_woken := ev_woken e + 1\<rparr> else e)"

definition deliver_signal :: "event \<Rightarrow> event" where
  "deliver_signal e = wake_sleeper (e\<lparr>ev_signals := ev_signals e - 1\<rparr>)"

section \<open>The state of the scheduler\<close>

text \<open>
  Operations in the queue: the position of the reactor task, posted handlers, completed
  asynchronous operations, and descriptors that the reactor reported ready.
\<close>

datatype sop = Task_Op | Posted nat | Completed nat | Descriptor nat

text \<open>
  Where the thread in \<open>run\<close> is. \<open>In_Task blocking\<close>: in \<open>task_->run\<close>. \<open>Running o\<close>: in
  \<open>o->complete\<close>. \<open>Compensated\<close>: in a descriptor that had nothing to complete. \<open>Stopping\<close>: in
  \<open>work_finished\<close>, about to call \<open>stop\<close>. \<open>Flushing\<close>: in \<open>work_cleanup\<close>, after the count.
\<close>

datatype runner = Not_Running | Wants_Lock | In_Event | In_Task bool | Running sop | Compensated
  | Stopping | Flushing

text \<open>
  \<open>poked\<close>: the reactor was interrupted since its run began; \<open>s_io\<close>: asynchronous operations that
  have been started and are not completed. \<open>arrived\<close> and \<open>ran\<close> are the history of the posted
  handlers: in the order they came to the queue, and as they were run.
\<close>

record sched =
  op_q :: "sop list"
  wakeup_event :: event
  has_task :: bool
  task_interrupted :: bool
  poked :: bool
  outstanding_work :: int
  is_stopped :: bool
  is_shutdown :: bool
  one_thread :: bool
  priv_q :: "sop list"
  priv_work :: int
  pc :: runner
  s_io :: nat
  arrived :: "nat list"
  ran :: "nat list"

definition new_scheduler :: "bool \<Rightarrow> sched" where
  "new_scheduler one = \<lparr>op_q = [], wakeup_event = new_event, has_task = False, task_interrupted = True,
     poked = False, outstanding_work = 0, is_stopped = False, is_shutdown = False, one_thread = one,
     priv_q = [], priv_work = 0, pc = Not_Running, s_io = 0, arrived = [], ran = []\<rparr>"

fun posted_ops :: "sop list \<Rightarrow> nat list" where
  "posted_ops [] = []"
| "posted_ops (Posted h # os) = h # posted_ops os"
| "posted_ops (x # os) = posted_ops os"

definition push_ops :: "sop list \<Rightarrow> sched \<Rightarrow> sched" where
  "push_ops os s = s\<lparr>op_q := op_q s @ os, arrived := arrived s @ posted_ops os\<rparr>"

section \<open>Waking threads up\<close>

definition interrupt_task :: "sched \<Rightarrow> sched" where
  "interrupt_task s =
     (if \<not> task_interrupted s \<and> has_task s then s\<lparr>task_interrupted := True, poked := True\<rparr> else s)"

definition wake_one_thread_and_unlock :: "sched \<Rightarrow> sched" where
  "wake_one_thread_and_unlock s =
     (let (e, signalled) = maybe_unlock_and_signal_one (wakeup_event s); s1 = s\<lparr>wakeup_event := e\<rparr>
      in if \<not> signalled then interrupt_task s1 else s1)"

definition stop_all_threads :: "sched \<Rightarrow> sched" where
  "stop_all_threads s =
     interrupt_task (s\<lparr>is_stopped := True, wakeup_event := signal_all (wakeup_event s)\<rparr>)"

definition sched_stop :: "sched \<Rightarrow> sched" where
  "sched_stop s = stop_all_threads s"

definition restart :: "sched \<Rightarrow> sched" where
  "restart s = s\<lparr>is_stopped := False\<rparr>"

definition init_task :: "sched \<Rightarrow> sched" where
  "init_task s =
     (if \<not> is_shutdown s \<and> \<not> has_task s
      then wake_one_thread_and_unlock (push_ops [Task_Op] (s\<lparr>has_task := True\<rparr>)) else s)"

text \<open>The handlers that \<open>shutdown\<close> destroys, for a scheduler without a thread of its own.\<close>

definition sched_shutdown :: "sched \<Rightarrow> sched \<times> sop list" where
  "sched_shutdown s = (s\<lparr>is_shutdown := True, op_q := [], has_task := False\<rparr>,
     filter (\<lambda>x. x \<noteq> Task_Op) (op_q s))"

section \<open>Posting\<close>

definition work_started :: "sched \<Rightarrow> sched" where
  "work_started s = s\<lparr>outstanding_work := outstanding_work s + 1\<rparr>"

definition compensating_work_started :: "sched \<Rightarrow> sched" where
  "compensating_work_started s = s\<lparr>priv_work := priv_work s + 1\<rparr>"

text \<open>\<open>inside\<close>: the calling thread is in \<open>run\<close> of this scheduler.\<close>

definition post_immediate_completion :: "bool \<Rightarrow> sop \<Rightarrow> bool \<Rightarrow> sched \<Rightarrow> sched" where
  "post_immediate_completion inside x is_continuation s =
     (if (one_thread s \<or> is_continuation) \<and> inside
      then s\<lparr>priv_work := priv_work s + 1, priv_q := priv_q s @ [x]\<rparr>
      else wake_one_thread_and_unlock (push_ops [x] (work_started s)))"

definition post_immediate_completions :: "bool \<Rightarrow> nat \<Rightarrow> sop list \<Rightarrow> bool \<Rightarrow> sched \<Rightarrow> sched" where
  "post_immediate_completions inside n os is_continuation s =
     (if (one_thread s \<or> is_continuation) \<and> inside
      then s\<lparr>priv_work := priv_work s + int n, priv_q := priv_q s @ os\<rparr>
      else wake_one_thread_and_unlock
        (push_ops os (s\<lparr>outstanding_work := outstanding_work s + int n\<rparr>)))"

definition post_deferred_completion :: "bool \<Rightarrow> sop \<Rightarrow> sched \<Rightarrow> sched" where
  "post_deferred_completion inside x s =
     (if one_thread s \<and> inside then s\<lparr>priv_q := priv_q s @ [x]\<rparr>
      else wake_one_thread_and_unlock (push_ops [x] s))"

definition post_deferred_completions :: "bool \<Rightarrow> sop list \<Rightarrow> sched \<Rightarrow> sched" where
  "post_deferred_completions inside os s =
     (if os \<noteq> [] then
        if one_thread s \<and> inside then s\<lparr>priv_q := priv_q s @ os\<rparr>
        else wake_one_thread_and_unlock (push_ops os s)
      else s)"

definition do_dispatch :: "sop \<Rightarrow> sched \<Rightarrow> sched" where
  "do_dispatch x s = wake_one_thread_and_unlock (push_ops [x] (work_started s))"

section \<open>Running\<close>

definition sched_run :: "sched \<Rightarrow> sched" where
  "sched_run s =
     (if outstanding_work s = 0 then sched_stop s
      else s\<lparr>priv_work := 0, priv_q := [], pc := Wants_Lock\<rparr>)"

text \<open>\<open>do_run_one\<close> from its loop test, with the mutex held, until the mutex is released.\<close>

definition do_run_one :: "sched \<Rightarrow> sched" where
  "do_run_one s =
     (if \<not> is_stopped s then
        case op_q s of
          x # q \<Rightarrow>
            let s1 = s\<lparr>op_q := q\<rparr>; more_handlers = q \<noteq> [] in
            if x = Task_Op then
              let s2 = s1\<lparr>task_interrupted := more_handlers\<rparr>;
                  s3 = (if more_handlers \<and> \<not> one_thread s
                        then s2\<lparr>wakeup_event := unlock_and_signal_one (wakeup_event s2)\<rparr> else s2)
              in s3\<lparr>pc := In_Task (\<not> more_handlers), poked := False\<rparr>
            else
              let s2 = (if more_handlers \<and> \<not> one_thread s then wake_one_thread_and_unlock s1 else s1)
              in s2\<lparr>pc := Running x, ran := ran s @ posted_ops [x]\<rparr>
        | [] \<Rightarrow>
            let (e, sleeps) = wait_test (clear_event (wakeup_event s))
            in s\<lparr>wakeup_event := e, pc := In_Event\<rparr>
      else s\<lparr>pc := Not_Running\<rparr>)"

text \<open>The thread is back from \<open>pthread_cond_wait\<close>: it sleeps again, or goes on with the loop.\<close>

definition resume_wait :: "sched \<Rightarrow> sched" where
  "resume_wait s =
     (let (e, sleeps) = wait_resume (wakeup_event s); s1 = s\<lparr>wakeup_event := e\<rparr>
      in if sleeps then s1 else do_run_one s1)"

definition task_cleanup :: "sched \<Rightarrow> sched" where
  "task_cleanup s =
     (let s1 = (if 0 < priv_work s
                then s\<lparr>outstanding_work := outstanding_work s + priv_work s\<rparr> else s);
          s2 = s1\<lparr>priv_work := 0, task_interrupted := True\<rparr>
      in push_ops [Task_Op] ((push_ops (priv_q s2) s2)\<lparr>priv_q := []\<rparr>))"

text \<open>The task returns with the operations it put on the private queue.\<close>

definition task_returns :: "sop list \<Rightarrow> sched \<Rightarrow> sched" where
  "task_returns os s = do_run_one (task_cleanup (s\<lparr>priv_q := priv_q s @ os, poked := False\<rparr>))"

text \<open>
  \<open>descriptor_state::do_complete\<close> with the operations that \<open>perform_io\<close> could complete: the first
  is completed at once, the others are posted; if there is none, the count is compensated.
\<close>

definition perform_io_cleanup :: "nat list \<Rightarrow> sched \<Rightarrow> sched" where
  "perform_io_cleanup cs s =
     (case cs of
        c # cs' \<Rightarrow> (post_deferred_completions True (map Completed cs') s)\<lparr>pc := Running (Completed c)\<rparr>
      | [] \<Rightarrow> (compensating_work_started s)\<lparr>pc := Compensated\<rparr>)"

text \<open>\<open>work_cleanup\<close>: first the count, with the decrement of \<open>work_finished\<close>, then \<open>stop\<close> if the
  count has become 0, then the private queue. \<open>run\<close> then calls \<open>do_run_one\<close> again, still with the
  mutex if the private queue was not empty.\<close>

definition work_cleanup :: "sched \<Rightarrow> sched" where
  "work_cleanup s =
     (if 1 < priv_work s
      then s\<lparr>outstanding_work := outstanding_work s + (priv_work s - 1), priv_work := 0, pc := Flushing\<rparr>
      else if priv_work s < 1
      then s\<lparr>outstanding_work := outstanding_work s - 1, priv_work := 0,
             pc := (if outstanding_work s - 1 = 0 then Stopping else Flushing)\<rparr>
      else s\<lparr>priv_work := 0, pc := Flushing\<rparr>)"

definition flush_private :: "sched \<Rightarrow> sched" where
  "flush_private s =
     (if priv_q s \<noteq> [] then do_run_one ((push_ops (priv_q s) s)\<lparr>priv_q := []\<rparr>)
      else s\<lparr>pc := Wants_Lock\<rparr>)"


section \<open>All interleavings\<close>

text \<open>
  The steps of the thread in \<open>run\<close>, of the operating system, and of other threads. A call with
  \<open>inside\<close> comes from a handler. An asynchronous operation is completed by the task, by a
  descriptor, or by another thread (the resolver).
\<close>

definition in_handler :: "sched \<Rightarrow> bool" where
  "in_handler s \<longleftrightarrow> (case pc s of Running (Posted h) \<Rightarrow> True | Running (Completed c) \<Rightarrow> True | _ \<Rightarrow> False)"

inductive sched_step :: "sched \<Rightarrow> sched \<Rightarrow> bool" where
  lock: "pc s = Wants_Lock \<Longrightarrow> sched_step s (do_run_one s)"
| signal: "0 < ev_signals (wakeup_event s)
    \<Longrightarrow> sched_step s (s\<lparr>wakeup_event := deliver_signal (wakeup_event s)\<rparr>)"
| resume: "pc s = In_Event \<Longrightarrow> 0 < ev_woken (wakeup_event s) \<Longrightarrow> sched_step s (resume_wait s)"
| task: "pc s = In_Task b \<Longrightarrow> length cs \<le> s_io s
    \<Longrightarrow> sched_step s (task_returns (map Descriptor ds @ map Completed cs)
          (s\<lparr>s_io := s_io s - length cs\<rparr>))"
| io: "pc s = Running (Descriptor d) \<Longrightarrow> length cs \<le> s_io s
    \<Longrightarrow> sched_step s (perform_io_cleanup cs (s\<lparr>s_io := s_io s - length cs\<rparr>))"
| complete: "in_handler s \<or> pc s = Compensated \<Longrightarrow> sched_step s (work_cleanup s)"
| finish: "pc s = Stopping \<Longrightarrow> sched_step s ((sched_stop s)\<lparr>pc := Flushing\<rparr>)"
| flush: "pc s = Flushing \<Longrightarrow> sched_step s (flush_private s)"

text \<open>The thread of the scheduler and its environment.\<close>

inductive env_step :: "sched \<Rightarrow> sched \<Rightarrow> bool" where
  run: "pc s = Not_Running \<Longrightarrow> env_step s (sched_run s)"
| restart: "pc s = Not_Running \<Longrightarrow> env_step s (restart s)"
| spurious: "env_step s (s\<lparr>wakeup_event := wake_sleeper (wakeup_event s)\<rparr>)"
| init: "env_step s (init_task s)"
| post: "inside \<longrightarrow> in_handler s \<Longrightarrow> env_step s (post_immediate_completion inside (Posted h) cont s)"
| posts: "inside \<longrightarrow> in_handler s
    \<Longrightarrow> env_step s (post_immediate_completions inside (length hs) (map Posted hs) cont s)"
| dispatch: "env_step s (do_dispatch (Posted h) s)"
| start_io: "env_step s ((work_started s)\<lparr>s_io := s_io s + 1\<rparr>)"
| deferred: "inside \<longrightarrow> in_handler s \<Longrightarrow> 0 < s_io s
    \<Longrightarrow> env_step s (post_deferred_completion inside (Completed c) (s\<lparr>s_io := s_io s - 1\<rparr>))"
| deferreds: "inside \<longrightarrow> in_handler s \<Longrightarrow> length cs \<le> s_io s
    \<Longrightarrow> env_step s (post_deferred_completions inside (map Completed cs) (s\<lparr>s_io := s_io s - length cs\<rparr>))"
| stop: "env_step s (sched_stop s)"

inductive sched_reach :: "bool \<Rightarrow> sched \<Rightarrow> bool" for one :: bool where
  new: "sched_reach one (new_scheduler one)"
| step: "sched_reach one s \<Longrightarrow> sched_step s s' \<Longrightarrow> sched_reach one s'"
| env: "sched_reach one s \<Longrightarrow> env_step s s' \<Longrightarrow> sched_reach one s'"

end
