(* ===== verification/Asio_Event_Loop.thy ===== *)
theory Asio_Event_Loop
  imports Asio_Reactor Asio_Scheduler
begin

text \<open>
  The event loop: the scheduler of \<open>Asio_Scheduler\<close> with its reactor as the task,
  \<open>asio/detail/impl/epoll_reactor.ipp\<close>, over the descriptors of \<open>Asio_Reactor\<close> and an epoll instance
  in edge-triggered mode. The theory holds the loop over \<open>epoll_wait\<close>, its time-outs, the pool of
  descriptors (\<open>asio/detail/object_pool.hpp\<close>, as lists), and a step relation over the whole: the
  thread in \<open>run\<close>, all other threads, and the kernel. The results are in \<open>Asio_Event_Loop_Facts\<close>.
\<close>

section \<open>Time-outs\<close>

text \<open>\<open>wait_msec\<close> and \<open>usec\<close> stand for what the timer queues answer; -1 as a descriptor is none.\<close>

definition max_msec :: int where
  "max_msec = 5 * 60 * 1000"

definition get_timeout :: "(int \<Rightarrow> int) \<Rightarrow> int \<Rightarrow> int" where
  "get_timeout wait_msec msec = wait_msec (if msec < 0 \<or> max_msec < msec then max_msec else msec)"

record timer_spec =
  tv_sec :: int
  tv_nsec :: int
  abs_time :: bool

definition get_timer_spec :: "int \<Rightarrow> timer_spec" where
  "get_timer_spec usec = \<lparr>tv_sec = usec div 1000000,
     tv_nsec = (if usec \<noteq> 0 then (usec mod 1000000) * 1000 else 1), abs_time = (usec = 0)\<rparr>"

definition run_timeout :: "int \<Rightarrow> (int \<Rightarrow> int) \<Rightarrow> int \<Rightarrow> int" where
  "run_timeout timer_fd wait_msec usec =
     (if usec = 0 then 0
      else let timeout = (if usec < 0 then -1 else (usec - 1) div 1000 + 1)
           in if timer_fd = -1 then get_timeout wait_msec timeout else timeout)"

section \<open>The pool of descriptors\<close>

record pool =
  p_live :: "nat list"
  p_free :: "nat list"
  p_created :: nat

definition new_pool :: pool where
  "new_pool = \<lparr>p_live = [], p_free = [], p_created = 0\<rparr>"

definition pool_alloc :: "pool \<Rightarrow> nat \<times> pool" where
  "pool_alloc p =
     (case p_free p of
        x # fs \<Rightarrow> (x, p\<lparr>p_free := fs, p_live := x # p_live p\<rparr>)
      | [] \<Rightarrow> (p_created p, p\<lparr>p_created := p_created p + 1, p_live := p_created p # p_live p\<rparr>))"

definition pool_free :: "nat \<Rightarrow> pool \<Rightarrow> pool" where
  "pool_free x p = p\<lparr>p_live := remove1 x (p_live p), p_free := x # p_free p\<rparr>"

section \<open>The loop over the events\<close>

datatype event_source = Interrupter | Timer_Descriptor | Of_Descriptor nat

record epoll_event =
  ee_events :: event_mask
  ee_ptr :: event_source

text \<open>
  An operation is linked through one pointer, which every queue uses. So \<open>is_enqueued\<close> sees an
  operation of another queue (\<open>others\<close>), too, unless it is the last one there.
\<close>

definition has_next :: "sop \<Rightarrow> sop list \<Rightarrow> bool" where
  "has_next x q \<longleftrightarrow> x \<in> set (butlast q)"

definition is_enqueued :: "sop list list \<Rightarrow> sop \<Rightarrow> sop list \<Rightarrow> bool" where
  "is_enqueued others x q \<longleftrightarrow>
     (\<exists>q' \<in> set (q # others). has_next x q') \<or> (q \<noteq> [] \<and> last q = x)"

text \<open>The queue, the results that \<open>set_ready_events\<close> stores in the descriptors, \<open>check_timers\<close>.\<close>

type_synonym dispatch_state = "sop list \<times> (nat \<Rightarrow> event_mask) \<times> bool"

definition dispatch_event :: "sop list list \<Rightarrow> int \<Rightarrow> epoll_event \<Rightarrow> dispatch_state \<Rightarrow> dispatch_state" where
  "dispatch_event others timer_fd e st =
     (let (ops, res, check) = st in
      case ee_ptr e of
        Interrupter \<Rightarrow> (ops, res, if timer_fd = -1 then True else check)
      | Timer_Descriptor \<Rightarrow> (ops, res, True)
      | Of_Descriptor i \<Rightarrow>
          if \<not> is_enqueued others (Descriptor i) ops
          then (ops @ [Descriptor i], res(i := ee_events e), check)
          else (ops, res(i := res i OR ee_events e), check))"

fun dispatch_events :: "sop list list \<Rightarrow> int \<Rightarrow> epoll_event list \<Rightarrow> dispatch_state \<Rightarrow> dispatch_state" where
  "dispatch_events others timer_fd [] st = st"
| "dispatch_events others timer_fd (e # es) st =
     dispatch_events others timer_fd es (dispatch_event others timer_fd e st)"

text \<open>\<open>epoll_reactor::run\<close> after \<open>epoll_wait\<close>; \<open>timers\<close>: the operations of the timers that are due.\<close>

definition reactor_run :: "sop list list \<Rightarrow> int \<Rightarrow> nat list \<Rightarrow> epoll_event list
    \<Rightarrow> sop list \<times> (nat \<Rightarrow> event_mask) \<Rightarrow> sop list \<times> (nat \<Rightarrow> event_mask)" where
  "reactor_run others timer_fd timers events st =
     (let (ops, res, check) = dispatch_events others timer_fd events (fst st, snd st, timer_fd = -1)
      in (if check then ops @ map Completed timers else ops, res))"

section \<open>The world\<close>

text \<open>
  The scheduler, the pool, the descriptors with the results stored in them, and of the kernel, for
  each descriptor and type of operation: \<open>w_ready\<close>, a call would not block; \<open>w_edge\<close>, epoll has
  an event to report. \<open>w_missed\<close> is a history: an operation has given up, though a call would not
  block, and no event has come since. This happens at the end of a stream, where a call returns
  at once for ever after, and when a connection is aborted before it is accepted.
\<close>

record world =
  w_sched :: sched
  w_pool :: pool
  w_desc :: "nat \<Rightarrow> descriptor_state"
  w_result :: "nat \<Rightarrow> event_mask"
  w_ready :: "nat \<Rightarrow> op_type \<Rightarrow> bool"
  w_edge :: "nat \<Rightarrow> op_type \<Rightarrow> bool"
  w_missed :: "nat \<Rightarrow> op_type \<Rightarrow> bool"

definition new_world :: "bool \<Rightarrow> world" where
  "new_world one = \<lparr>w_sched = new_scheduler one, w_pool = new_pool, w_desc = (\<lambda>i. allocated (-1)),
     w_result = (\<lambda>i. 0), w_ready = (\<lambda>i t. False), w_edge = (\<lambda>i t. False), w_missed = (\<lambda>i t. False)\<rparr>"

definition watched :: "descriptor_state \<Rightarrow> op_type \<Rightarrow> bool" where
  "watched d t \<longleftrightarrow> registered_events d AND io_flag t \<noteq> 0"

definition hits :: "event_mask \<Rightarrow> op_type \<Rightarrow> bool" where
  "hits m t \<longleftrightarrow> m AND (io_flag t OR EPOLLERR OR EPOLLHUP) \<noteq> 0"

definition upd :: "(nat \<Rightarrow> op_type \<Rightarrow> bool) \<Rightarrow> nat \<Rightarrow> op_type \<Rightarrow> bool \<Rightarrow> nat \<Rightarrow> op_type \<Rightarrow> bool" where
  "upd f i t b = f(i := (f i)(t := b))"

text \<open>
  Performing the operations of a queue in turn, from and to the pair of \<open>w_ready\<close> and \<open>w_missed\<close>:
  a call that does not block has found the socket ready, one that would block leaves it not
  ready, and one that transfers less than it could has exhausted it (\<open>epoll(7)\<close>).
\<close>

inductive attempts :: "performer \<Rightarrow> reactor_op list \<Rightarrow> bool \<times> bool \<Rightarrow> bool \<times> bool \<Rightarrow> bool" for pf where
  none: "attempts pf [] k k"
| would_block: "fst (perform pf x) = Not_Done \<Longrightarrow> r \<or> m \<longrightarrow> m' \<Longrightarrow> attempts pf (x # q) (r, m) (r, m')"
| finished: "fst (perform pf x) = Done \<Longrightarrow> r \<Longrightarrow> attempts pf q (r', m) k \<Longrightarrow> attempts pf (x # q) (r, m) k"
| exhausted: "fst (perform pf x) = Done_And_Exhausted \<Longrightarrow> r \<Longrightarrow> r' \<or> m \<longrightarrow> m'
    \<Longrightarrow> attempts pf (x # q) (r, m) (r', m')"

section \<open>Calls of the reactor\<close>

text \<open>When \<open>start_op\<close> performs the operation at once, and when it calls \<open>epoll_ctl\<close> with success.\<close>

definition speculates :: "op_type \<Rightarrow> descriptor_state \<Rightarrow> bool \<Rightarrow> bool" where
  "speculates t d allow_speculative \<longleftrightarrow> \<not> d_shutdown d \<and> d_queue d t = [] \<and> allow_speculative
     \<and> (t \<noteq> epoll_read_op \<or> d_queue d except_op = []) \<and> try_speculative d t"

definition rearms :: "op_type \<Rightarrow> descriptor_state \<Rightarrow> reactor_op \<Rightarrow> bool \<Rightarrow> performer \<Rightarrow> error_code \<Rightarrow> bool" where
  "rearms t d x allow_speculative pf ctl \<longleftrightarrow> \<not> d_shutdown d \<and> d_queue d t = [] \<and> registered_events d \<noteq> 0
     \<and> (if allow_speculative \<and> (t \<noteq> epoll_read_op \<or> d_queue d except_op = [])
        then (try_speculative d t \<longrightarrow> fst (perform pf x) = Not_Done)
          \<and> t = epoll_write_op \<and> registered_events d AND EPOLLOUT = 0 \<and> ctl = None
        else True)"

definition world_start :: "bool \<Rightarrow> bool \<Rightarrow> nat \<Rightarrow> op_type \<Rightarrow> reactor_op \<Rightarrow> bool \<Rightarrow> performer \<Rightarrow> error_code
    \<Rightarrow> world \<Rightarrow> world" where
  "world_start inside is_continuation i t x allow_speculative pf ctl w =
     (let (dd, eff) = start_op t (Some (w_desc w i)) x allow_speculative pf ctl
      in w\<lparr>w_desc := (case dd of Some d \<Rightarrow> (w_desc w)(i := d) | None \<Rightarrow> w_desc w),
           w_sched := (case eff of
             Immediate y \<Rightarrow> post_immediate_completion inside (Posted (ro_id y)) is_continuation (w_sched w)
           | Queued \<Rightarrow> (work_started (w_sched w))\<lparr>s_io := s_io (w_sched w) + 1\<rparr>)\<rparr>)"

text \<open>A call of \<open>epoll_ctl\<close> for a descriptor reports what is ready at that time.\<close>

definition rearmed :: "nat \<Rightarrow> world \<Rightarrow> world" where
  "rearmed i w = w\<lparr>
     w_edge := (w_edge w)(i := \<lambda>t. w_edge w i t \<or> (w_ready w i t \<and> watched (w_desc w i) t)),
     w_missed := (w_missed w)(i := \<lambda>t. w_missed w i t \<and> \<not> (w_ready w i t \<and> watched (w_desc w i) t))\<rparr>"

definition post_completions :: "bool \<Rightarrow> reactor_op list \<Rightarrow> sched \<Rightarrow> sched" where
  "post_completions inside cs s = post_deferred_completions inside (map Completed (map ro_id cs))
     (s\<lparr>s_io := s_io s - length cs\<rparr>)"

definition world_cancel :: "bool \<Rightarrow> nat \<Rightarrow> descriptor_state option \<times> reactor_op list \<Rightarrow> world \<Rightarrow> world" where
  "world_cancel inside i res w =
     w\<lparr>w_desc := (case fst res of Some d \<Rightarrow> (w_desc w)(i := d) | None \<Rightarrow> w_desc w),
       w_sched := post_completions inside (snd res) (w_sched w)\<rparr>"

definition world_register :: "socket_type \<Rightarrow> (op_type \<Rightarrow> bool) \<Rightarrow> error_code \<Rightarrow> world \<Rightarrow> world" where
  "world_register fd r ctl w =
     (let (i, p) = pool_alloc (w_pool w); d = fst (register_descriptor fd ctl)
      in w\<lparr>w_pool := p, w_desc := (w_desc w)(i := d), w_ready := (w_ready w)(i := r),
           w_edge := (w_edge w)(i := \<lambda>t. r t \<and> watched d t), w_missed := (w_missed w)(i := \<lambda>t. False)\<rparr>)"

text \<open>The task, and \<open>descriptor_state::do_complete\<close> with the stored result.\<close>

definition world_report :: "int \<Rightarrow> epoll_event list \<Rightarrow> world \<Rightarrow> world" where
  "world_report timer_fd evs w =
     (let s = w_sched w; (ops, res) = reactor_run [op_q s] timer_fd [] evs (priv_q s, w_result w)
      in w\<lparr>w_sched := do_run_one (task_cleanup (s\<lparr>priv_q := ops, poked := False\<rparr>)), w_result := res,
           w_edge := (\<lambda>i t. w_edge w i t \<and> Of_Descriptor i \<notin> ee_ptr ` set evs)\<rparr>)"

definition world_io :: "performer \<Rightarrow> nat \<Rightarrow> world \<Rightarrow> world" where
  "world_io pf i w =
     (let (d, cs) = perform_io pf (w_result w i) (w_desc w i); s = w_sched w
      in w\<lparr>w_desc := (w_desc w)(i := d),
           w_sched := perform_io_cleanup (map ro_id cs) (s\<lparr>s_io := s_io s - length cs\<rparr>)\<rparr>)"

section \<open>All interleavings\<close>

text \<open>
  The events of \<open>epoll_wait\<close>: one per descriptor at most, 128 in all, and one that is reported at
  all shows everything that epoll has noticed and that still holds.
\<close>

definition reportable :: "epoll_event list \<Rightarrow> world \<Rightarrow> bool" where
  "reportable evs w \<longleftrightarrow> length evs \<le> 128 \<and> distinct (map ee_ptr evs)
     \<and> (\<forall>e \<in> set evs. \<forall>i. ee_ptr e = Of_Descriptor i \<longrightarrow> (\<forall>t < max_ops.
          w_edge w i t \<and> w_ready w i t \<and> watched (w_desc w i) t \<longrightarrow> hits (ee_events e) t))"

definition at_reactor :: "sched \<Rightarrow> bool" where
  "at_reactor s \<longleftrightarrow> (case pc s of In_Task b \<Rightarrow> True | Running (Descriptor d) \<Rightarrow> True | _ \<Rightarrow> False)"

text \<open>
  The steps of the thread in \<open>run\<close>. In \<open>io\<close> the calls change \<open>w_ready\<close> and \<open>w_missed\<close> of the
  descriptor, for the types that the events reach.
\<close>

inductive loop_step :: "int \<Rightarrow> world \<Rightarrow> world \<Rightarrow> bool" for timer_fd where
  signal: "0 < ev_signals (wakeup_event (w_sched w)) \<Longrightarrow> loop_step timer_fd w
     (w\<lparr>w_sched := (w_sched w)\<lparr>wakeup_event := deliver_signal (wakeup_event (w_sched w))\<rparr>\<rparr>)"
| internal: "\<not> at_reactor (w_sched w) \<Longrightarrow> sched_step (w_sched w) s' \<Longrightarrow> loop_step timer_fd w (w\<lparr>w_sched := s'\<rparr>)"
| report: "pc (w_sched w) = In_Task b \<Longrightarrow> reportable evs w \<Longrightarrow> loop_step timer_fd w (world_report timer_fd evs w)"
| io: "pc (w_sched w) = Running (Descriptor i)
    \<Longrightarrow> \<forall>t < max_ops. if hits (w_result w i) t
          then attempts pf (d_queue (w_desc w i) t) (w_ready w i t, w_missed w i t) (r t, m t)
          else r t = w_ready w i t \<and> m t = w_missed w i t
    \<Longrightarrow> loop_step timer_fd w
          ((world_io pf i w)\<lparr>w_ready := (w_ready w)(i := r), w_missed := (w_missed w)(i := m)\<rparr>)"

text \<open>
  Everything else: calls of the scheduler, of the reactor, and the kernel. \<open>arrive\<close>: a socket
  becomes ready (again), which epoll notices if it watches for it. \<open>notice\<close>: epoll notices
  something that asio did not ask for. Operations are started on registered descriptors only; a
  descriptor is cleaned up after it has been deregistered.
\<close>

inductive world_env :: "world \<Rightarrow> world \<Rightarrow> bool" where
  sched: "env_step (w_sched w) s' \<Longrightarrow> s_io s' = s_io (w_sched w) \<Longrightarrow> world_env w (w\<lparr>w_sched := s'\<rparr>)"
| register: "snd (register_descriptor fd ctl) = None \<Longrightarrow> world_env w (world_register fd r ctl w)"
| start: "inside \<longrightarrow> in_handler (w_sched w) \<Longrightarrow> i \<in> set (p_live (w_pool w)) \<Longrightarrow> t < max_ops
    \<Longrightarrow> if speculates t (w_desc w i) allow then attempts pf [x] (w_ready w i t, w_missed w i t) (r, m)
       else r = w_ready w i t \<and> m = w_missed w i t
    \<Longrightarrow> w1 = (world_start inside cont i t x allow pf ctl w)
          \<lparr>w_ready := upd (w_ready w) i t r, w_missed := upd (w_missed w) i t m\<rparr>
    \<Longrightarrow> world_env w (if rearms t (w_desc w i) x allow pf ctl then rearmed i w1 else w1)"
| cancel: "inside \<longrightarrow> in_handler (w_sched w) \<Longrightarrow> i \<in> set (p_live (w_pool w))
    \<Longrightarrow> world_env w (world_cancel inside i (cancel_ops (Some (w_desc w i))) w)"
| by_key: "inside \<longrightarrow> in_handler (w_sched w) \<Longrightarrow> i \<in> set (p_live (w_pool w)) \<Longrightarrow> t < max_ops
    \<Longrightarrow> world_env w (world_cancel inside i (cancel_ops_by_key (Some (w_desc w i)) t key) w)"
| deregister: "inside \<longrightarrow> in_handler (w_sched w) \<Longrightarrow> i \<in> set (p_live (w_pool w))
    \<Longrightarrow> world_env w (world_cancel inside i (deregister_descriptor (Some (w_desc w i))) w)"
| cleanup: "i \<in> set (p_live (w_pool w)) \<Longrightarrow> d_shutdown (w_desc w i)
    \<Longrightarrow> world_env w (w\<lparr>w_pool := pool_free i (w_pool w)\<rparr>)"
| arrive: "world_env w (w\<lparr>w_ready := upd (w_ready w) i t True,
      w_edge := upd (w_edge w) i t (w_edge w i t \<or> watched (w_desc w i) t),
      w_missed := upd (w_missed w) i t (w_missed w i t \<and> \<not> watched (w_desc w i) t)\<rparr>)"
| recede: "world_env w (w\<lparr>w_ready := upd (w_ready w) i t False\<rparr>)"
| notice: "world_env w (w\<lparr>w_edge := upd (w_edge w) i t True\<rparr>)"
| forget: "\<not> w_ready w i t \<Longrightarrow> world_env w (w\<lparr>w_edge := upd (w_edge w) i t False\<rparr>)"

inductive world_reach :: "bool \<Rightarrow> int \<Rightarrow> world \<Rightarrow> bool" for one timer_fd where
  new: "world_reach one timer_fd (new_world one)"
| step: "world_reach one timer_fd w \<Longrightarrow> loop_step timer_fd w w' \<Longrightarrow> world_reach one timer_fd w'"
| env: "world_reach one timer_fd w \<Longrightarrow> world_env w w' \<Longrightarrow> world_reach one timer_fd w'"

end
