(* ===== verification/Asio_Scheduler_Facts.thy ===== *)
theory Asio_Scheduler_Facts
  imports Asio_Scheduler
begin

text \<open>
  What the scheduler of \<open>Asio_Scheduler\<close> guarantees in every interleaving: handlers run in the
  order they were posted, no wake-up is lost, the count of outstanding work is exact, and every
  queued handler gets its turn. The program relies on the order for the sends of a connection.
\<close>

section \<open>First in, first out\<close>

lemma posted_ops_append [simp]: "posted_ops (xs @ ys) = posted_ops xs @ posted_ops ys"
  by (induction xs rule: posted_ops.induct) auto

lemma posted_ops_map [simp]: "posted_ops (map Posted hs) = hs"
  "posted_ops (map Completed cs) = []" "posted_ops (map Descriptor ds) = []"
  proof -
  show "posted_ops (map Posted hs) = hs" by (induction hs) auto
  show "posted_ops (map Completed cs) = []" by (induction cs) auto
  show "posted_ops (map Descriptor ds) = []" by (induction ds) auto
qed

lemma posted_ops_Cons: "posted_ops (x # os) = posted_ops [x] @ posted_ops os"
  by (cases x) auto

definition fifo_inv :: "sched \<Rightarrow> bool" where
  "fifo_inv s \<longleftrightarrow> ran s @ posted_ops (op_q s) = arrived s"

lemmas wake_defs = wake_one_thread_and_unlock_def interrupt_task_def stop_all_threads_def
  sched_stop_def Let_def case_prod_beta

lemma wake_fields [simp]:
  "op_q (wake_one_thread_and_unlock s) = op_q s" "arrived (wake_one_thread_and_unlock s) = arrived s"
  "ran (wake_one_thread_and_unlock s) = ran s" "pc (wake_one_thread_and_unlock s) = pc s"
  "one_thread (wake_one_thread_and_unlock s) = one_thread s"
  "priv_q (wake_one_thread_and_unlock s) = priv_q s"
  "priv_work (wake_one_thread_and_unlock s) = priv_work s"
  "outstanding_work (wake_one_thread_and_unlock s) = outstanding_work s"
  "s_io (wake_one_thread_and_unlock s) = s_io s" "has_task (wake_one_thread_and_unlock s) = has_task s"
  "is_stopped (wake_one_thread_and_unlock s) = is_stopped s"
  by (simp_all add: wake_defs)

lemma stop_fields [simp]:
  "op_q (sched_stop s) = op_q s" "arrived (sched_stop s) = arrived s"
  "ran (sched_stop s) = ran s" "pc (sched_stop s) = pc s"
  "one_thread (sched_stop s) = one_thread s" "priv_q (sched_stop s) = priv_q s"
  "priv_work (sched_stop s) = priv_work s" "outstanding_work (sched_stop s) = outstanding_work s"
  "s_io (sched_stop s) = s_io s" "has_task (sched_stop s) = has_task s"
  "is_stopped (sched_stop s)"
  by (simp_all add: wake_defs)

lemma push_fields [simp]:
  "op_q (push_ops os s) = op_q s @ os" "arrived (push_ops os s) = arrived s @ posted_ops os"
  "ran (push_ops os s) = ran s" "pc (push_ops os s) = pc s"
  "one_thread (push_ops os s) = one_thread s" "priv_q (push_ops os s) = priv_q s"
  "priv_work (push_ops os s) = priv_work s" "outstanding_work (push_ops os s) = outstanding_work s"
  "s_io (push_ops os s) = s_io s" "has_task (push_ops os s) = has_task s"
  "is_stopped (push_ops os s) = is_stopped s" "wakeup_event (push_ops os s) = wakeup_event s"
  "task_interrupted (push_ops os s) = task_interrupted s" "poked (push_ops os s) = poked s"
  by (simp_all add: push_ops_def)

lemma fifo_do_run_one [simp]: "fifo_inv (do_run_one s) \<longleftrightarrow> fifo_inv s"
proof (cases "op_q s")
  case (Cons x q)
  have "posted_ops (x # q) = posted_ops [x] @ posted_ops q" by (rule posted_ops_Cons)
  with Cons show ?thesis by (auto simp: fifo_inv_def do_run_one_def Let_def)
qed (simp add: fifo_inv_def do_run_one_def Let_def case_prod_beta)

lemma fifo_step:
  assumes "fifo_inv s" "sched_step s s'"
  shows "fifo_inv s'"
  using assms(2,1)
proof cases
  case (task b cs ds)
  with assms(1) show ?thesis
    by (simp add: task_returns_def; simp add: fifo_inv_def task_cleanup_def Let_def)
next
  case (io d cs)
  then show ?thesis
    using assms(1) by (auto simp: fifo_inv_def perform_io_cleanup_def compensating_work_started_def
        post_deferred_completions_def split: list.splits)
next
  case flush
  with assms(1) show ?thesis by (simp add: flush_private_def; simp add: fifo_inv_def)
next
  case resume
  with assms(1) show ?thesis
    by (simp add: resume_wait_def case_prod_beta Let_def; simp add: fifo_inv_def)
next
  case lock
  with assms(1) show ?thesis by simp
qed (use assms(1) in \<open>simp_all add: fifo_inv_def work_cleanup_def\<close>)

lemma fifo_env: "env_step s s' \<Longrightarrow> fifo_inv s \<Longrightarrow> fifo_inv s'"
  by (induction rule: env_step.induct)
     (auto simp: fifo_inv_def sched_run_def restart_def init_task_def post_immediate_completion_def
       post_immediate_completions_def do_dispatch_def work_started_def post_deferred_completion_def
       post_deferred_completions_def)

lemma fifo_reach: "sched_reach one s \<Longrightarrow> fifo_inv s"
proof (induction rule: sched_reach.induct)
  case new show ?case by (simp add: fifo_inv_def new_scheduler_def)
qed (auto intro: fifo_step fifo_env)


section \<open>No lost wake-up\<close>

lemma or_bit_0 [simp]: "or n (Suc 0) = 2 * (n div 2) + 1" for n :: nat
  using or_one_eq [of n] by (cases "even n") (auto elim!: evenE oddE)

lemma and_bit_0 [simp]: "and n (Suc 0) = n mod 2" for n :: nat
  using and_one_eq [of n] by simp

lemmas event_defs = signal_all_def unlock_and_signal_one_def maybe_unlock_and_signal_one_def
  clear_event_def wait_test_def wait_resume_def wake_sleeper_def deliver_signal_def
  unset_bit_0 Let_def

text \<open>
  The thread in \<open>run\<close> sleeps in the event, or in the task without a timeout, only while there is
  nothing to do, unless what wakes it up is on its way.
\<close>

definition event_inv :: "sched \<Rightarrow> bool" where
  "event_inv s \<longleftrightarrow>
     (let e = wakeup_event s
      in ev_sleepers e + ev_woken e = (if pc s = In_Event then 1 else 0)
       \<and> ev_state e div 2 = ev_sleepers e + ev_woken e
       \<and> (pc s = In_Event \<and> (op_q s \<noteq> [] \<or> is_stopped s) \<longrightarrow> odd (ev_state e))
       \<and> (0 < ev_sleepers e \<and> odd (ev_state e) \<longrightarrow> 0 < ev_signals e))"

definition task_inv :: "sched \<Rightarrow> bool" where
  "task_inv s \<longleftrightarrow>
     (Task_Op \<in> set (op_q s) \<longrightarrow> has_task s) \<and> Task_Op \<notin> set (priv_q s) \<and> pc s \<noteq> Running Task_Op
     \<and> (\<forall>b. pc s = In_Task b \<longrightarrow> has_task s)
     \<and> (pc s = In_Task True \<and> (op_q s \<noteq> [] \<or> is_stopped s) \<longrightarrow> task_interrupted s)
     \<and> (pc s = In_Task True \<and> task_interrupted s \<longrightarrow> poked s)"

lemma event_wake: "event_inv (s\<lparr>op_q := q\<rparr>) \<Longrightarrow> event_inv (wake_one_thread_and_unlock s)"
  by (auto simp: event_inv_def wake_defs event_defs split: if_splits)

lemma event_stop: "event_inv s \<Longrightarrow> event_inv (sched_stop s)"
  by (auto simp: event_inv_def wake_defs event_defs split: if_splits)

lemma event_wake_test: "event_inv s \<Longrightarrow> event_inv (wake_one_thread_and_unlock (push_ops os s))"
  by (rule event_wake [where q = "op_q s"]) (simp add: push_ops_def event_inv_def)

text \<open>\<open>do_run_one\<close> starts with no thread waiting.\<close>

definition no_waiter :: "sched \<Rightarrow> bool" where
  "no_waiter s \<longleftrightarrow> ev_sleepers (wakeup_event s) = 0 \<and> ev_woken (wakeup_event s) = 0
     \<and> ev_state (wakeup_event s) div 2 = 0"

lemma no_waiter_state: "no_waiter s \<Longrightarrow> ev_state (wakeup_event s) = 0 \<or> ev_state (wakeup_event s) = 1"
  by (auto simp: no_waiter_def)

lemma event_do_run_one: "no_waiter s \<Longrightarrow> event_inv (do_run_one s)"
  using no_waiter_state [of s]
  by (auto simp: event_inv_def no_waiter_def do_run_one_def wake_defs event_defs split: list.splits)

lemma no_waiter: "event_inv s \<Longrightarrow> pc s \<noteq> In_Event \<Longrightarrow> no_waiter s"
  by (simp add: event_inv_def no_waiter_def Let_def)

lemma no_waiter_signal: "no_waiter s \<Longrightarrow> \<not> snd (maybe_unlock_and_signal_one (wakeup_event s))"
  using no_waiter_state [of s] by (auto simp: event_defs)

lemma no_waiter_cong: "no_waiter s \<Longrightarrow> wakeup_event s' = wakeup_event s \<Longrightarrow> no_waiter s'"
  by (simp add: no_waiter_def)

lemma task_do_run_one:
  "Task_Op \<in> set (op_q s) \<longrightarrow> has_task s \<Longrightarrow> Task_Op \<notin> set (priv_q s) \<Longrightarrow> task_inv (do_run_one s)"
  by (auto simp: task_inv_def do_run_one_def wake_defs split: list.splits)

lemma task_wake:
  assumes "task_inv s" "event_inv s" "Task_Op \<in> set os \<longrightarrow> has_task s"
  shows "task_inv (wake_one_thread_and_unlock (push_ops os s))"
proof (cases "pc s = In_Event")
  case False
  with assms show ?thesis
    using no_waiter_signal [OF no_waiter [OF assms(2)]]
    by (auto simp: task_inv_def wake_defs push_ops_def)
qed (use assms in \<open>auto simp: task_inv_def wake_defs push_ops_def\<close>)

lemma task_stop: "task_inv s \<Longrightarrow> task_inv (sched_stop s)"
  by (auto simp: task_inv_def wake_defs)

definition wake_inv :: "sched \<Rightarrow> bool" where
  "wake_inv s \<longleftrightarrow> event_inv s \<and> task_inv s"

lemma wake_do_run_one:
  "no_waiter s \<Longrightarrow> Task_Op \<in> set (op_q s) \<longrightarrow> has_task s \<Longrightarrow> Task_Op \<notin> set (priv_q s)
    \<Longrightarrow> wake_inv (do_run_one s)"
  by (simp add: wake_inv_def event_do_run_one task_do_run_one)

lemma wake_push:
  "wake_inv s \<Longrightarrow> Task_Op \<in> set os \<longrightarrow> has_task s
    \<Longrightarrow> wake_inv (wake_one_thread_and_unlock (push_ops os s))"
  by (simp add: wake_inv_def event_wake_test task_wake)

text \<open>Fields the invariant does not look at, and moves between places without waiting.\<close>

lemma wake_inv_cong:
  assumes "wake_inv s" "op_q s' = op_q s" "wakeup_event s' = wakeup_event s" "has_task s' = has_task s"
    "is_stopped s' = is_stopped s" "task_interrupted s' = task_interrupted s" "poked s' = poked s"
    "Task_Op \<notin> set (priv_q s')"
    "pc s' = pc s \<or> pc s \<noteq> In_Event \<and> pc s' \<notin> {In_Event, Running Task_Op} \<and> (\<forall>b. pc s' \<noteq> In_Task b)"
  shows "wake_inv s'"
  using assms(9)
proof
  assume "pc s' = pc s"
  with assms(1,8) show ?thesis
    by (simp add: wake_inv_def event_inv_def task_inv_def Let_def assms(2-7))
next
  assume "pc s \<noteq> In_Event \<and> pc s' \<notin> {In_Event, Running Task_Op} \<and> (\<forall>b. pc s' \<noteq> In_Task b)"
  with assms(1,8) show ?thesis
    by (simp add: wake_inv_def event_inv_def task_inv_def Let_def assms(2-7))
qed

lemma wake_invD:
  assumes "wake_inv s"
  shows "event_inv s" "Task_Op \<in> set (op_q s) \<longrightarrow> has_task s" "Task_Op \<notin> set (priv_q s)"
    "pc s \<noteq> Running Task_Op"
  using assms by (simp_all add: wake_inv_def task_inv_def)

lemma wake_resume:
  assumes "wake_inv s" "pc s = In_Event" "0 < ev_woken (wakeup_event s)"
  shows "wake_inv (resume_wait s)"
proof -
  let ?e = "wakeup_event s"
  have e: "ev_woken ?e = 1" "ev_sleepers ?e = 0" "ev_state ?e div 2 = 1"
    using assms by (auto simp: wake_inv_def event_inv_def Let_def)
  have t: "Task_Op \<in> set (op_q s) \<longrightarrow> has_task s" "Task_Op \<notin> set (priv_q s)"
    using assms by (auto simp: wake_inv_def task_inv_def)
  show ?thesis
  proof (cases "odd (ev_state ?e)")
    case True
    then have "ev_state ?e = 3" using e(3) by presburger
    then have "resume_wait s = do_run_one (s\<lparr>wakeup_event := ?e\<lparr>ev_state := 1, ev_woken := 0\<rparr>\<rparr>)"
      using e by (simp add: resume_wait_def event_defs)
    then show ?thesis using e t by (simp add: wake_do_run_one no_waiter_def)
  next
    case False
    then have "ev_state ?e = 2" using e(3) by presburger
    then have "resume_wait s = s\<lparr>wakeup_event := ?e\<lparr>ev_woken := 0, ev_sleepers := 1\<rparr>\<rparr>"
      using e by (simp add: resume_wait_def event_defs)
    then show ?thesis
      using assms e False by (auto simp: wake_inv_def event_inv_def task_inv_def Let_def)
  qed
qed

lemma wake_task_returns:
  assumes "wake_inv s" "pc s = In_Task b" "Task_Op \<notin> set os"
  shows "wake_inv (task_returns os (s\<lparr>s_io := n\<rparr>))"
proof -
  have "no_waiter s" "has_task s" "Task_Op \<notin> set (priv_q s)"
    using assms no_waiter [of s] by (auto simp: wake_inv_def task_inv_def)
  then show ?thesis
    unfolding task_returns_def using assms(3)
    by (intro wake_do_run_one) (auto simp: task_cleanup_def Let_def no_waiter_def)
qed

lemma wake_flush:
  assumes "wake_inv s" "pc s = Flushing"
  shows "wake_inv (flush_private s)"
proof -
  note D = wake_invD [OF assms(1)]
  have n: "no_waiter s" using no_waiter [OF D(1)] assms(2) by simp
  show ?thesis
  proof (cases "priv_q s = []")
    case True
    then show ?thesis
      using D(3) by (auto simp: flush_private_def assms(2) intro!: wake_inv_cong [OF assms(1)])
  next
    case False
    have "wake_inv (do_run_one ((push_ops (priv_q s) s)\<lparr>priv_q := []\<rparr>))"
      by (rule wake_do_run_one) (use n D(2,3) in \<open>auto simp: no_waiter_def\<close>)
    with False show ?thesis by (simp add: flush_private_def)
  qed
qed

lemma wake_post_deferred:
  assumes "wake_inv s"
  shows "wake_inv (post_deferred_completions inside (map Completed cs) s)"
proof -
  have t: "Task_Op \<notin> set (map Completed cs)" by auto
  have "wake_inv (s\<lparr>priv_q := priv_q s @ map Completed cs\<rparr>)"
    by (rule wake_inv_cong [OF assms]) (use wake_invD [OF assms] in auto)
  with wake_push [OF assms, of "map Completed cs"] t assms show ?thesis
    by (simp add: post_deferred_completions_def)
qed

lemma wake_io:
  assumes "wake_inv s" "pc s = Running (Descriptor d)"
  shows "wake_inv (perform_io_cleanup cs s)"
proof (cases cs)
  case Nil
  then show ?thesis
    using wake_invD [OF assms(1)] assms(2)
    by (auto simp: perform_io_cleanup_def compensating_work_started_def
        intro!: wake_inv_cong [OF assms(1)])
next
  case (Cons c cs')
  let ?s = "post_deferred_completions True (map Completed cs') s"
  have p: "wake_inv ?s" by (rule wake_post_deferred [OF assms(1)])
  have "pc ?s = pc s" by (simp add: post_deferred_completions_def)
  then show ?thesis
    using wake_invD [OF p] assms(2) Cons
    by (auto simp: perform_io_cleanup_def intro!: wake_inv_cong [OF p])
qed

lemma wake_step:
  assumes "wake_inv s" "sched_step s s'"
  shows "wake_inv s'"
proof -
  note D = wake_invD [OF assms(1)]
  from assms(2) show ?thesis
  proof cases
    case lock
    then show ?thesis using wake_do_run_one [OF no_waiter [OF D(1)] D(2,3)] by simp
  next
    case signal
    then show ?thesis
      using assms(1) by (auto simp: wake_inv_def event_inv_def task_inv_def event_defs split: if_splits)
  next
    case resume
    then show ?thesis using assms(1) by (simp add: wake_resume)
  next
    case (task b cs ds)
    then show ?thesis using assms(1) by (auto intro!: wake_task_returns)
  next
    case (io d cs)
    have "wake_inv (s\<lparr>s_io := s_io s - length cs\<rparr>)"
      by (rule wake_inv_cong [OF assms(1)]) (use D in auto)
    then show ?thesis using io wake_io by simp
  next
    case complete
    then show ?thesis
      using D by (auto intro!: wake_inv_cong [OF assms(1)]
        simp: work_cleanup_def in_handler_def split: runner.splits)
  next
    case finish
    have "wake_inv (sched_stop s)" using assms(1) by (simp add: wake_inv_def event_stop task_stop)
    then show ?thesis
      unfolding finish(1) by (rule wake_inv_cong) (use finish(2) D in auto)
  next
    case flush
    then show ?thesis using wake_flush [OF assms(1)] by simp
  qed
qed

lemma wake_env:
  assumes "wake_inv s" "env_step s s'"
  shows "wake_inv s'"
proof -
  note D = wake_invD [OF assms(1)]
  have stop: "wake_inv (sched_stop s)" using assms(1) by (simp add: wake_inv_def event_stop task_stop)
  have io: "wake_inv (s\<lparr>s_io := n\<rparr>)" for n by (rule wake_inv_cong [OF assms(1)]) (use D in auto)
  have work: "wake_inv (s\<lparr>outstanding_work := n\<rparr>)" for n
    by (rule wake_inv_cong [OF assms(1)]) (use D in auto)
  have priv: "wake_inv (s\<lparr>priv_work := n, priv_q := priv_q s @ os\<rparr>)" if "Task_Op \<notin> set os" for n os
    by (rule wake_inv_cong [OF assms(1)]) (use D that in auto)
  from assms(2) show ?thesis
  proof cases
    case run
    show ?thesis
      unfolding run(1) sched_run_def
      by (auto intro!: stop wake_inv_cong [OF assms(1)] simp: run(2))
  next
    case restart
    then show ?thesis
      using assms(1) by (auto simp: restart_def wake_inv_def event_inv_def task_inv_def)
  next
    case spurious
    then show ?thesis
      using assms(1) by (auto simp: wake_inv_def event_inv_def task_inv_def event_defs split: if_splits)
  next
    case init
    have "wake_inv (s\<lparr>has_task := True\<rparr>)"
      using assms(1) by (auto simp: wake_inv_def event_inv_def task_inv_def)
    then show ?thesis
      using assms(1) init wake_push [of "s\<lparr>has_task := True\<rparr>" "[Task_Op]"] by (simp add: init_task_def)
  next
    case (post inside h cont)
    then show ?thesis
      using priv [of "[Posted h]"] wake_push [OF work, of "[Posted h]"]
      by (simp add: post_immediate_completion_def work_started_def)
  next
    case (posts inside hs cont)
    then show ?thesis
      using priv [of "map Posted hs"] wake_push [OF work, of "map Posted hs"]
      by (auto simp: post_immediate_completions_def image_iff)
  next
    case (dispatch h)
    then show ?thesis
      using wake_push [OF work, of "[Posted h]"] by (simp add: do_dispatch_def work_started_def)
  next
    case start_io
    show ?thesis
      unfolding start_io by (rule wake_inv_cong [OF assms(1)]) (use D in \<open>auto simp: work_started_def\<close>)
  next
    case (deferred inside c)
    have "wake_inv (s\<lparr>s_io := n, priv_q := priv_q s @ [Completed c]\<rparr>)" for n
      by (rule wake_inv_cong [OF assms(1)]) (use D in auto)
    then show ?thesis
      using deferred wake_push [OF io, of "[Completed c]"] by (simp add: post_deferred_completion_def)
  next
    case (deferreds inside cs)
    then show ?thesis using wake_post_deferred [OF io] by simp
  qed (simp add: stop)
qed

lemma wake_reach: "sched_reach one s \<Longrightarrow> wake_inv s"
proof (induction rule: sched_reach.induct)
  case new
  show ?case
    by (simp add: wake_inv_def event_inv_def task_inv_def new_scheduler_def new_event_def)
qed (auto intro: wake_step wake_env)


section \<open>The count of outstanding work\<close>

fun is_work :: "sop \<Rightarrow> bool" where
  "is_work (Posted h) = True"
| "is_work (Completed c) = True"
| "is_work x = False"

definition waiting_work :: "sched \<Rightarrow> nat" where
  "waiting_work s = length (filter is_work (op_q s)) + length (filter is_work (priv_q s)) + s_io s"

text \<open>The operation being completed counts until \<open>work_cleanup\<close>.\<close>

definition current_work :: "sched \<Rightarrow> nat" where
  "current_work s = (if in_handler s \<or> pc s = Compensated then 1 else 0)"

definition work_inv :: "sched \<Rightarrow> bool" where
  "work_inv s \<longleftrightarrow> 0 \<le> priv_work s
     \<and> priv_work s \<le> int (length (filter is_work (priv_q s))) + (if pc s = Compensated then 1 else 0)
     \<and> outstanding_work s + priv_work s = int (waiting_work s + current_work s)
     \<and> ((\<exists>x. pc s = Running x) \<or> pc s = Compensated \<or> priv_work s = 0)
     \<and> ((\<exists>x. pc s = Running x) \<or> pc s \<in> {Compensated, Stopping, Flushing} \<or> priv_q s = [])
     \<and> pc s \<noteq> Running Task_Op"

lemma is_work_map [simp]:
  "filter is_work (map Posted hs) = map Posted hs" "filter is_work (map Completed cs) = map Completed cs"
  "filter is_work (map Descriptor ds) = []"
  by (simp_all add: filter_map o_def)

lemma work_do_run_one:
  assumes "priv_work s = 0" "priv_q s = []" "outstanding_work s = int (waiting_work s)"
  shows "work_inv (do_run_one s)"
proof (cases "op_q s")
  case (Cons x q)
  then show ?thesis
    using assms by (cases x) (auto simp: work_inv_def do_run_one_def waiting_work_def
      current_work_def in_handler_def Let_def)
qed (use assms in \<open>auto simp: work_inv_def do_run_one_def waiting_work_def current_work_def
    in_handler_def Let_def case_prod_beta\<close>)

lemma in_handler_cong: "pc s' = pc s \<Longrightarrow> in_handler s' = in_handler s"
  by (simp add: in_handler_def)

lemma work_wake [simp]: "work_inv (wake_one_thread_and_unlock s) \<longleftrightarrow> work_inv s"
  by (simp add: work_inv_def waiting_work_def current_work_def in_handler_def)

lemma work_stop [simp]: "work_inv (sched_stop s) \<longleftrightarrow> work_inv s"
  by (simp add: work_inv_def waiting_work_def current_work_def in_handler_def)

lemma work_invD:
  assumes "work_inv s" "pc s \<in> {Wants_Lock, In_Event, Flushing} \<union> range In_Task"
  shows "priv_work s = 0" "pc s \<noteq> Flushing \<Longrightarrow> priv_q s = []"
    "outstanding_work s = int (waiting_work s)"
  using assms by (auto simp: work_inv_def current_work_def in_handler_def)

lemma work_task_returns:
  assumes "work_inv s" "pc s = In_Task b" "length cs \<le> s_io s"
  shows "work_inv (task_returns (map Descriptor ds @ map Completed cs)
    (s\<lparr>s_io := s_io s - length cs\<rparr>))"
  unfolding task_returns_def using work_invD [OF assms(1)] assms(2,3)
  by (intro work_do_run_one) (auto simp: task_cleanup_def waiting_work_def Let_def)

lemma work_resume:
  assumes "work_inv s" "pc s = In_Event"
  shows "work_inv (resume_wait s)"
proof (cases "snd (wait_resume (wakeup_event s))")
  case True
  then show ?thesis
    using assms by (auto simp: resume_wait_def case_prod_beta Let_def work_inv_def waiting_work_def
        current_work_def in_handler_def)
next
  case False
  have "work_inv (do_run_one (s\<lparr>wakeup_event := e\<rparr>))" for e
    by (rule work_do_run_one) (use work_invD [OF assms(1)] assms(2) in \<open>auto simp: waiting_work_def\<close>)
  with False show ?thesis by (simp add: resume_wait_def case_prod_beta Let_def)
qed

lemma work_flush:
  assumes "work_inv s" "pc s = Flushing"
  shows "work_inv (flush_private s)"
proof (cases "priv_q s = []")
  case True
  with assms show ?thesis
    by (auto simp: flush_private_def work_inv_def waiting_work_def current_work_def in_handler_def)
next
  case False
  have "work_inv (do_run_one ((push_ops (priv_q s) s)\<lparr>priv_q := []\<rparr>))"
    by (rule work_do_run_one) (use work_invD [OF assms(1)] assms(2) in \<open>auto simp: waiting_work_def\<close>)
  with False show ?thesis by (simp add: flush_private_def)
qed

lemma work_step:
  assumes "work_inv s" "sched_step s s'"
  shows "work_inv s'"
  using assms(2)
proof cases
  case lock
  then show ?thesis using work_do_run_one work_invD [OF assms(1)] by simp
next
  case signal
  then show ?thesis
    using assms(1) by (simp add: work_inv_def waiting_work_def current_work_def in_handler_def)
next
  case resume
  then show ?thesis using work_resume [OF assms(1)] by simp
next
  case (task b cs ds)
  then show ?thesis using work_task_returns [OF assms(1)] by simp
next
  case (io d cs)
  then show ?thesis
    using assms(1) by (cases cs) (auto simp: perform_io_cleanup_def compensating_work_started_def
        post_deferred_completions_def work_inv_def waiting_work_def current_work_def in_handler_def)
next
  case complete
  then show ?thesis
    using assms(1) by (auto simp: work_inv_def work_cleanup_def waiting_work_def current_work_def
        in_handler_def)
next
  case finish
  then show ?thesis
    using assms(1) by (auto simp: work_inv_def waiting_work_def current_work_def in_handler_def)
next
  case flush
  then show ?thesis using work_flush [OF assms(1)] by simp
qed

lemma work_env:
  assumes "work_inv s" "env_step s s'"
  shows "work_inv s'"
  using assms(2)
proof cases
  case run
  then show ?thesis
    using assms(1) by (auto simp: sched_run_def)
       (auto simp: work_inv_def waiting_work_def current_work_def in_handler_def)
qed (use assms(1) in \<open>auto simp: work_inv_def waiting_work_def current_work_def in_handler_def
    restart_def init_task_def post_immediate_completion_def post_immediate_completions_def
    do_dispatch_def work_started_def post_deferred_completion_def post_deferred_completions_def
    split: runner.splits sop.splits\<close>)

lemma work_reach: "sched_reach one s \<Longrightarrow> work_inv s"
proof (induction rule: sched_reach.induct)
  case new
  show ?case
    by (simp add: work_inv_def waiting_work_def current_work_def in_handler_def new_scheduler_def)
qed (auto intro: work_step work_env)


section \<open>Every handler gets its turn\<close>

text \<open>A state from which the thread in \<open>run\<close> goes on to the next operation of the queue.\<close>

definition live :: "bool \<Rightarrow> sched \<Rightarrow> bool" where
  "live one s \<longleftrightarrow> sched_reach one s \<and> \<not> is_stopped s \<and> pc s \<noteq> Not_Running \<and> pc s \<noteq> Stopping"

text \<open>
  The steps of the thread in which no asynchronous operation completes. \<open>P\<close> says which descriptors
  may be run.
\<close>

inductive quiet_step :: "(nat \<Rightarrow> bool) \<Rightarrow> sched \<Rightarrow> sched \<Rightarrow> bool" for P where
  lock: "pc s = Wants_Lock \<Longrightarrow> quiet_step P s (do_run_one s)"
| signal: "0 < ev_signals (wakeup_event s)
    \<Longrightarrow> quiet_step P s (s\<lparr>wakeup_event := deliver_signal (wakeup_event s)\<rparr>)"
| resume: "pc s = In_Event \<Longrightarrow> 0 < ev_woken (wakeup_event s) \<Longrightarrow> quiet_step P s (resume_wait s)"
| task: "pc s = In_Task b \<Longrightarrow> quiet_step P s (task_returns [] s)"
| io: "pc s = Running (Descriptor d) \<Longrightarrow> P d \<Longrightarrow> quiet_step P s (perform_io_cleanup [] s)"
| complete: "in_handler s \<or> pc s = Compensated \<Longrightarrow> quiet_step P s (work_cleanup s)"
| flush: "pc s = Flushing \<Longrightarrow> quiet_step P s (flush_private s)"

lemma quiet_sched:
  assumes "quiet_step P s s'"
  shows "sched_step s s'"
  using assms sched_step.task [of s _ "[]" "[]"] sched_step.io [of s _ "[]"]
  by cases (auto intro: sched_step.intros)

lemma quiet_steps_sched: "(quiet_step P)\<^sup>*\<^sup>* s s' \<Longrightarrow> sched_step\<^sup>*\<^sup>* s s'"
  by (rule mono_rtranclp [rule_format, of "quiet_step P"]) (auto intro: quiet_sched)

lemma quiet_steps_reach: "(quiet_step P)\<^sup>*\<^sup>* s s' \<Longrightarrow> sched_reach one s \<Longrightarrow> sched_reach one s'"
  by (induction rule: rtranclp_induct) (auto intro: sched_reach.step quiet_sched)

definition at_op :: "sop \<Rightarrow> sched \<Rightarrow> bool" where
  "at_op x s \<longleftrightarrow> (if x = Task_Op then \<exists>b. pc s = In_Task b else pc s = Running x)"

lemma at_op_pc: "at_op x s \<Longrightarrow> pc s \<noteq> Not_Running \<and> pc s \<noteq> Stopping"
  by (auto simp: at_op_def split: if_splits)

lemma do_run_one_pops:
  assumes "\<not> is_stopped t" "op_q t = x # q"
  shows "op_q (do_run_one t) = q \<and> ran (do_run_one t) = ran t @ posted_ops [x]
    \<and> \<not> is_stopped (do_run_one t) \<and> s_io (do_run_one t) = s_io t \<and> at_op x (do_run_one t)"
  using assms by (auto simp: do_run_one_def at_op_def Let_def)

definition popped :: "(nat \<Rightarrow> bool) \<Rightarrow> sched \<Rightarrow> sop \<Rightarrow> sop list \<Rightarrow> sched \<Rightarrow> bool" where
  "popped P s x q s' \<longleftrightarrow> (quiet_step P)\<^sup>*\<^sup>* s s' \<and> (\<exists>extra. op_q s' = q @ extra)
     \<and> ran s' = ran s @ posted_ops [x] \<and> \<not> is_stopped s' \<and> s_io s' = s_io s \<and> at_op x s'"

lemma popped_do_run_one:
  assumes "(quiet_step P)\<^sup>*\<^sup>* s (do_run_one t)" "\<not> is_stopped t" "op_q t = x # q @ extra" "ran t = ran s"
    "s_io t = s_io s"
  shows "popped P s x q (do_run_one t)"
  using assms(1,4,5) do_run_one_pops [OF assms(2,3)] by (auto simp: popped_def)

lemma popped_step:
  "quiet_step P s s1 \<Longrightarrow> ran s1 = ran s \<Longrightarrow> s_io s1 = s_io s \<Longrightarrow> popped P s1 x q s' \<Longrightarrow> popped P s x q s'"
  by (auto simp: popped_def intro: converse_rtranclp_into_rtranclp)

lemma popped_lock:
  assumes "live one s" "op_q s = x # q" "pc s = Wants_Lock"
  shows "\<exists>s'. popped P s x q s'"
  using popped_do_run_one [of P s s x q "[]"] assms quiet_step.lock by (auto simp: live_def)

lemma popped_resume:
  assumes "live one s" "op_q s = x # q" "pc s = In_Event" "0 < ev_woken (wakeup_event s)"
  shows "\<exists>s'. popped P s x q s'"
proof -
  have "event_inv s" using assms(1) wake_reach by (auto simp: live_def wake_inv_def)
  then have "ev_woken (wakeup_event s) = 1" "ev_state (wakeup_event s) div 2 = 1"
    "odd (ev_state (wakeup_event s))"
    using assms(2-4) by (auto simp: event_inv_def Let_def)
  then have e: "ev_woken (wakeup_event s) = 1" "ev_state (wakeup_event s) = 3" by presburger+
  have "quiet_step P s (resume_wait s)" by (rule quiet_step.resume [OF assms(3,4)])
  then have "quiet_step P s (do_run_one (s\<lparr>wakeup_event :=
      (wakeup_event s)\<lparr>ev_state := 1, ev_woken := 0\<rparr>\<rparr>))"
    using e by (simp add: resume_wait_def event_defs)
  then have "popped P s x q (do_run_one (s\<lparr>wakeup_event :=
      (wakeup_event s)\<lparr>ev_state := 1, ev_woken := 0\<rparr>\<rparr>))"
    using assms(1,2) by (intro popped_do_run_one [where extra = "[]"]) (auto simp: live_def)
  then show ?thesis ..
qed

lemma popped_event:
  assumes "live one s" "op_q s = x # q" "pc s = In_Event"
  shows "\<exists>s'. popped P s x q s'"
proof (cases "0 < ev_woken (wakeup_event s)")
  case False
  have "event_inv s" using assms(1) wake_reach by (auto simp: live_def wake_inv_def)
  then have e: "ev_sleepers (wakeup_event s) = 1" "0 < ev_signals (wakeup_event s)"
    using assms(2,3) False by (auto simp: event_inv_def Let_def)
  let ?s = "s\<lparr>wakeup_event := deliver_signal (wakeup_event s)\<rparr>"
  have st: "quiet_step P s ?s" by (rule quiet_step.signal [OF e(2)])
  then have "live one ?s" using assms(1) by (auto simp: live_def intro: sched_reach.step quiet_sched)
  then show ?thesis
    using popped_resume [of one ?s x q P] popped_step [OF st] assms(2,3) e
    by (auto simp: event_defs)
qed (use popped_resume [OF assms] in blast)

lemma popped_task:
  assumes "live one s" "op_q s = x # q" "pc s = In_Task b"
  shows "\<exists>s'. popped P s x q s'"
proof -
  let ?t = "task_cleanup (s\<lparr>poked := False\<rparr>)"
  have "quiet_step P s (do_run_one ?t)"
    using quiet_step.task [OF assms(3)] by (simp add: task_returns_def)
  then have "popped P s x q (do_run_one ?t)"
    using assms(1,2) by (intro popped_do_run_one [where extra = "priv_q s @ [Task_Op]"])
      (auto simp: live_def task_cleanup_def Let_def)
  then show ?thesis ..
qed

lemma popped_flush:
  assumes "live one s" "op_q s = x # q" "pc s = Flushing"
  shows "\<exists>s'. popped P s x q s'"
proof (cases "priv_q s = []")
  case True
  then have st: "quiet_step P s (s\<lparr>pc := Wants_Lock\<rparr>)"
    using quiet_step.flush [OF assms(3)] by (simp add: flush_private_def)
  then have "live one (s\<lparr>pc := Wants_Lock\<rparr>)"
    using assms(1) by (auto simp: live_def intro: sched_reach.step quiet_sched)
  then show ?thesis
    using popped_lock [of one "s\<lparr>pc := Wants_Lock\<rparr>" x q P] popped_step [OF st] assms(2) by auto
next
  case False
  let ?t = "(push_ops (priv_q s) s)\<lparr>priv_q := []\<rparr>"
  have "quiet_step P s (do_run_one ?t)"
    using quiet_step.flush [OF assms(3)] False by (simp add: flush_private_def)
  then have "popped P s x q (do_run_one ?t)"
    using assms(1,2) by (intro popped_do_run_one [where extra = "priv_q s"]) (auto simp: live_def)
  then show ?thesis ..
qed

text \<open>Where there is work, completing the current handler does not stop the scheduler.\<close>

lemma popped_complete:
  assumes "live one s" "op_q s = x # q" "0 < waiting_work s" "in_handler s \<or> pc s = Compensated"
  shows "\<exists>s'. popped P s x q s'"
proof -
  have w: "work_inv s" using assms(1) work_reach by (auto simp: live_def)
  then have "outstanding_work s + priv_work s - 1 \<noteq> 0"
    using assms(3,4) by (auto simp: work_inv_def current_work_def)
  then have f: "pc (work_cleanup s) = Flushing" "op_q (work_cleanup s) = x # q"
    "is_stopped (work_cleanup s) = is_stopped s" "ran (work_cleanup s) = ran s"
    "s_io (work_cleanup s) = s_io s"
    using w assms(2) by (auto simp: work_cleanup_def work_inv_def)
  have st: "quiet_step P s (work_cleanup s)" by (rule quiet_step.complete [OF assms(4)])
  then have "live one (work_cleanup s)"
    using assms(1) f by (auto simp: live_def intro: sched_reach.step quiet_sched)
  then show ?thesis using popped_flush [of one "work_cleanup s" x q P] popped_step [OF st] f by auto
qed

lemma popped_io:
  assumes "live one s" "op_q s = x # q" "0 < waiting_work s" "pc s = Running (Descriptor d)" "P d"
  shows "\<exists>s'. popped P s x q s'"
proof -
  let ?s = "perform_io_cleanup [] s"
  have st: "quiet_step P s ?s" using quiet_step.io [of s d P, OF assms(4,5)] .
  have f: "pc ?s = Compensated" "op_q ?s = x # q" "is_stopped ?s = is_stopped s" "ran ?s = ran s"
    "s_io ?s = s_io s" "waiting_work ?s = waiting_work s"
    using assms(2) by (auto simp: perform_io_cleanup_def compensating_work_started_def waiting_work_def)
  then have "live one ?s" using assms(1) st by (auto simp: live_def intro: sched_reach.step quiet_sched)
  then show ?thesis
    using popped_complete [of one ?s x q P] popped_step [OF st] assms(3) f by auto
qed

lemma popped_round:
  assumes "live one s" "op_q s = x # q" "0 < waiting_work s" "\<forall>d. pc s = Running (Descriptor d) \<longrightarrow> P d"
  shows "\<exists>s'. popped P s x q s'"
proof (cases "pc s")
  case (Running y)
  then have "y \<noteq> Task_Op" using assms(1) work_reach by (auto simp: live_def work_inv_def)
  then show ?thesis
    using popped_io [OF assms(1-3)] popped_complete [OF assms(1-3)] assms(4) Running
    by (cases y) (auto simp: in_handler_def)
qed (use assms popped_lock [OF assms(1,2)] popped_event [OF assms(1,2)] popped_task [OF assms(1,2)]
    popped_flush [OF assms(1,2)] popped_complete [OF assms(1-3)] in \<open>auto simp: live_def\<close>)

lemma popped_live: "popped P s x q s' \<Longrightarrow> live one s \<Longrightarrow> live one s'"
  using at_op_pc [of x s'] quiet_steps_reach [of P s s'] by (auto simp: popped_def live_def)

lemma posted_work: "Posted h \<in> set (op_q s) \<Longrightarrow> 0 < waiting_work s"
proof -
  assume "Posted h \<in> set (op_q s)"
  then have "Posted h \<in> set (filter is_work (op_q s))" by auto
  then show ?thesis unfolding waiting_work_def by (auto simp del: set_filter)
qed

lemma runs_handler:
  "op_q s = xs @ Posted h # ys \<Longrightarrow> live one s
    \<Longrightarrow> \<exists>s'. (quiet_step (\<lambda>_. True))\<^sup>*\<^sup>* s s' \<and> ran s' = ran s @ posted_ops xs @ [h]"
proof (induction xs arbitrary: s ys)
  case Nil
  then show ?case
    using popped_round [of one s "Posted h" ys "\<lambda>_. True"] posted_work [of h s] by (auto simp: popped_def)
next
  case (Cons x xs)
  from Cons.prems obtain s1 where p: "popped (\<lambda>_. True) s x (xs @ Posted h # ys) s1"
    using popped_round [of one s x "xs @ Posted h # ys" "\<lambda>_. True"] posted_work [of h s] by auto
  then obtain extra where q: "op_q s1 = xs @ Posted h # ys @ extra" by (auto simp: popped_def)
  from Cons.IH [OF q popped_live [OF p Cons.prems(2)]] obtain s' where
    "(quiet_step (\<lambda>_. True))\<^sup>*\<^sup>* s1 s'" "ran s' = ran s1 @ posted_ops xs @ [h]" by blast
  then show ?case
    using p posted_ops_Cons [of x xs] by (auto simp: popped_def intro: rtranclp_trans)
qed

text \<open>While an asynchronous operation is under way, the thread comes to every operation in the queue.\<close>

lemma comes_to:
  "op_q s = xs @ y # ys \<Longrightarrow> live one s \<Longrightarrow> 0 < s_io s
    \<Longrightarrow> \<forall>d. Descriptor d \<in> set xs \<or> pc s = Running (Descriptor d) \<longrightarrow> P d
    \<Longrightarrow> \<exists>s'. (quiet_step P)\<^sup>*\<^sup>* s s' \<and> at_op y s' \<and> live one s' \<and> s_io s' = s_io s"
proof (induction xs arbitrary: s ys)
  case Nil
  have "0 < waiting_work s" using Nil(3) by (simp add: waiting_work_def)
  then obtain s' where "popped P s y ys s'" using popped_round [of one s y ys P] Nil by auto
  then show ?case using popped_live [of P s y ys s' one] Nil(2) by (auto simp: popped_def)
next
  case (Cons x xs)
  have "0 < waiting_work s" using Cons.prems(3) by (simp add: waiting_work_def)
  then obtain s1 where p: "popped P s x (xs @ y # ys) s1"
    using popped_round [of one s x "xs @ y # ys" P] Cons.prems by auto
  then obtain extra where q: "op_q s1 = xs @ y # ys @ extra" by (auto simp: popped_def)
  have "\<forall>d. Descriptor d \<in> set xs \<or> pc s1 = Running (Descriptor d) \<longrightarrow> P d"
    using p Cons.prems(4) by (auto simp: popped_def at_op_def split: if_splits)
  then obtain s' where "(quiet_step P)\<^sup>*\<^sup>* s1 s'" "at_op y s'" "live one s'" "s_io s' = s_io s1"
    using Cons.IH [OF q popped_live [OF p Cons.prems(2)]] p Cons.prems(3) by (auto simp: popped_def)
  then show ?case using p by (auto simp: popped_def intro: rtranclp_trans)
qed


section \<open>What the program relies on\<close>

lemma reach_one_thread: "sched_reach one s \<Longrightarrow> one_thread s = one"
proof (induction rule: sched_reach.induct)
  have d: "one_thread (do_run_one t) = one_thread t" for t
    by (auto simp: do_run_one_def wake_defs split: list.splits)
  case (step s s')
  from step.hyps(2) step.IH show ?case
    by cases (auto simp: d resume_wait_def task_returns_def task_cleanup_def perform_io_cleanup_def
        compensating_work_started_def post_deferred_completions_def work_cleanup_def
        flush_private_def Let_def case_prod_beta split: list.splits)
next
  case (env s s')
  from env.hyps(2) env.IH show ?case
    by cases (auto simp: sched_run_def restart_def init_task_def post_immediate_completion_def
        post_immediate_completions_def do_dispatch_def work_started_def post_deferred_completion_def
        post_deferred_completions_def)
qed (simp add: new_scheduler_def)

text \<open>C38: In every interleaving of threads, handlers run in the order in which they came to the
  queue: those run so far, followed by those in the queue, are all that came. A handler that is
  posted to a context for several threads, and is no continuation, comes to the queue at once, no
  matter which thread posts it.\<close>

theorem scheduler_fifo:
  assumes "sched_reach False s"
  shows "ran s @ posted_ops (op_q s) = arrived s
    \<and> arrived (post_immediate_completion inside (Posted h) False s) = arrived s @ [h]
    \<and> arrived (do_dispatch (Posted h) s) = arrived s @ [h]"
  using fifo_reach [OF assms] reach_one_thread [OF assms]
  by (simp add: fifo_inv_def post_immediate_completion_def do_dispatch_def work_started_def)

text \<open>C39: No wake-up is lost. If there is an operation in the queue, or the scheduler is stopped,
  then a thread in the event has been woken or a notification for it is on its way, and when it
  wakes up it leaves the event; and a thread that the task blocks without a timeout has been
  interrupted.\<close>

theorem scheduler_no_lost_wakeup:
  assumes "sched_reach one s" "op_q s \<noteq> [] \<or> is_stopped s"
  shows "(pc s = In_Event \<longrightarrow> (0 < ev_woken (wakeup_event s) \<or> 0 < ev_signals (wakeup_event s))
      \<and> pc (resume_wait s) \<noteq> In_Event)
    \<and> (pc s = In_Task True \<longrightarrow> poked s)"
proof -
  have i: "event_inv s" "task_inv s" using wake_reach [OF assms(1)] by (auto simp: wake_inv_def)
  have "pc (resume_wait s) \<noteq> In_Event" if e: "pc s = In_Event"
  proof -
    have "odd (ev_state (wakeup_event s))" "ev_state (wakeup_event s) div 2 = 1"
      using i(1) assms(2) e by (auto simp: event_inv_def Let_def)
    then have "ev_state (wakeup_event s) = 3" by presburger
    then have "\<not> snd (wait_resume (wakeup_event s))" by (simp add: event_defs)
    then show ?thesis
      using assms(2) by (auto simp: resume_wait_def case_prod_beta Let_def do_run_one_def split: list.splits)
  qed
  then show ?thesis
    using i assms(2) by (auto simp: event_inv_def task_inv_def Let_def)
qed

text \<open>The count of outstanding work is exact: it is the number of handlers in the queues, of
  asynchronous operations under way and of the handler being completed, less what the thread has
  counted privately. So \<open>run\<close> returns at once, and a completed handler stops the scheduler, exactly
  when nothing is left to do.\<close>

lemma scheduler_work_exact:
  assumes "sched_reach one s"
  shows "outstanding_work s + priv_work s = int (waiting_work s + current_work s)
    \<and> (pc s = Not_Running \<longrightarrow> (pc (sched_run s) = Not_Running \<longleftrightarrow> waiting_work s = 0))
    \<and> (in_handler s \<longrightarrow> (pc (work_cleanup s) = Stopping \<longleftrightarrow> waiting_work s = 0))"
proof -
  have w: "work_inv s" by (rule work_reach [OF assms])
  have "waiting_work s = 0 \<longrightarrow> in_handler s \<longrightarrow> priv_work s = 0"
    using w by (auto simp: work_inv_def waiting_work_def in_handler_def)
  then show ?thesis
    using w by (auto simp: work_inv_def current_work_def sched_run_def in_handler_def work_cleanup_def
        split: runner.splits sop.splits)
qed

text \<open>Every posted handler in the queue of a running scheduler can run: from each reachable
  state the thread in \<open>run\<close>, with no help but pending notifications, comes to the handler, after
  exactly the handlers before it.\<close>

lemma scheduler_runs_handler:
  assumes "sched_reach one s" "\<not> is_stopped s" "pc s \<noteq> Not_Running" "pc s \<noteq> Stopping"
    and "op_q s = xs @ Posted h # ys"
  shows "\<exists>s'. sched_step\<^sup>*\<^sup>* s s' \<and> ran s' = ran s @ posted_ops xs @ [h]"
  using runs_handler [OF assms(5)] assms(1-4) quiet_steps_sched by (fastforce simp: live_def)


text \<open>
  A context with an asynchronous operation under way, whose thread sleeps in the event; then
  another thread posts two handlers. And the thread in the middle of a handler that was posted
  before \<open>run\<close>.
\<close>

definition asleep :: sched where
  "asleep = do_run_one (sched_run ((work_started (new_scheduler False))\<lparr>s_io := 1\<rparr>))"

definition posted_asleep :: sched where
  "posted_asleep = post_immediate_completion False (Posted 8) False
     (post_immediate_completion False (Posted 7) False asleep)"

definition handling :: sched where
  "handling = do_run_one (sched_run (do_dispatch (Posted 7) (new_scheduler False)))"

lemma asleep_reach: "sched_reach False asleep"
proof -
  have "sched_reach False ((work_started (new_scheduler False))\<lparr>s_io := 1\<rparr>)"
    using sched_reach.env [OF sched_reach.new env_step.start_io]
    by (simp add: new_scheduler_def work_started_def)
  then have "sched_reach False (sched_run ((work_started (new_scheduler False))\<lparr>s_io := 1\<rparr>))"
    by (rule sched_reach.env [OF _ env_step.run]) (simp add: new_scheduler_def work_started_def)
  then show ?thesis
    unfolding asleep_def
    by (rule sched_reach.step [OF _ sched_step.lock])
       (simp add: sched_run_def new_scheduler_def work_started_def)
qed

lemma posted_asleep_reach: "sched_reach False posted_asleep"
  unfolding posted_asleep_def by (intro sched_reach.env [OF _ env_step.post] asleep_reach) simp_all

lemma handling_reach: "sched_reach False handling"
proof -
  have "sched_reach False (sched_run (do_dispatch (Posted 7) (new_scheduler False)))"
    by (intro sched_reach.env [OF _ env_step.run] sched_reach.env [OF _ env_step.dispatch]
        sched_reach.new) (simp add: do_dispatch_def work_started_def new_scheduler_def)
  then show ?thesis
    unfolding handling_def
    by (rule sched_reach.step [OF _ sched_step.lock])
       (simp add: sched_run_def do_dispatch_def work_started_def new_scheduler_def)
qed

lemmas sample_defs = asleep_def posted_asleep_def handling_def post_immediate_completion_def
  do_dispatch_def push_ops_def work_started_def sched_run_def do_run_one_def new_scheduler_def
  new_event_def wake_defs event_defs

lemma sample_states:
  "op_q posted_asleep = [Posted 7, Posted 8]" "pc posted_asleep = In_Event"
  "\<not> is_stopped posted_asleep" "ran posted_asleep = []" "arrived posted_asleep = [7, 8]"
  "ev_woken (wakeup_event posted_asleep) = 0"
  "pc handling = Running (Posted 7)" "outstanding_work handling = 1" "priv_work handling = 0"
  by (simp_all add: sample_defs)

theorem scheduler_fifo_witness:
  "sched_reach False posted_asleep
    \<and> arrived (post_immediate_completion True (Posted 9) False posted_asleep) = [7, 8, 9]"
  using scheduler_fifo [OF posted_asleep_reach, of True 9] posted_asleep_reach
  by (simp add: sample_states)

theorem scheduler_no_lost_wakeup_witness:
  "sched_reach False posted_asleep \<and> pc posted_asleep = In_Event
    \<and> 0 < ev_signals (wakeup_event posted_asleep)"
  using scheduler_no_lost_wakeup [OF posted_asleep_reach] posted_asleep_reach
  by (simp add: sample_states)

lemma scheduler_work_exact_example:
  "sched_reach False handling \<and> pc (work_cleanup handling) = Stopping"
proof -
  have "in_handler handling" by (simp add: in_handler_def sample_states)
  moreover have "waiting_work handling = 0"
    using scheduler_work_exact [OF handling_reach]
    by (simp add: current_work_def in_handler_def sample_states)
  ultimately show ?thesis
    using scheduler_work_exact [OF handling_reach] handling_reach by simp
qed

lemma scheduler_runs_handler_example:
  "\<exists>s'. sched_step\<^sup>*\<^sup>* posted_asleep s' \<and> ran s' = [7, 8]"
  using scheduler_runs_handler [OF posted_asleep_reach, of "[Posted 7]" 8 "[]"]
  by (simp add: sample_states)

end
