(* ===== verification/Asio_Event_Loop_Facts.thy ===== *)
theory Asio_Event_Loop_Facts
  imports Asio_Event_Loop Asio_Scheduler_Facts
begin

text \<open>
  What the event loop of \<open>Asio_Event_Loop\<close> guarantees in every interleaving: it is the scheduler of
  \<open>Asio_Scheduler\<close> with exact counts of the operations that wait in the reactor; a descriptor is
  never in two queues; and no readiness is lost, although epoll reports every change once only.
\<close>

section \<open>Descriptors in the queue\<close>

fun descs :: "sop list \<Rightarrow> nat list" where
  "descs [] = []"
| "descs (Descriptor d # os) = d # descs os"
| "descs (x # os) = descs os"

lemma descs_append [simp]: "descs (xs @ ys) = descs xs @ descs ys"
  by (induction xs rule: descs.induct) auto

lemma descs_map [simp]: "descs (map Descriptor ds) = ds" "descs (map Posted hs) = []"
  "descs (map Completed cs) = []"
proof -
  show "descs (map Descriptor ds) = ds" by (induction ds) auto
  show "descs (map Posted hs) = []" by (induction hs) auto
  show "descs (map Completed cs) = []" by (induction cs) auto
qed

lemma set_descs: "d \<in> set (descs os) \<longleftrightarrow> Descriptor d \<in> set os"
  by (induction os rule: descs.induct) auto

text \<open>No descriptor stands behind the task, and the task is there once.\<close>

fun in_order :: "sop list \<Rightarrow> bool" where
  "in_order [] = True"
| "in_order (Task_Op # os) = (descs os = [] \<and> Task_Op \<notin> set os)"
| "in_order (x # os) = in_order os"

lemma in_order_no_task: "Task_Op \<notin> set os \<Longrightarrow> in_order os"
  by (induction os rule: in_order.induct) auto

lemma in_order_push: "in_order os \<Longrightarrow> descs xs = [] \<Longrightarrow> Task_Op \<notin> set xs \<Longrightarrow> in_order (os @ xs)"
  by (induction os rule: in_order.induct) (auto intro: in_order_no_task)

lemma in_order_push_task: "Task_Op \<notin> set os \<Longrightarrow> in_order (os @ [Task_Op])"
  by (induction os rule: in_order.induct) auto

text \<open>The descriptors still to be run, the one at the thread first.\<close>

definition upcoming :: "sched \<Rightarrow> nat list" where
  "upcoming s = (case pc s of Running x \<Rightarrow> descs [x] | _ \<Rightarrow> []) @ descs (op_q s)"

definition queue_ok :: "sched \<Rightarrow> bool" where
  "queue_ok s \<longleftrightarrow> in_order (op_q s) \<and> descs (priv_q s) = [] \<and> Task_Op \<notin> set (priv_q s)
     \<and> (Task_Op \<in> set (op_q s) \<longrightarrow> has_task s)"

definition in_task :: "sched \<Rightarrow> bool" where
  "in_task s \<longleftrightarrow> (case pc s of In_Task b \<Rightarrow> True | _ \<Rightarrow> False)"

definition desc_inv :: "sched \<Rightarrow> bool" where
  "desc_inv s \<longleftrightarrow> queue_ok s \<and> distinct (upcoming s)
     \<and> (in_task s \<longrightarrow> descs (op_q s) = [] \<and> Task_Op \<notin> set (op_q s) \<and> has_task s)"

lemma queue_ok_push:
  assumes "queue_ok s" "descs os = []" "Task_Op \<notin> set os"
  shows "queue_ok (push_ops os s)"
  using assms by (simp add: queue_ok_def in_order_push)

lemma upcoming_do_run_one [simp]: "upcoming (do_run_one s) = descs (op_q s)"
proof (cases "op_q s")
  case (Cons x q)
  then show ?thesis by (cases x) (auto simp: upcoming_def do_run_one_def Let_def)
qed (simp add: upcoming_def do_run_one_def Let_def case_prod_beta)

lemma desc_do_run_one:
  assumes "queue_ok s" "distinct (descs (op_q s))"
  shows "desc_inv (do_run_one s)"
proof -
  have "queue_ok (do_run_one s) \<and> (in_task (do_run_one s) \<longrightarrow> descs (op_q (do_run_one s)) = []
      \<and> Task_Op \<notin> set (op_q (do_run_one s)) \<and> has_task (do_run_one s))"
  proof (cases "op_q s")
    case (Cons x q)
    then show ?thesis
      using assms(1) by (cases x) (auto simp: queue_ok_def in_task_def do_run_one_def Let_def
          intro: in_order_no_task)
  qed (use assms(1) in \<open>auto simp: queue_ok_def in_task_def do_run_one_def Let_def case_prod_beta\<close>)
  with assms(2) show ?thesis by (simp add: desc_inv_def)
qed

text \<open>Steps that only push other operations, or none.\<close>

lemma desc_frame:
  assumes "desc_inv s" "op_q s' = op_q s @ os" "descs os = []" "Task_Op \<notin> set os"
    "descs (priv_q s') = []" "Task_Op \<notin> set (priv_q s')" "has_task s' = has_task s"
    "pc s' = pc s \<or> \<not> in_task s' \<and> (\<forall>d. pc s \<noteq> Running (Descriptor d)) \<and> (\<forall>d. pc s' \<noteq> Running (Descriptor d))"
  shows "desc_inv s' \<and> upcoming s' = upcoming s"
proof -
  have "queue_ok s'" using assms(1-7) by (auto simp: desc_inv_def queue_ok_def in_order_push)
  moreover have u: "upcoming s' = upcoming s"
  proof -
    have n: "descs [x] = []" if "\<forall>d. x \<noteq> Descriptor d" for x using that by (cases x) auto
    show ?thesis
      using assms(2,3,8) by (auto simp: upcoming_def n split: runner.splits)
  qed
  ultimately show ?thesis
    using assms by (auto simp: desc_inv_def in_task_def)
qed

lemma desc_start_run:
  assumes "desc_inv s" "op_q s' = op_q s @ priv_q s" "priv_q s' = []" "has_task s' = has_task s"
    "\<forall>d. pc s \<noteq> Running (Descriptor d)"
  shows "desc_inv (do_run_one s') \<and> upcoming (do_run_one s') = upcoming s"
proof -
  have "descs (op_q s') = upcoming s"
  proof -
    have n: "descs [x] = []" if "\<forall>d. x \<noteq> Descriptor d" for x using that by (cases x) auto
    show ?thesis
      using assms by (auto simp: upcoming_def desc_inv_def queue_ok_def n split: runner.splits)
  qed
  moreover have "queue_ok s'"
    using assms(1-4) by (auto simp: desc_inv_def queue_ok_def in_order_push)
  moreover have "distinct (upcoming s)" using assms(1) by (simp add: desc_inv_def)
  ultimately show ?thesis using desc_do_run_one [of s'] by simp
qed

lemma desc_internal:
  assumes "desc_inv s" "sched_step s s'" "\<not> at_reactor s"
  shows "desc_inv s' \<and> upcoming s' = upcoming s"
proof -
  have q: "descs (priv_q s) = []" "Task_Op \<notin> set (priv_q s)"
    using assms(1) by (simp_all add: desc_inv_def queue_ok_def)
  note frame = desc_frame [OF assms(1), where os = "[]", simplified]
  from assms(2) show ?thesis
  proof cases
    case lock
    then have "queue_ok s" "distinct (descs (op_q s))" "upcoming s = descs (op_q s)"
      using assms(1) by (auto simp: desc_inv_def upcoming_def)
    with lock show ?thesis by (simp add: desc_do_run_one)
  next
    case signal
    show ?thesis unfolding signal(1) by (rule frame) (simp_all add: q)
  next
    case resume
    have "queue_ok s" "distinct (descs (op_q s))" "upcoming s = descs (op_q s)"
      using assms(1) resume(2) by (auto simp: desc_inv_def upcoming_def)
    moreover have "queue_ok (s\<lparr>wakeup_event := e\<rparr>) = queue_ok s" for e by (simp add: queue_ok_def)
    moreover have "desc_inv (s\<lparr>wakeup_event := e\<rparr>) \<and> upcoming (s\<lparr>wakeup_event := e\<rparr>) = upcoming s" for e
      by (rule frame) (simp_all add: q)
    ultimately show ?thesis
      using resume(1) by (auto simp: resume_wait_def case_prod_beta Let_def desc_do_run_one)
  next
    case complete
    show ?thesis
      unfolding complete(1) by (rule frame) (use q complete(2) in \<open>auto simp: work_cleanup_def
        in_task_def in_handler_def split: runner.splits sop.splits\<close>)
  next
    case finish
    show ?thesis unfolding finish(1) by (rule frame) (use q finish(2) in \<open>auto simp: in_task_def\<close>)
  next
    case flush
    have "desc_inv (do_run_one ((push_ops (priv_q s) s)\<lparr>priv_q := []\<rparr>))
      \<and> upcoming (do_run_one ((push_ops (priv_q s) s)\<lparr>priv_q := []\<rparr>)) = upcoming s"
      by (rule desc_start_run [OF assms(1)]) (use flush in auto)
    moreover have "desc_inv (s\<lparr>pc := Wants_Lock\<rparr>) \<and> upcoming (s\<lparr>pc := Wants_Lock\<rparr>) = upcoming s"
      by (rule frame) (use q flush(2) in \<open>auto simp: in_task_def\<close>)
    ultimately show ?thesis unfolding flush(1) flush_private_def by simp
  qed (use assms(3) in \<open>auto simp: at_reactor_def\<close>)
qed

lemma Task_Op_map [simp]: "Task_Op \<notin> set (map Posted hs)" "Task_Op \<notin> set (map Completed cs)"
  "Task_Op \<notin> set (map Descriptor ds)"
  by auto

lemma desc_init:
  assumes "desc_inv s"
  shows "desc_inv (init_task s) \<and> upcoming (init_task s) = upcoming s"
proof (cases "\<not> is_shutdown s \<and> \<not> has_task s")
  case True
  have t: "Task_Op \<notin> set (op_q s)" "\<not> in_task s" "queue_ok s" "distinct (upcoming s)"
    using assms True by (auto simp: desc_inv_def queue_ok_def)
  then have i: "init_task s = wake_one_thread_and_unlock (push_ops [Task_Op] (s\<lparr>has_task := True\<rparr>))"
    "\<not> in_task (init_task s)"
    using True by (simp_all add: init_task_def in_task_def)
  then have "queue_ok (init_task s)" "upcoming (init_task s) = upcoming s"
    using t by (auto simp: queue_ok_def upcoming_def in_order_push_task split: runner.splits)
  then show ?thesis using t i(2) by (simp add: desc_inv_def)
qed (use assms in \<open>auto simp: init_task_def\<close>)

lemma desc_deferreds:
  assumes "desc_inv s"
  shows "desc_inv (post_deferred_completions inside (map Completed cs) (s\<lparr>s_io := n\<rparr>))
    \<and> upcoming (post_deferred_completions inside (map Completed cs) (s\<lparr>s_io := n\<rparr>)) = upcoming s"
proof -
  have q: "descs (priv_q s) = []" "Task_Op \<notin> set (priv_q s)"
    using assms by (simp_all add: desc_inv_def queue_ok_def)
  show ?thesis
  proof (cases "cs = [] \<or> one_thread s \<and> inside")
    case True
    then show ?thesis
      using q by (intro desc_frame [OF assms, where os = "[]"]) (auto simp: post_deferred_completions_def)
  next
    case False
    then show ?thesis
      using q by (intro desc_frame [OF assms, where os = "map Completed cs"])
        (auto simp: post_deferred_completions_def)
  qed
qed

lemma desc_env:
  assumes "desc_inv s" "env_step s s'"
  shows "desc_inv s' \<and> upcoming s' = upcoming s"
proof -
  have q: "descs (priv_q s) = []" "Task_Op \<notin> set (priv_q s)"
    using assms(1) by (simp_all add: desc_inv_def queue_ok_def)
  note frame = desc_frame [OF assms(1), where os = "[]", simplified]
  from assms(2) show ?thesis
  proof cases
    case run
    show ?thesis unfolding run(1)
      by (rule frame) (use q run(2) in \<open>auto simp: sched_run_def in_task_def\<close>)
  next
    case restart
    show ?thesis unfolding restart(1) by (rule frame) (use q in \<open>auto simp: restart_def\<close>)
  next
    case init
    then show ?thesis using desc_init [OF assms(1)] by simp
  next
    case spurious
    show ?thesis unfolding spurious(1) by (rule frame) (simp_all add: q)
  next
    case (post inside h cont)
    show ?thesis
    proof (cases "(one_thread s \<or> cont) \<and> inside")
      case True
      then show ?thesis
        using post q by (intro frame) (simp_all add: post_immediate_completion_def)
    next
      case False
      then show ?thesis
        using post q by (intro desc_frame [OF assms(1), where os = "[Posted h]"])
          (simp_all add: post_immediate_completion_def work_started_def)
    qed
  next
    case (posts inside hs cont)
    show ?thesis
    proof (cases "(one_thread s \<or> cont) \<and> inside")
      case True
      then show ?thesis
        using posts q by (intro frame) (auto simp: post_immediate_completions_def)
    next
      case False
      then show ?thesis
        using posts q by (intro desc_frame [OF assms(1), where os = "map Posted hs"])
          (auto simp: post_immediate_completions_def)
    qed
  next
    case (dispatch h)
    then show ?thesis
      using q by (intro desc_frame [OF assms(1), where os = "[Posted h]"])
        (simp_all add: do_dispatch_def work_started_def)
  next
    case start_io
    show ?thesis unfolding start_io(1) by (rule frame) (simp_all add: q work_started_def)
  next
    case (deferred inside c)
    show ?thesis
    proof (cases "one_thread s \<and> inside")
      case True
      then show ?thesis
        using deferred q by (intro frame) (simp_all add: post_deferred_completion_def)
    next
      case False
      then show ?thesis
        using deferred q by (intro desc_frame [OF assms(1), where os = "[Completed c]"])
          (simp_all add: post_deferred_completion_def)
    qed
  next
    case (deferreds inside cs)
    then show ?thesis using desc_deferreds [OF assms(1)] by simp
  next
    case stop
    show ?thesis unfolding stop(1) by (rule frame) (simp_all add: q)
  qed
qed

end
