(* ===== verification/Asio_World.thy ===== *)
theory Asio_World
  imports Asio_Event_Loop_Facts Asio_Reactor_Facts
begin

unbundle bit_operations_syntax

text \<open>
  The whole event loop of \<open>Asio_Event_Loop\<close>: what each call does to a descriptor, what a round of
  the task does to the queues, and the invariant \<open>world_inv\<close>, by which the loop refines the
  scheduler and the counts of waiting operations are exact.
\<close>

section \<open>Descriptors\<close>

lemma or_zero: "a OR b = 0 \<longleftrightarrow> a = 0 \<and> b = 0" for a b :: "'a::len word"
  by (auto simp: bit_eq_iff bit_or_iff)

lemma watched_or: "watched (d\<lparr>registered_events := e OR m\<rparr>) t
    \<longleftrightarrow> watched (d\<lparr>registered_events := e\<rparr>) t \<or> watched (d\<lparr>registered_events := m\<rparr>) t"
  by (simp add: watched_def word_ao_dist or_zero)

lemma io_flag_simps: "io_flag epoll_read_op = EPOLLIN" "io_flag epoll_write_op = EPOLLOUT"
  "io_flag except_op = EPOLLPRI"
  by (simp_all add: io_flag_def op_types)

lemma less_max_ops: "t < max_ops \<longleftrightarrow> t = epoll_read_op \<or> t = epoll_write_op \<or> t = except_op"
  by (auto simp: op_types)

lemma up_to_max_ops: "[0 ..< max_ops] = [0, 1, 2]"
  by (simp add: max_ops_def upt_rec)

definition waiting_in :: "descriptor_state \<Rightarrow> nat" where
  "waiting_in d = length (d_queue d 0) + length (d_queue d 1) + length (d_queue d 2)"

text \<open>A descriptor watches for what its operations wait for.\<close>

definition desc_ok :: "descriptor_state \<Rightarrow> bool" where
  "desc_ok d \<longleftrightarrow> (registered_events d = 0 \<or> watched d epoll_read_op \<and> watched d except_op)
     \<and> (\<forall>t. d_queue d t \<noteq> [] \<longrightarrow> t < max_ops \<and> watched d t \<and> \<not> d_shutdown d)"

lemma desc_ok_allocated [simp]: "desc_ok (allocated s)" "waiting_in (allocated s) = 0"
  by (simp_all add: desc_ok_def allocated_def waiting_in_def)

lemma perform_loop_length:
  "perform_loop pf q spec = (cs, q', spec') \<Longrightarrow> length q = length cs + length q'"
  using perform_loop_ids [of pf q spec cs q' spec'] by (metis length_append length_map)

text \<open>What \<open>perform_io\<close> does to each type.\<close>

definition io_result :: "performer \<Rightarrow> event_mask \<Rightarrow> descriptor_state \<Rightarrow> op_type \<Rightarrow> reactor_op list \<times> bool" where
  "io_result pf m d t = (if t < max_ops \<and> hits m t then snd (perform_loop pf (d_queue d t) True)
     else (d_queue d t, try_speculative d t))"

lemma perform_type_simps:
  assumes "perform_type pf m t (d, cs) = (d', cs')"
  shows "registered_events d' = registered_events d" "d_shutdown d' = d_shutdown d"
    "(d_queue d' t, try_speculative d' t) = (if hits m t then snd (perform_loop pf (d_queue d t) True)
       else (d_queue d t, try_speculative d t))"
    "u \<noteq> t \<Longrightarrow> d_queue d' u = d_queue d u" "u \<noteq> t \<Longrightarrow> try_speculative d' u = try_speculative d u"
    "length cs' + length (d_queue d' t) = length cs + length (d_queue d t)"
  using assms perform_loop_length [of pf "d_queue d t" True]
  by (auto simp: perform_type_def hits_def split: prod.splits if_splits)

lemma perform_io_simps:
  assumes "perform_io pf m d = (d', cs)"
  shows "registered_events d' = registered_events d" "d_shutdown d' = d_shutdown d"
    "(d_queue d' t, try_speculative d' t) = io_result pf m d t"
    "length cs + waiting_in d' = waiting_in d"
proof -
  obtain d2 c2 where p2: "perform_type pf m 2 (d, []) = (d2, c2)" by (metis surj_pair)
  obtain d1 c1 where p1: "perform_type pf m 1 (d2, c2) = (d1, c1)" by (metis surj_pair)
  have p0: "perform_type pf m 0 (d1, c1) = (d', cs)"
    using assms unfolding perform_io_def p2 p1 .
  note s2 = perform_type_simps [OF p2] and s1 = perform_type_simps [OF p1]
    and s0 = perform_type_simps [OF p0]
  show "registered_events d' = registered_events d" "d_shutdown d' = d_shutdown d"
    using s2(1,2) s1(1,2) s0(1,2) by simp_all
  show "length cs + waiting_in d' = waiting_in d"
    using s2(4,6) s1(4,6) s0(4,6) by (simp add: waiting_in_def)
  consider "t = 0" | "t = 1" | "t = 2" | "\<not> t < max_ops"
    by (auto simp: max_ops_def numeral_3_eq_3 numeral_2_eq_2 less_Suc_eq)
  then show "(d_queue d' t, try_speculative d' t) = io_result pf m d t"
  proof cases
    case 1
    then show ?thesis using s2(3-5) s1(3-5) s0(3-5) by (simp add: io_result_def max_ops_def)
  next
    case 2
    then show ?thesis using s2(3-5) s1(3-5) s0(3-5) by (simp add: io_result_def max_ops_def)
  next
    case 3
    then show ?thesis using s2(3-5) s1(3-5) s0(3-5) by (simp add: io_result_def max_ops_def)
  next
    case 4
    then show ?thesis using s2(4,5) s1(4,5) s0(4,5) by (simp add: io_result_def max_ops_def)
  qed
qed

text \<open>After the attempts, what is left over or exhausted waits for a socket that is not ready.\<close>

lemma attempts_missed: "attempts pf q k k' \<Longrightarrow> snd k \<Longrightarrow> snd k'"
  by (induction rule: attempts.induct) auto

lemma attempts_loop:
  "attempts pf q k k' \<Longrightarrow> perform_loop pf q True = (cs, q', spec)
    \<Longrightarrow> q' \<noteq> [] \<or> \<not> spec \<Longrightarrow> fst k' \<Longrightarrow> snd k'"
proof (induction arbitrary: cs q' spec rule: attempts.induct)
  case (finished x r q r' m k)
  then show ?case by (fastforce split: prod.splits)
next
  case (would_block x r m m' q)
  then show ?case by (auto split: prod.splits)
next
  case (exhausted x r r' m m' q)
  then show ?case by auto
qed simp

lemma attempts_leave:
  assumes "attempts pf (d_queue d t) k k'" "perform_io pf m d = (d', cs)" "t < max_ops" "hits m t"
    "d_queue d' t \<noteq> [] \<or> \<not> try_speculative d' t" "fst k'"
  shows "snd k'"
proof -
  obtain cs1 q spec where p: "perform_loop pf (d_queue d t) True = (cs1, q, spec)"
    by (cases "perform_loop pf (d_queue d t) True")
  then have "d_queue d' t = q" "try_speculative d' t = spec"
    using perform_io_simps(3) [OF assms(2), of t] assms(3,4) by (simp_all add: io_result_def)
  then show ?thesis using attempts_loop [OF assms(1) p] assms(5,6) by blast
qed

lemma desc_ok_io:
  assumes "desc_ok d" "perform_io pf m d = (d', cs)"
  shows "desc_ok d'"
proof -
  have "d_queue d t \<noteq> []" if "d_queue d' t \<noteq> []" for t
  proof -
    obtain cs1 q spec where p: "perform_loop pf (d_queue d t) True = (cs1, q, spec)"
      by (cases "perform_loop pf (d_queue d t) True")
    then show ?thesis
      using perform_io_simps(3) [OF assms(2), of t] that perform_loop_length [OF p]
      by (auto simp: io_result_def split: if_splits)
  qed
  then show ?thesis
    using assms(1) perform_io_simps(1,2) [OF assms(2)] by (auto simp: desc_ok_def watched_def)
qed

text \<open>What starting an operation does.\<close>

definition needs :: "descriptor_state \<Rightarrow> op_type \<Rightarrow> bool" where
  "needs d t \<longleftrightarrow> (d_queue d t \<noteq> [] \<or> \<not> try_speculative d t) \<and> watched d t \<and> \<not> d_shutdown d"

lemma start_op_some: "\<exists>d' eff. start_op t (Some d) x allow pf ctl = (Some d', eff)"
  by (simp add: start_op_def Let_def case_prod_beta split: option.splits)

lemma start_op_frame:
  assumes "start_op t (Some d) x allow pf ctl = (Some d', eff)"
  shows "u \<noteq> t \<Longrightarrow> d_queue d' u = d_queue d u" "u \<noteq> t \<Longrightarrow> try_speculative d' u = try_speculative d u"
    "d_shutdown d' = d_shutdown d"
    "\<not> rearms t d x allow pf ctl \<Longrightarrow> registered_events d' = registered_events d"
  using assms
  by (auto simp: start_op_def push_op_def rearms_def Let_def case_prod_beta split: if_splits option.splits)

lemma start_op_needs:
  assumes "start_op t (Some d) x allow pf ctl = (Some d', eff)" "\<not> rearms t d x allow pf ctl" "needs d' t"
  shows "needs d t \<or> speculates t d allow \<and> fst (perform pf x) \<noteq> Done"
  using assms
  by (auto simp: start_op_def push_op_def rearms_def needs_def speculates_def watched_def Let_def
      case_prod_beta split: if_splits option.splits)

lemma start_op_waiting:
  assumes "start_op t (Some d) x allow pf ctl = (Some d', eff)" "t < max_ops"
  shows "waiting_in d' = waiting_in d + (if eff = Queued then 1 else 0)"
  using assms(1)
proof (cases rule: start_op_cases)
  case (later y)
  have "t = 0 \<or> t = 1 \<or> t = 2" using assms(2) by (auto simp: max_ops_def)
  then show ?thesis using later by (auto simp: waiting_in_def)
qed (simp add: waiting_in_def)

lemma desc_ok_start:
  assumes "desc_ok d" "start_op t (Some d) x allow pf ctl = (Some d', eff)" "t < max_ops"
  shows "desc_ok d'"
proof -
  have w: "watched d u \<longrightarrow> watched d' u" "registered_events d = 0 \<longrightarrow> registered_events d' = 0" for u
    using assms(2) by (auto simp: start_op_def push_op_def watched_def word_ao_dist or_zero Let_def
        case_prod_beta split: if_splits option.splits)
  have "watched d' t \<and> \<not> d_shutdown d" if "d_queue d' t \<noteq> d_queue d t"
  proof (cases "d_queue d t = []")
    case True
    then show ?thesis
    proof (cases "t = epoll_write_op")
      case False
      with True that assms w(1) [of t] show ?thesis
        by (auto simp: start_op_def desc_ok_def less_max_ops Let_def
          case_prod_beta split: if_splits option.splits)
    qed (use assms(2) that in \<open>auto simp: start_op_def push_op_def watched_def word_ao_dist or_zero
        io_flag_simps EPOLLOUT_def Let_def case_prod_beta split: if_splits option.splits\<close>)
  qed (use assms(1) w(1) in \<open>auto simp: desc_ok_def\<close>)
  then show ?thesis
    using assms(1,3) w start_op_frame(1,3) [OF assms(2)]
    unfolding desc_ok_def by metis
qed

lemma attempts_single:
  assumes "attempts pf [x] k k'" "fst (perform pf x) \<noteq> Done" "fst k'"
  shows "snd k'"
  using assms by cases auto

text \<open>What the three ways to cancel do.\<close>

definition cancels :: "descriptor_state \<Rightarrow> descriptor_state option \<times> reactor_op list \<Rightarrow> bool" where
  "cancels d res \<longleftrightarrow> (case fst res of
     Some d' \<Rightarrow> desc_ok d' \<and> length (snd res) + waiting_in d' = waiting_in d
       \<and> (\<forall>t. needs d' t \<longrightarrow> needs d t) \<and> (d_shutdown d \<longrightarrow> d_shutdown d')
   | None \<Rightarrow> snd res = [])"

lemma cancels_cancel_ops: "desc_ok d \<Longrightarrow> cancels d (cancel_ops (Some d))"
  by (auto simp: cancels_def cancel_ops_def desc_ok_def waiting_in_def needs_def watched_def up_to_max_ops)

lemma cancels_deregister:
  assumes "desc_ok d"
  shows "cancels d (deregister_descriptor (Some d))"
proof -
  have "d_queue d t = []" if "t \<noteq> 0" "t \<noteq> 1" "t \<noteq> 2" for t
    using assms that by (auto simp: desc_ok_def max_ops_def)
  with assms show ?thesis
    by (auto simp: cancels_def deregister_descriptor_def desc_ok_def waiting_in_def needs_def
      watched_def up_to_max_ops split: if_splits)
qed

lemma cancels_by_key:
  assumes "desc_ok d" "t < max_ops"
  shows "cancels d (cancel_ops_by_key (Some d) t key)"
proof -
  define d' where "d' = d\<lparr>d_queue := (d_queue d)(t := filter (\<lambda>x. ro_key x \<noteq> key) (d_queue d t))\<rparr>"
  have q: "d_queue d' u = (if u = t then filter (\<lambda>x. ro_key x \<noteq> key) (d_queue d t) else d_queue d u)" for u
    by (simp add: d'_def)
  have n: "d_queue d' u \<noteq> [] \<longrightarrow> d_queue d u \<noteq> []" for u by (auto simp: q)
  have l: "length (filter (\<lambda>x. ro_key x = key) (d_queue d t)) + length (d_queue d' t) = length (d_queue d t)"
    by (simp add: q sum_length_filter_compl)
  have "t = 0 \<or> t = 1 \<or> t = 2" using assms(2) by (auto simp: max_ops_def)
  then have w: "length (filter (\<lambda>x. ro_key x = key) (d_queue d t)) + waiting_in d' = waiting_in d"
    using l q by (auto simp: waiting_in_def)
  have f: "registered_events d' = registered_events d" "try_speculative d' = try_speculative d"
    "d_shutdown d' = d_shutdown d"
    by (simp_all add: d'_def)
  have r: "cancel_ops_by_key (Some d) t key = (Some d', map aborted (filter (\<lambda>x. ro_key x = key) (d_queue d t)))"
    by (simp add: cancel_ops_by_key_def d'_def)
  show ?thesis
    using assms(1) n w f unfolding r cancels_def desc_ok_def needs_def watched_def by auto
qed

section \<open>The counts of the world\<close>

definition pool_ok :: "pool \<Rightarrow> bool" where
  "pool_ok p \<longleftrightarrow> distinct (p_live p @ p_free p) \<and> (\<forall>i \<in> set (p_live p @ p_free p). i < p_created p)"

lemma pool_ok_alloc:
  assumes "pool_ok p" "pool_alloc p = (i, p')"
  shows "pool_ok p'" "p_live p' = i # p_live p" "i \<notin> set (p_live p)"
  using assms by (auto simp: pool_ok_def pool_alloc_def less_Suc_eq split: list.splits)

lemma pool_ok_free: "pool_ok p \<Longrightarrow> i \<in> set (p_live p) \<Longrightarrow> pool_ok (pool_free i p)"
  by (auto simp: pool_ok_def pool_free_def)

definition io_total :: "world \<Rightarrow> nat" where
  "io_total w = (\<Sum>i \<leftarrow> p_live (w_pool w). waiting_in (w_desc w i))"

text \<open>The scheduler is in a state it could reach alone, and counts what waits in the descriptors.\<close>

definition world_inv :: "bool \<Rightarrow> world \<Rightarrow> bool" where
  "world_inv one w \<longleftrightarrow> sched_reach one (w_sched w) \<and> desc_inv (w_sched w) \<and> pool_ok (w_pool w)
     \<and> (\<forall>i. desc_ok (w_desc w i)) \<and> (\<forall>i. i \<notin> set (p_live (w_pool w)) \<longrightarrow> waiting_in (w_desc w i) = 0)
     \<and> s_io (w_sched w) = io_total w"

lemma total_upd:
  fixes f :: "nat \<Rightarrow> descriptor_state"
  assumes "distinct is"
  shows "(\<Sum>j \<leftarrow> is. waiting_in ((f(i := d)) j)) + (if i \<in> set is then waiting_in (f i) else 0)
    = (\<Sum>j \<leftarrow> is. waiting_in (f j)) + (if i \<in> set is then waiting_in d else 0)"
  using assms by (induction "is") (auto split: if_splits)

lemma waiting_le_total: "i \<in> set is \<Longrightarrow> waiting_in (f i) \<le> (\<Sum>j \<leftarrow> is. waiting_in (f j))"
  by (induction "is") auto

text \<open>A descriptor changes, and the scheduler counts the difference.\<close>

lemma world_inv_desc:
  assumes "world_inv one w" "i \<in> set (p_live (w_pool w)) \<or> waiting_in d = 0" "desc_ok d"
    "sched_reach one s'" "desc_inv s'" "s_io s' + waiting_in (w_desc w i) = s_io (w_sched w) + waiting_in d"
    "w_sched w' = s'" "w_desc w' = (w_desc w)(i := d)" "w_pool w' = w_pool w"
  shows "world_inv one w'"
proof -
  have d: "distinct (p_live (w_pool w))" using assms(1) by (simp add: world_inv_def pool_ok_def)
  have "s_io s' = io_total w'"
    using total_upd [OF d, of "w_desc w" i d] assms(1,2,6,8,9)
    by (auto simp: world_inv_def io_total_def split: if_splits)
  then show ?thesis using assms by (auto simp: world_inv_def)
qed

text \<open>Only the scheduler changes, and what only the kernel knows.\<close>

lemma world_inv_sched:
  assumes "world_inv one w" "sched_reach one s'" "desc_inv s'" "s_io s' = s_io (w_sched w)"
    "w_sched w' = s'" "w_desc w' = w_desc w" "w_pool w' = w_pool w"
  shows "world_inv one w'"
  using assms by (auto simp: world_inv_def io_total_def)

lemma do_run_one_io [simp]: "s_io (do_run_one s) = s_io s"
  by (auto simp: do_run_one_def wake_defs split: list.splits)

lemma internal_io: "sched_step s s' \<Longrightarrow> \<not> at_reactor s \<Longrightarrow> s_io s' = s_io s"
  by (cases rule: sched_step.cases)
     (auto simp: resume_wait_def work_cleanup_def flush_private_def at_reactor_def Let_def
       case_prod_beta)

section \<open>A round of the task\<close>

definition reported :: "epoll_event list \<Rightarrow> nat list" where
  "reported evs = concat (map (\<lambda>e. case ee_ptr e of Of_Descriptor i \<Rightarrow> [i] | _ \<Rightarrow> []) evs)"

lemma reported_simps [simp]: "reported [] = []"
  "reported (e # es) = (case ee_ptr e of Of_Descriptor i \<Rightarrow> [i] | _ \<Rightarrow> []) @ reported es"
  by (simp_all add: reported_def)

lemma set_reported: "i \<in> set (reported evs) \<longleftrightarrow> Of_Descriptor i \<in> ee_ptr ` set evs"
  by (induction evs) (auto split: event_source.splits)

lemma distinct_reported: "distinct (map ee_ptr evs) \<Longrightarrow> distinct (reported evs)"
  by (induction evs) (auto simp: set_reported split: event_source.splits)

text \<open>Where no descriptor is in the other queue, \<open>is_enqueued\<close> sees only the queue of the round.\<close>

lemma not_enqueued:
  assumes "descs q = []" "i \<notin> set ds"
  shows "\<not> is_enqueued [q] (Descriptor i) (map Descriptor ds)"
proof -
  have "Descriptor i \<notin> set q" using assms(1) set_descs [of i q] by simp
  moreover have "Descriptor i \<notin> set (map Descriptor ds)" using assms(2) by auto
  ultimately have "\<not> has_next (Descriptor i) q" "\<not> has_next (Descriptor i) (map Descriptor ds)"
    unfolding has_next_def by (meson in_set_butlastD)+
  moreover have "last (map Descriptor ds) \<noteq> Descriptor i" if "map Descriptor ds \<noteq> []"
    using last_in_set [OF that] \<open>Descriptor i \<notin> set (map Descriptor ds)\<close> by metis
  ultimately show ?thesis unfolding is_enqueued_def list.set by blast
qed

fun stored :: "epoll_event list \<Rightarrow> (nat \<Rightarrow> event_mask) \<Rightarrow> nat \<Rightarrow> event_mask" where
  "stored [] res = res"
| "stored (e # es) res = stored es (case ee_ptr e of Of_Descriptor i \<Rightarrow> res(i := ee_events e) | _ \<Rightarrow> res)"

lemma stored_other: "i \<notin> set (reported evs) \<Longrightarrow> stored evs res i = res i"
  by (induction evs arbitrary: res) (auto split: event_source.splits)

lemma stored_event:
  "distinct (map ee_ptr evs) \<Longrightarrow> e \<in> set evs \<Longrightarrow> ee_ptr e = Of_Descriptor i \<Longrightarrow> stored evs res i = ee_events e"
  by (induction evs arbitrary: res) (auto simp: stored_other set_reported rev_image_eqI)

lemma dispatch_fresh:
  "descs q = [] \<Longrightarrow> distinct (map ee_ptr evs) \<Longrightarrow> set ds \<inter> set (reported evs) = {}
    \<Longrightarrow> \<exists>c'. dispatch_events [q] timer_fd evs (map Descriptor ds, res, c)
      = (map Descriptor (ds @ reported evs), stored evs res, c')"
proof (induction evs arbitrary: ds res c)
  case (Cons e evs)
  show ?case
  proof (cases "ee_ptr e")
    case (Of_Descriptor j)
    have j: "j \<notin> set ds" "j \<notin> set (reported evs)"
      using Cons.prems Of_Descriptor by (auto simp: set_reported)
    have e: "dispatch_event [q] timer_fd e (map Descriptor ds, res, c)
        = (map Descriptor (ds @ [j]), res(j := ee_events e), c)"
      using not_enqueued [OF Cons.prems(1) j(1)] Of_Descriptor by (simp add: dispatch_event_def)
    have "set (ds @ [j]) \<inter> set (reported evs) = {}" "distinct (map ee_ptr evs)"
      using Cons.prems j Of_Descriptor by auto
    then show ?thesis
      using Cons.IH [OF Cons.prems(1), of "ds @ [j]" "res(j := ee_events e)" c] e Of_Descriptor
      by (simp add: fun_upd_def)
  qed (use Cons in \<open>simp_all add: dispatch_event_def\<close>)
qed simp

lemma report_round:
  assumes "descs (op_q (w_sched w)) = []" "priv_q (w_sched w) = []" "distinct (map ee_ptr evs)"
  shows "w_sched (world_report timer_fd evs w) = task_returns (map Descriptor (reported evs)) (w_sched w)"
    "e \<in> set evs \<Longrightarrow> ee_ptr e = Of_Descriptor i \<Longrightarrow> w_result (world_report timer_fd evs w) i = ee_events e"
    "i \<notin> set (reported evs) \<Longrightarrow> w_result (world_report timer_fd evs w) i = w_result w i"
    "w_edge (world_report timer_fd evs w) i t \<longleftrightarrow> w_edge w i t \<and> i \<notin> set (reported evs)"
    "w_desc (world_report timer_fd evs w) = w_desc w" "w_pool (world_report timer_fd evs w) = w_pool w"
    "w_ready (world_report timer_fd evs w) = w_ready w" "w_missed (world_report timer_fd evs w) = w_missed w"
proof -
  let ?s = "w_sched w"
  let ?r = "stored evs (w_result w)"
  obtain c' where r: "dispatch_events [op_q ?s] timer_fd evs ([], w_result w, timer_fd = -1)
      = (map Descriptor (reported evs), ?r, c')"
    using dispatch_fresh [OF assms(1,3), of "[]" timer_fd "w_result w" "timer_fd = -1"] by auto
  have rr: "reactor_run [op_q ?s] timer_fd [] evs (priv_q ?s, w_result w) = (map Descriptor (reported evs), ?r)"
    using r by (simp add: reactor_run_def assms(2))
  note d = world_report_def Let_def rr prod.case
  show "w_sched (world_report timer_fd evs w) = task_returns (map Descriptor (reported evs)) ?s"
    unfolding d task_returns_def by (simp add: assms(2))
  show "w_result (world_report timer_fd evs w) i = ee_events e" if "e \<in> set evs" "ee_ptr e = Of_Descriptor i"
    unfolding d using stored_event [OF assms(3)] that by simp
  show "w_result (world_report timer_fd evs w) i = w_result w i" if "i \<notin> set (reported evs)"
    unfolding d using stored_other that by simp
  show "w_edge (world_report timer_fd evs w) i t \<longleftrightarrow> w_edge w i t \<and> i \<notin> set (reported evs)"
    unfolding d by (simp add: set_reported)
qed (simp_all add: world_report_def Let_def case_prod_beta)

lemma in_task_iff: "in_task s \<longleftrightarrow> (\<exists>b. pc s = In_Task b)"
  by (auto simp: in_task_def split: runner.splits)

lemma desc_task_returns:
  assumes "desc_inv s" "in_task s" "priv_q s = []" "distinct ds"
  shows "desc_inv (task_returns (map Descriptor ds) s)" "upcoming (task_returns (map Descriptor ds) s) = ds"
proof -
  define t where "t = task_cleanup (s\<lparr>priv_q := priv_q s @ map Descriptor ds, poked := False\<rparr>)"
  have q: "op_q t = (op_q s @ map Descriptor ds) @ [Task_Op]" "priv_q t = []" "has_task t = has_task s"
    by (simp_all add: t_def task_cleanup_def Let_def assms(3))
  have "descs (op_q s) = []" "Task_Op \<notin> set (op_q s)" "has_task s"
    using assms(1,2) by (simp_all add: desc_inv_def)
  moreover have "in_order (op_q t)"
    unfolding q(1) by (rule in_order_push_task) (use calculation in auto)
  ultimately have "queue_ok t" "descs (op_q t) = ds" using q by (auto simp: queue_ok_def)
  then show "desc_inv (task_returns (map Descriptor ds) s)"
    "upcoming (task_returns (map Descriptor ds) s) = ds"
    using desc_do_run_one [of t] assms(4) by (simp_all add: task_returns_def t_def)
qed

lemma desc_io:
  assumes "desc_inv s" "pc s = Running (Descriptor i)"
  shows "desc_inv (perform_io_cleanup cs (s\<lparr>s_io := n\<rparr>))"
    "upcoming s = i # upcoming (perform_io_cleanup cs (s\<lparr>s_io := n\<rparr>))"
proof -
  let ?s = "perform_io_cleanup cs (s\<lparr>s_io := n\<rparr>)"
  have q: "queue_ok s" "upcoming s = i # descs (op_q s)" "distinct (upcoming s)"
    using assms by (simp_all add: desc_inv_def upcoming_def)
  obtain os where os: "op_q ?s = op_q s @ os" "descs os = []" "Task_Op \<notin> set os" "has_task ?s = has_task s"
    "descs (priv_q ?s) = []" "Task_Op \<notin> set (priv_q ?s)" "\<forall>b. pc ?s \<noteq> In_Task b"
    "\<forall>d. pc ?s \<noteq> Running (Descriptor d)"
  proof (cases cs)
    case Nil
    then show ?thesis
      using that [of "[]"] q(1) by (simp add: perform_io_cleanup_def compensating_work_started_def queue_ok_def)
  next
    case (Cons c cs')
    show ?thesis
    proof (cases "cs' = [] \<or> one_thread s")
      case True
      then show ?thesis
        using that [of "[]"] q(1) Cons
        by (cases "cs' = []")
           (simp_all add: perform_io_cleanup_def post_deferred_completions_def queue_ok_def del: set_map)
    next
      case False
      then show ?thesis
        using that [of "map Completed cs'"] q(1) Cons
        by (simp add: perform_io_cleanup_def post_deferred_completions_def queue_ok_def del: set_map)
    qed
  qed
  have "descs [x] = []" if "\<forall>d. x \<noteq> Descriptor d" for x using that by (cases x) auto
  then have u: "upcoming ?s = descs (op_q s)"
    using os(1,2,8) by (auto simp: upcoming_def split: runner.splits)
  then show "upcoming s = i # upcoming ?s" using q(2) by simp
  show "desc_inv ?s"
    using q u os by (auto simp: desc_inv_def queue_ok_def in_task_iff in_order_push)
qed

lemma io_io [simp]: "s_io (perform_io_cleanup cs s) = s_io s"
  by (auto simp: perform_io_cleanup_def post_deferred_completions_def compensating_work_started_def
      split: list.splits)

lemma task_returns_io [simp]: "s_io (task_returns os s) = s_io s"
  by (simp add: task_returns_def task_cleanup_def Let_def)

section \<open>The counts are exact\<close>

lemma world_task:
  assumes "world_inv one w" "pc (w_sched w) = In_Task b"
  shows "descs (op_q (w_sched w)) = []" "priv_q (w_sched w) = []" "upcoming (w_sched w) = []"
    "Task_Op \<notin> set (op_q (w_sched w))"
proof -
  have i: "desc_inv (w_sched w)" "sched_reach one (w_sched w)" using assms(1) by (simp_all add: world_inv_def)
  then show d: "descs (op_q (w_sched w)) = []" "Task_Op \<notin> set (op_q (w_sched w))"
    using assms(2) by (simp_all add: desc_inv_def in_task_iff)
  show "priv_q (w_sched w) = []" using work_invD(2) [OF work_reach [OF i(2)]] assms(2) by auto
  show "upcoming (w_sched w) = []" using d assms(2) by (simp add: upcoming_def)
qed

lemma world_loop:
  assumes "world_inv one w" "loop_step timer_fd w w'"
  shows "world_inv one w'"
proof -
  have i: "sched_reach one (w_sched w)" "desc_inv (w_sched w)" "\<forall>i. desc_ok (w_desc w i)"
    using assms(1) by (simp_all add: world_inv_def)
  from assms(2) show ?thesis
  proof cases
    case signal
    have st: "sched_step (w_sched w) ((w_sched w)\<lparr>wakeup_event := deliver_signal (wakeup_event (w_sched w))\<rparr>)"
      by (rule sched_step.signal [OF signal(2)])
    show ?thesis
      unfolding signal(1)
      by (rule world_inv_sched [OF assms(1) sched_reach.step [OF i(1) st]])
         (use i(2) in \<open>auto simp: desc_inv_def queue_ok_def upcoming_def in_task_def\<close>)
  next
    case (internal s')
    show ?thesis
      unfolding internal(1)
      by (rule world_inv_sched [OF assms(1) sched_reach.step [OF i(1) internal(3)]])
         (use internal(2,3) desc_internal [OF i(2)] internal_io in auto)
  next
    case (report b evs)
    have d: "distinct (map ee_ptr evs)" using report(3) by (simp add: reportable_def)
    note r = report_round [OF world_task(1,2) [OF assms(1) report(2)] d]
    have "sched_step (w_sched w) (task_returns (map Descriptor (reported evs)) (w_sched w))"
      using sched_step.task [OF report(2), of "[]" "reported evs"] by simp
    then show ?thesis
      unfolding report(1)
      by (intro world_inv_sched [OF assms(1) sched_reach.step [OF i(1)]])
         (use r i(2) report(2) world_task(2) [OF assms(1) report(2)] distinct_reported [OF d] in
          \<open>auto simp: in_task_iff intro: desc_task_returns(1)\<close>)
  next
    case (io j pf r m)
    obtain d cs where p: "perform_io pf (w_result w j) (w_desc w j) = (d, cs)"
      by (cases "perform_io pf (w_result w j) (w_desc w j)")
    note s = perform_io_simps [OF p]
    have le: "length cs \<le> s_io (w_sched w)"
    proof (cases "j \<in> set (p_live (w_pool w))")
      case True
      then show ?thesis
        using waiting_le_total [OF True, of "w_desc w"] s(4) assms(1)
        by (simp add: world_inv_def io_total_def)
    next
      case False
      then have "waiting_in (w_desc w j) = 0" using assms(1) by (simp add: world_inv_def)
      then show ?thesis using s(4) by simp
    qed
    let ?s = "perform_io_cleanup (map ro_id cs) ((w_sched w)\<lparr>s_io := s_io (w_sched w) - length cs\<rparr>)"
    have "sched_step (w_sched w) ?s"
      using sched_step.io [OF io(2), of "map ro_id cs"] le by simp
    moreover have "j \<in> set (p_live (w_pool w)) \<or> waiting_in d = 0"
      using assms(1) s(4) by (auto simp: world_inv_def)
    ultimately show ?thesis
      unfolding io(1)
      by (intro world_inv_desc [OF assms(1), where i = j and d = d and s' = ?s] sched_reach.step [OF i(1)])
         (use desc_io(1) [OF i(2) io(2)] desc_ok_io [OF _ p] i(3) s(4) le in
          \<open>auto simp: world_io_def p Let_def\<close>)
  qed
qed

lemma world_start_inv:
  assumes "world_inv one w" "inside \<longrightarrow> in_handler (w_sched w)" "i \<in> set (p_live (w_pool w))" "t < max_ops"
  shows "world_inv one (world_start inside cont i t x allow pf ctl w)"
    "upcoming (w_sched (world_start inside cont i t x allow pf ctl w)) = upcoming (w_sched w)"
proof -
  have i: "sched_reach one (w_sched w)" "desc_inv (w_sched w)" "\<forall>i. desc_ok (w_desc w i)"
    using assms(1) by (simp_all add: world_inv_def)
  obtain d eff where st: "start_op t (Some (w_desc w i)) x allow pf ctl = (Some d, eff)"
    using start_op_some by blast
  define s' where "s' = (case eff of
      Immediate y \<Rightarrow> post_immediate_completion inside (Posted (ro_id y)) cont (w_sched w)
    | Queued \<Rightarrow> (work_started (w_sched w))\<lparr>s_io := s_io (w_sched w) + 1\<rparr>)"
  have e: "env_step (w_sched w) s'"
    using env_step.post [OF assms(2)] env_step.start_io [of "w_sched w"]
    by (auto simp: s'_def split: start_effect.splits)
  have io: "s_io s' = s_io (w_sched w) + (if eff = Queued then 1 else 0)"
    by (auto simp: s'_def post_immediate_completion_def work_started_def split: start_effect.splits)
  have w: "world_start inside cont i t x allow pf ctl w = w\<lparr>w_desc := (w_desc w)(i := d), w_sched := s'\<rparr>"
    by (simp add: world_start_def st s'_def)
  show "world_inv one (world_start inside cont i t x allow pf ctl w)"
    unfolding w
    by (rule world_inv_desc [OF assms(1), where i = i and d = d and s' = s'])
       (use assms(3) desc_ok_start [OF _ st assms(4)] i(3) sched_reach.env [OF i(1) e] desc_env [OF i(2) e]
          io start_op_waiting [OF st assms(4)] in auto)
  show "upcoming (w_sched (world_start inside cont i t x allow pf ctl w)) = upcoming (w_sched w)"
    unfolding w using desc_env [OF i(2) e] by simp
qed

lemma world_cancel_inv:
  assumes "world_inv one w" "inside \<longrightarrow> in_handler (w_sched w)" "i \<in> set (p_live (w_pool w))"
    "cancels (w_desc w i) res"
  shows "world_inv one (world_cancel inside i res w)"
    "upcoming (w_sched (world_cancel inside i res w)) = upcoming (w_sched w)"
proof -
  have i: "sched_reach one (w_sched w)" "desc_inv (w_sched w)"
    using assms(1) by (simp_all add: world_inv_def)
  define d where "d = (case fst res of Some d \<Rightarrow> d | None \<Rightarrow> w_desc w i)"
  define s' where "s' = post_completions inside (snd res) (w_sched w)"
  have c: "length (snd res) + waiting_in d = waiting_in (w_desc w i)" "desc_ok d"
    using assms(1,4) by (auto simp: cancels_def d_def world_inv_def split: option.splits)
  have le: "length (snd res) \<le> s_io (w_sched w)"
    using waiting_le_total [OF assms(3), of "w_desc w"] c(1) assms(1)
    by (simp add: world_inv_def io_total_def)
  have e: "env_step (w_sched w) s'"
    using env_step.deferreds [OF assms(2), of "map ro_id (snd res)"] le
    by (simp add: s'_def post_completions_def)
  have io: "s_io s' + length (snd res) = s_io (w_sched w)"
    using le by (simp add: s'_def post_completions_def post_deferred_completions_def)
  have w: "world_cancel inside i res w = w\<lparr>w_desc := (w_desc w)(i := d), w_sched := s'\<rparr>"
    by (auto simp: world_cancel_def d_def s'_def split: option.splits)
  show "world_inv one (world_cancel inside i res w)"
    unfolding w
    by (rule world_inv_desc [OF assms(1), where i = i and d = d and s' = s'])
       (use assms(3) c io sched_reach.env [OF i(1) e] desc_env [OF i(2) e] in auto)
  show "upcoming (w_sched (world_cancel inside i res w)) = upcoming (w_sched w)"
    unfolding w using desc_env [OF i(2) e] by simp
qed

lemma register_ok:
  assumes "snd (register_descriptor fd ctl) = None"
  shows "desc_ok (fst (register_descriptor fd ctl))" "waiting_in (fst (register_descriptor fd ctl)) = 0"
    "d_queue (fst (register_descriptor fd ctl)) t = []" "try_speculative (fst (register_descriptor fd ctl)) t"
  using assms
  by (auto simp: register_descriptor_def allocated_def desc_ok_def waiting_in_def watched_def io_flag_simps
      word_ao_dist or_zero EPOLLIN_def EPOLLPRI_def Let_def split: option.splits if_splits)

lemma world_register_inv:
  assumes "world_inv one w" "snd (register_descriptor fd ctl) = None"
  shows "world_inv one (world_register fd r ctl w)"
proof -
  obtain i p where a: "pool_alloc (w_pool w) = (i, p)" by (cases "pool_alloc (w_pool w)")
  define d where "d = fst (register_descriptor fd ctl)"
  note d = register_ok(1,2) [OF assms(2), folded d_def]
  have i: "pool_ok p" "p_live p = i # p_live (w_pool w)" "i \<notin> set (p_live (w_pool w))"
    using pool_ok_alloc [OF _ a] assms(1) by (auto simp: world_inv_def)
  have "distinct (p_live (w_pool w))" using assms(1) by (simp add: world_inv_def pool_ok_def)
  from total_upd [OF this, of "w_desc w" i d]
  have "io_total (world_register fd r ctl w) = io_total w"
    using d(2) i(2,3) by (simp add: io_total_def world_register_def a d_def [symmetric])
  then show ?thesis
    using assms(1) i d by (auto simp: world_inv_def world_register_def a d_def [symmetric])
qed

lemma world_cleanup_inv:
  assumes "world_inv one w" "i \<in> set (p_live (w_pool w))" "d_shutdown (w_desc w i)"
  shows "world_inv one (w\<lparr>w_pool := pool_free i (w_pool w)\<rparr>)"
proof -
  have z: "waiting_in (w_desc w i) = 0"
    using assms(1,3) by (auto simp: world_inv_def desc_ok_def waiting_in_def)
  have "distinct (p_live (w_pool w))" using assms(1) by (simp add: world_inv_def pool_ok_def)
  then have "set (p_live (pool_free i (w_pool w))) = set (p_live (w_pool w)) - {i}"
    by (simp add: pool_free_def)
  moreover have "io_total (w\<lparr>w_pool := pool_free i (w_pool w)\<rparr>) = io_total w"
    using sum_list_map_remove1 [OF assms(2), of "\<lambda>i. waiting_in (w_desc w i)"] z
    by (simp add: io_total_def pool_free_def)
  ultimately show ?thesis
    using assms z pool_ok_free [OF _ assms(2)] by (auto simp: world_inv_def)
qed

lemma world_env_inv:
  assumes "world_inv one w" "world_env w w'"
  shows "world_inv one w'"
proof -
  have i: "sched_reach one (w_sched w)" "desc_inv (w_sched w)" "\<forall>i. desc_ok (w_desc w i)"
    using assms(1) by (simp_all add: world_inv_def)
  have k: "world_inv one v" if "w_sched v = w_sched u" "w_desc v = w_desc u" "w_pool v = w_pool u"
    "world_inv one u" for u v
    using that by (simp add: world_inv_def io_total_def)
  from assms(2) show ?thesis
  proof cases
    case (sched s')
    show ?thesis
      unfolding sched(1)
      by (rule world_inv_sched [OF assms(1) sched_reach.env [OF i(1) sched(2)]])
         (use sched(3) desc_env [OF i(2) sched(2)] in auto)
  next
    case (register fd ctl r)
    then show ?thesis using world_register_inv [OF assms(1)] by simp
  next
    case (start inside j t allow pf x r m w1 cont ctl)
    have "world_inv one (world_start inside cont j t x allow pf ctl w)"
      by (rule world_start_inv(1) [OF assms(1) start(2-4)])
    then have "world_inv one w1" by (rule k [rotated -1]) (simp_all add: start(6))
    moreover have "world_inv one (rearmed j w1)"
      by (rule k [OF _ _ _ calculation]) (simp_all add: rearmed_def)
    ultimately show ?thesis unfolding start(1) by simp
  next
    case (cancel inside j)
    then show ?thesis using world_cancel_inv(1) [OF assms(1)] cancels_cancel_ops i(3) by simp
  next
    case (by_key inside j t key)
    then show ?thesis using world_cancel_inv(1) [OF assms(1)] cancels_by_key i(3) by simp
  next
    case (deregister inside j)
    then show ?thesis using world_cancel_inv(1) [OF assms(1)] cancels_deregister i(3) by simp
  next
    case (cleanup j)
    then show ?thesis using world_cleanup_inv [OF assms(1)] by simp
  qed (rule k [OF _ _ _ assms(1)]; simp)+
qed

lemma desc_inv_new: "desc_inv (new_scheduler one)"
  by (simp add: desc_inv_def queue_ok_def upcoming_def in_task_def new_scheduler_def)

lemma world_reach_inv: "world_reach one timer_fd w \<Longrightarrow> world_inv one w"
proof (induction rule: world_reach.induct)
  case new
  show ?case
    using desc_inv_new [of one] sched_reach.new [of one]
    by (simp add: world_inv_def new_world_def pool_ok_def new_pool_def io_total_def)
       (simp add: new_scheduler_def)
qed (auto intro: world_loop world_env_inv)

end
