(* ===== verification/Asio_Readiness.thy ===== *)
theory Asio_Readiness
  imports Asio_World
begin

text \<open>
  No readiness is lost: an operation that waits for a socket which is ready is always on its way to
  be performed, although epoll reports each change once. And what the event loop guarantees, with
  a sample of a read that waits.
\<close>

section \<open>No readiness is lost\<close>

text \<open>
  An operation that waits (or one that will not be tried at once) on a socket that is ready: epoll has
  an event to report, or the descriptor is on its way to be run with an event that reaches the type.
\<close>

definition aware :: "world \<Rightarrow> bool" where
  "aware w \<longleftrightarrow> (\<forall>i t. t < max_ops \<and> needs (w_desc w i) t \<and> w_ready w i t \<and> \<not> w_missed w i t
     \<longrightarrow> w_edge w i t \<or> (i \<in> set (upcoming (w_sched w)) \<and> hits (w_result w i) t))"

lemma awareD:
  "aware w \<Longrightarrow> t < max_ops \<Longrightarrow> needs (w_desc w i) t \<Longrightarrow> w_ready w i t \<Longrightarrow> \<not> w_missed w i t
    \<Longrightarrow> w_edge w i t \<or> (i \<in> set (upcoming (w_sched w)) \<and> hits (w_result w i) t)"
  by (simp add: aware_def)

lemma aware_frame:
  assumes "aware w" "upcoming (w_sched w') = upcoming (w_sched w)" "w_result w' = w_result w"
    and "\<And>i t. t < max_ops \<Longrightarrow> needs (w_desc w' i) t \<Longrightarrow> w_ready w' i t \<Longrightarrow> \<not> w_missed w' i t
      \<Longrightarrow> w_edge w' i t \<or> needs (w_desc w i) t \<and> w_ready w i t \<and> \<not> w_missed w i t
        \<and> (w_edge w i t \<longrightarrow> w_edge w' i t)"
  shows "aware w'"
  unfolding aware_def
proof (intro allI impI)
  fix i t
  assume a: "t < max_ops \<and> needs (w_desc w' i) t \<and> w_ready w' i t \<and> \<not> w_missed w' i t"
  then have "w_edge w' i t \<or> needs (w_desc w i) t \<and> w_ready w i t \<and> \<not> w_missed w i t
        \<and> (w_edge w i t \<longrightarrow> w_edge w' i t)" using assms(4) by blast
  then show "w_edge w' i t \<or> (i \<in> set (upcoming (w_sched w')) \<and> hits (w_result w' i) t)"
    using awareD [OF assms(1), of t i] a assms(2,3) by auto
qed

lemma aware_report:
  assumes "aware w" "world_inv one w" "pc (w_sched w) = In_Task b" "reportable evs w"
  shows "aware (world_report timer_fd evs w)"
  unfolding aware_def
proof (intro allI impI)
  let ?w = "world_report timer_fd evs w"
  have d: "distinct (map ee_ptr evs)" using assms(4) by (simp add: reportable_def)
  note r = report_round [OF world_task(1,2) [OF assms(2,3)] d]
  have "upcoming (w_sched ?w) = reported evs"
    unfolding r(1)
    by (rule desc_task_returns(2))
       (use assms(2,3) world_task(2) [OF assms(2,3)] distinct_reported [OF d] in \<open>auto simp: world_inv_def in_task_iff\<close>)
  note u = this
  fix i t
  assume a: "t < max_ops \<and> needs (w_desc ?w i) t \<and> w_ready ?w i t \<and> \<not> w_missed ?w i t"
  then have e: "w_edge w i t"
    using awareD [OF assms(1), of t i] world_task(3) [OF assms(2,3)] by (simp add: r(5,7,8))
  show "w_edge ?w i t \<or> (i \<in> set (upcoming (w_sched ?w)) \<and> hits (w_result ?w i) t)"
  proof (cases "i \<in> set (reported evs)")
    case True
    then obtain ev where ev: "ev \<in> set evs" "ee_ptr ev = Of_Descriptor i"
      by (auto simp: set_reported)
    then have "hits (ee_events ev) t"
      using assms(4) a e by (auto simp: reportable_def r(5,7) needs_def)
    then show ?thesis using True u r(2) [OF ev] by simp
  qed (use e in \<open>simp add: r(4)\<close>)
qed

lemma aware_io:
  assumes "aware w" "world_inv one w" "pc (w_sched w) = Running (Descriptor j)"
    and at: "\<forall>t < max_ops. if hits (w_result w j) t
          then attempts pf (d_queue (w_desc w j) t) (w_ready w j t, w_missed w j t) (r t, m t)
          else r t = w_ready w j t \<and> m t = w_missed w j t"
  shows "aware ((world_io pf j w)\<lparr>w_ready := (w_ready w)(j := r), w_missed := (w_missed w)(j := m)\<rparr>)"
proof -
  obtain d cs where p: "perform_io pf (w_result w j) (w_desc w j) = (d, cs)"
    by (cases "perform_io pf (w_result w j) (w_desc w j)")
  let ?s = "perform_io_cleanup (map ro_id cs) ((w_sched w)\<lparr>s_io := s_io (w_sched w) - length cs\<rparr>)"
  let ?w = "(world_io pf j w)\<lparr>w_ready := (w_ready w)(j := r), w_missed := (w_missed w)(j := m)\<rparr>"
  have w: "?w = w\<lparr>w_desc := (w_desc w)(j := d), w_sched := ?s, w_ready := (w_ready w)(j := r),
      w_missed := (w_missed w)(j := m)\<rparr>"
    by (simp add: world_io_def p Let_def)
  have u: "upcoming (w_sched w) = j # upcoming ?s"
    using desc_io(2) [OF _ assms(3)] assms(2) by (simp add: world_inv_def)
  show ?thesis
    unfolding aware_def w
  proof (intro allI impI, goal_cases)
    case (1 i t)
    show ?case
    proof (cases "i = j")
      case False
      then show ?thesis using 1 awareD [OF assms(1), of t i] u by auto
    next
      case True
      have nr: "needs d t" "r t" "\<not> m t" "t < max_ops" using 1 True by auto
      have no: "\<not> hits (w_result w j) t"
        using at nr attempts_leave [OF _ p, of t "(w_ready w j t, w_missed w j t)" "(r t, m t)"]
        by (auto simp: needs_def)
      then have "d_queue d t = d_queue (w_desc w j) t" "try_speculative d t = try_speculative (w_desc w j) t"
        using perform_io_simps(3) [OF p, of t] by (simp_all add: io_result_def)
      then have "needs (w_desc w j) t"
        using nr(1) perform_io_simps(1,2) [OF p] by (simp add: needs_def watched_def)
      then show ?thesis
        using awareD [OF assms(1), of t j] at nr no True by auto
    qed
  qed
qed

lemma aware_start:
  assumes "aware w" "world_inv one w" "inside \<longrightarrow> in_handler (w_sched w)" "j \<in> set (p_live (w_pool w))"
    "t < max_ops"
    and at: "if speculates t (w_desc w j) allow then attempts pf [x] (w_ready w j t, w_missed w j t) (r, m)
       else r = w_ready w j t \<and> m = w_missed w j t"
    and w1: "w1 = (world_start inside cont j t x allow pf ctl w)
          \<lparr>w_ready := upd (w_ready w) j t r, w_missed := upd (w_missed w) j t m\<rparr>"
  shows "aware (if rearms t (w_desc w j) x allow pf ctl then rearmed j w1 else w1)"
proof -
  obtain d eff where st: "start_op t (Some (w_desc w j)) x allow pf ctl = (Some d, eff)"
    using start_op_some by blast
  have f: "w_desc w1 = (w_desc w)(j := d)" "w_edge w1 = w_edge w" "w_result w1 = w_result w"
    "w_ready w1 = upd (w_ready w) j t r" "w_missed w1 = upd (w_missed w) j t m"
    by (simp_all add: w1 world_start_def st)
  have u: "upcoming (w_sched w1) = upcoming (w_sched w)"
    using world_start_inv(2) [OF assms(2-5)] by (simp add: w1)
  show ?thesis
  proof (cases "rearms t (w_desc w j) x allow pf ctl")
    case True
    have "aware (rearmed j w1)"
      by (rule aware_frame [OF assms(1)])
         (auto simp: rearmed_def f u upd_def needs_def split: if_splits)
    with True show ?thesis by simp
  next
    case False
    have n: "r \<longrightarrow> m" if "speculates t (w_desc w j) allow" "fst (perform pf x) \<noteq> Done"
      using attempts_single [of pf x _ "(r, m)"] at that by auto
    have sub: "r \<longrightarrow> w_ready w j t" "w_missed w j t \<longrightarrow> m"
    proof -
      show "w_missed w j t \<longrightarrow> m" using at attempts_missed by (fastforce split: if_splits)
      show "r \<longrightarrow> w_ready w j t" using at by (auto split: if_splits elim: attempts.cases)
    qed
    have "needs (w_desc w j) v" if "needs d v" "v \<noteq> t" for v
      using that start_op_frame [OF st] False by (simp add: needs_def watched_def)
    moreover have "needs (w_desc w j) t" if "needs d t" "r" "\<not> m"
      using start_op_needs [OF st False that(1)] n that(2,3) by blast
    ultimately have "aware w1"
      using sub by (intro aware_frame [OF assms(1)]) (auto simp: f u upd_def split: if_splits)
    with False show ?thesis by simp
  qed
qed

lemma aware_cancel:
  assumes "aware w" "world_inv one w" "inside \<longrightarrow> in_handler (w_sched w)" "j \<in> set (p_live (w_pool w))"
    "cancels (w_desc w j) res"
  shows "aware (world_cancel inside j res w)"
proof -
  have "needs (w_desc w i) t" if "needs (w_desc (world_cancel inside j res w) i) t" for i t
    using assms(5) that by (auto simp: world_cancel_def cancels_def split: option.splits if_splits)
  then show ?thesis
    by (intro aware_frame [OF assms(1) world_cancel_inv(2) [OF assms(2-5)]]) (auto simp: world_cancel_def)
qed

lemma aware_register:
  assumes "aware w" "snd (register_descriptor fd ctl) = None"
  shows "aware (world_register fd r ctl w)"
proof -
  obtain i p where a: "pool_alloc (w_pool w) = (i, p)" by (cases "pool_alloc (w_pool w)")
  have "\<not> needs (fst (register_descriptor fd ctl)) t" for t
    using register_ok(3,4) [OF assms(2)] by (simp add: needs_def)
  then show ?thesis
    by (intro aware_frame [OF assms(1)]) (auto simp: world_register_def a Let_def split: if_splits)
qed

lemma aware_loop:
  assumes "aware w" "world_inv one w" "loop_step timer_fd w w'"
  shows "aware w'"
  using assms(3)
proof cases
  case signal
  show ?thesis unfolding signal(1) by (rule aware_frame [OF assms(1)]) (auto simp: upcoming_def)
next
  case (internal s')
  have "desc_inv (w_sched w)" using assms(2) by (simp add: world_inv_def)
  then show ?thesis
    unfolding internal(1)
    by (intro aware_frame [OF assms(1)]) (use desc_internal [OF _ internal(3,2)] in auto)
next
  case (report b evs)
  then show ?thesis using aware_report [OF assms(1,2)] by simp
next
  case (io j pf r m)
  then show ?thesis using aware_io [OF assms(1,2) io(2,3)] by simp
qed

lemma aware_env:
  assumes "aware w" "world_inv one w" "world_env w w'"
  shows "aware w'"
proof -
  have d: "\<forall>i. desc_ok (w_desc w i)" using assms(2) by (simp add: world_inv_def)
  note frame = aware_frame [OF assms(1)]
  from assms(3) show ?thesis
  proof cases
    case (sched s')
    have "desc_inv (w_sched w)" using assms(2) by (simp add: world_inv_def)
    then show ?thesis
      unfolding sched(1) by (intro frame) (use desc_env [OF _ sched(2)] in auto)
  next
    case (register fd ctl r)
    then show ?thesis using aware_register [OF assms(1)] by simp
  next
    case (start inside j t allow pf x r m w1 cont ctl)
    show ?thesis unfolding start(1) by (rule aware_start [OF assms(1,2) start(2-6)])
  next
    case (cancel inside j)
    then show ?thesis using aware_cancel [OF assms(1,2)] cancels_cancel_ops d by simp
  next
    case (by_key inside j t key)
    then show ?thesis using aware_cancel [OF assms(1,2)] cancels_by_key d by simp
  next
    case (deregister inside j)
    then show ?thesis using aware_cancel [OF assms(1,2)] cancels_deregister d by simp
  next
    case (cleanup j)
    show ?thesis unfolding cleanup(1) by (rule frame) auto
  next
    case (arrive j t)
    show ?thesis unfolding arrive by (rule frame) (auto simp: upd_def needs_def split: if_splits)
  next
    case (recede j t)
    show ?thesis unfolding recede by (rule frame) (auto simp: upd_def split: if_splits)
  next
    case (notice j t)
    show ?thesis unfolding notice by (rule frame) (auto simp: upd_def split: if_splits)
  next
    case (forget j t)
    show ?thesis unfolding forget(1) by (rule frame) (use forget(2) in \<open>auto simp: upd_def split: if_splits\<close>)
  qed
qed

lemma world_reach_aware: "world_reach one timer_fd w \<Longrightarrow> aware w"
proof (induction rule: world_reach.induct)
  case new
  show ?case by (simp add: aware_def new_world_def)
qed (auto intro: aware_loop aware_env world_reach_inv)

section \<open>What the event loop guarantees\<close>

text \<open>C37: The event loop, with its reactor, descriptors and kernel, refines the scheduler: whatever
  happens, the scheduler is in a state that it can reach by its own steps, and its count of
  outstanding work is the number of handlers in its queues, of operations that wait in the queues
  of registered descriptors, and of the handler being completed.\<close>

theorem event_loop_refines_scheduler:
  assumes "world_reach one timer_fd w"
  shows "sched_reach one (w_sched w)
    \<and> outstanding_work (w_sched w) + priv_work (w_sched w)
      = int (length (filter is_work (op_q (w_sched w))) + length (filter is_work (priv_q (w_sched w)))
          + (\<Sum>i \<leftarrow> p_live (w_pool w). waiting_in (w_desc w i)) + current_work (w_sched w))"
proof -
  have i: "sched_reach one (w_sched w)" "s_io (w_sched w) = io_total w"
    using world_reach_inv [OF assms] by (simp_all add: world_inv_def)
  then show ?thesis
    using work_reach [OF i(1)] by (simp add: work_inv_def waiting_work_def io_total_def)
qed

text \<open>A descriptor is never in two queues: when the reactor runs, no descriptor is in a queue of
  the scheduler, so \<open>is_enqueued\<close>, which reads the one pointer through which operations are linked,
  tells exactly what the current round has queued; and a descriptor that waits for its turn is
  there once.\<close>

lemma descriptor_queued_once:
  assumes "world_reach one timer_fd w"
  shows "distinct (upcoming (w_sched w))
    \<and> (in_task (w_sched w) \<longrightarrow> descs (op_q (w_sched w) @ priv_q (w_sched w)) = []
      \<and> (is_enqueued [op_q (w_sched w)] (Descriptor i) (map Descriptor ds) \<longleftrightarrow> i \<in> set ds))"
proof -
  have w: "world_inv one w" by (rule world_reach_inv [OF assms])
  have "is_enqueued [q] (Descriptor i) (map Descriptor ds)" if "i \<in> set ds" for q
  proof -
    have "Descriptor i \<in> set (map Descriptor ds)" using that by auto
    then have "map Descriptor ds \<noteq> [] \<and> (Descriptor i \<in> set (butlast (map Descriptor ds))
        \<or> last (map Descriptor ds) = Descriptor i)"
      by (metis append_butlast_last_id empty_iff empty_set in_set_conv_decomp set_ConsD set_append Un_iff)
    then show ?thesis unfolding is_enqueued_def has_next_def list.set by blast
  qed
  then show ?thesis
    using w world_task(1,2) [OF w] not_enqueued [of "op_q (w_sched w)" i ds]
    by (auto simp: world_inv_def desc_inv_def in_task_iff)
qed

text \<open>C35: No readiness is lost. Suppose an operation waits in a descriptor for a socket that is
  ready, and since the last event for its direction no other operation has given up while the socket
  was ready. (A read that ends at the end of the stream, or an accept of a connection that is aborted,
  does give up so: epoll says nothing more, and a later operation waits for the next event.) Then
  epoll has an event to report for it, though it reports each change once, or the descriptor is on
  its way to be run, with an event that makes it perform the operation. In particular, while the
  thread is in the reactor, epoll has the event.\<close>

theorem no_readiness_lost:
  assumes "world_reach one timer_fd w" "x \<in> set (d_queue (w_desc w i) t)"
    and "w_ready w i t" "\<not> w_missed w i t"
  shows "(w_edge w i t \<or> i \<in> set (upcoming (w_sched w)) \<and> hits (w_result w i) t)
    \<and> (in_task (w_sched w) \<longrightarrow> w_edge w i t)"
proof -
  have w: "world_inv one w" by (rule world_reach_inv [OF assms(1)])
  then have "desc_ok (w_desc w i)" by (simp add: world_inv_def)
  moreover have "d_queue (w_desc w i) t \<noteq> []" using assms(2) by auto
  ultimately have "t < max_ops" "needs (w_desc w i) t" by (simp_all add: desc_ok_def needs_def)
  then show ?thesis
    using awareD [OF world_reach_aware [OF assms(1)]] assms(3,4) world_task(3) [OF w]
    by (auto simp: in_task_iff)
qed

text \<open>
  A socket is registered, a read finds nothing and waits, the thread enters the reactor, and then
  bytes arrive.
\<close>

definition read_7 :: reactor_op where
  "read_7 = new_reactor_op 7 0"

definition world_registered :: world where
  "world_registered = world_register 5 (\<lambda>t. False) None
     ((new_world False)\<lparr>w_sched := init_task (new_scheduler False)\<rparr>)"

definition world_waiting :: world where
  "world_waiting = (let w = world_registered in
     (world_start False False 0 epoll_read_op read_7 True waits None w)
       \<lparr>w_ready := upd (w_ready w) 0 epoll_read_op False, w_missed := upd (w_missed w) 0 epoll_read_op False\<rparr>)"

definition world_running :: world where
  "world_running = world_waiting\<lparr>w_sched := do_run_one (sched_run (w_sched world_waiting))\<rparr>"

definition world_arrived :: world where
  "world_arrived = (let w = world_running in w\<lparr>w_ready := upd (w_ready w) 0 epoll_read_op True,
     w_edge := upd (w_edge w) 0 epoll_read_op (w_edge w 0 epoll_read_op \<or> watched (w_desc w 0) epoll_read_op),
     w_missed := upd (w_missed w) 0 epoll_read_op
       (w_missed w 0 epoll_read_op \<and> \<not> watched (w_desc w 0) epoll_read_op)\<rparr>)"

lemmas sample_world_defs = world_registered_def world_waiting_def world_running_def world_arrived_def
  read_7_def new_world_def new_pool_def world_register_def pool_alloc_def register_descriptor_def
  allocated_def world_start_def start_op_def push_op_def perform_def waits_def new_reactor_op_def
  upd_def Let_def

lemma sample_registered:
  "w_pool world_registered = \<lparr>p_live = [0], p_free = [], p_created = 1\<rparr>"
  "d_queue (w_desc world_registered 0) = (\<lambda>t. [])" "try_speculative (w_desc world_registered 0) = (\<lambda>t. True)"
  "\<not> d_shutdown (w_desc world_registered 0)"
  "w_ready world_registered 0 = (\<lambda>t. False)" "w_missed world_registered 0 = (\<lambda>t. False)"
  "w_edge world_registered 0 = (\<lambda>t. False)" "registered_events (w_desc world_registered 0) \<noteq> 0"
  "watched (w_desc world_registered 0) epoll_read_op"
  "w_sched world_registered = init_task (new_scheduler False)"
  by (simp_all add: sample_world_defs watched_def io_flag_simps EPOLLIN_def EPOLLERR_def EPOLLHUP_def
      EPOLLPRI_def EPOLLET_def)

lemma sample_waiting:
  "d_queue (w_desc world_waiting 0) = (\<lambda>t. [])(0 := [read_7\<lparr>ro_ec := Some Would_Block\<rparr>])"
  "w_sched world_waiting = (work_started (init_task (new_scheduler False)))\<lparr>s_io := 1\<rparr>"
  "watched (w_desc world_waiting 0) epoll_read_op" "w_edge world_waiting 0 = (\<lambda>t. False)"
  "w_missed world_waiting 0 = (\<lambda>t. False)" "p_live (w_pool world_waiting) = [0]"
proof -
  have st: "start_op epoll_read_op (Some (w_desc world_registered 0)) read_7 True waits None
    = (Some (push_op epoll_read_op (read_7\<lparr>ro_ec := Some Would_Block\<rparr>) (w_desc world_registered 0)), Queued)"
    using sample_registered
    by (simp add: start_op_def perform_def waits_def op_types read_7_def new_reactor_op_def)
  let ?d = "push_op epoll_read_op (read_7\<lparr>ro_ec := Some Would_Block\<rparr>) (w_desc world_registered 0)"
    and ?s = "w_sched world_registered"
  have w: "world_waiting = world_registered\<lparr>w_desc := (w_desc world_registered)(0 := ?d),
      w_sched := (work_started ?s)\<lparr>s_io := s_io ?s + 1\<rparr>,
      w_ready := upd (w_ready world_registered) 0 epoll_read_op False,
      w_missed := upd (w_missed world_registered) 0 epoll_read_op False\<rparr>"
    unfolding world_waiting_def Let_def world_start_def st by simp
  have "s_io (init_task (new_scheduler False)) = 0" by (simp add: init_task_def new_scheduler_def)
  then show "d_queue (w_desc world_waiting 0) = (\<lambda>t. [])(0 := [read_7\<lparr>ro_ec := Some Would_Block\<rparr>])"
    "w_sched world_waiting = (work_started (init_task (new_scheduler False)))\<lparr>s_io := 1\<rparr>"
    "watched (w_desc world_waiting 0) epoll_read_op" "w_edge world_waiting 0 = (\<lambda>t. False)"
    "w_missed world_waiting 0 = (\<lambda>t. False)" "p_live (w_pool world_waiting) = [0]"
    using sample_registered
    by (simp_all add: w push_op_def epoll_read_op_def watched_def upd_def fun_eq_iff)
qed

lemma sample_arrived:
  "d_queue (w_desc world_arrived 0) = (\<lambda>t. [])(0 := [read_7\<lparr>ro_ec := Some Would_Block\<rparr>])"
  "pc (w_sched world_arrived) = In_Task True" "w_ready world_arrived 0 0" "\<not> w_missed world_arrived 0 0"
  "has_task (w_sched world_arrived)" "\<not> is_stopped (w_sched world_arrived)"
  "in_task (w_sched world_arrived)" "op_q (w_sched world_arrived) = []" "priv_q (w_sched world_arrived) = []"
  "p_live (w_pool world_arrived) = [0]"
  using sample_waiting
  by (simp_all add: world_arrived_def world_running_def upd_def Let_def epoll_read_op_def sched_run_def
      do_run_one_def work_started_def init_task_def new_scheduler_def push_ops_def new_event_def wake_defs
      event_defs in_task_def)

lemma world_arrived_reach: "world_reach False 3 world_arrived"
proof -
  have "world_reach False 3 ((new_world False)\<lparr>w_sched := init_task (new_scheduler False)\<rparr>)"
  proof (rule world_reach.env [OF world_reach.new world_env.sched])
    show "env_step (w_sched (new_world False)) (init_task (new_scheduler False))"
      by (simp add: new_world_def env_step.init)
    show "s_io (init_task (new_scheduler False)) = s_io (w_sched (new_world False))"
      by (simp add: new_world_def init_task_def new_scheduler_def)
  qed
  then have "world_reach False 3 world_registered"
    unfolding world_registered_def
    by (rule world_reach.env [OF _ world_env.register]) (simp add: register_descriptor_def Let_def)
  then have "world_reach False 3 world_waiting"
  proof (rule world_reach.env)
    have "\<not> rearms epoll_read_op (w_desc world_registered 0) read_7 True waits None"
      using sample_registered by (simp add: rearms_def op_types)
    moreover have "attempts waits [read_7] (False, False) (False, False)"
      by (rule attempts.would_block) (simp_all add: perform_def waits_def)
    ultimately show "world_env world_registered world_waiting"
      using world_env.start [of False world_registered 0 epoll_read_op True waits read_7 False False
          world_waiting False None] sample_registered(1,5,6)
      by (simp add: world_waiting_def Let_def op_types)
  qed
  then have "world_reach False 3 (world_waiting\<lparr>w_sched := sched_run (w_sched world_waiting)\<rparr>)"
  proof (rule world_reach.env [OF _ world_env.sched])
    show "env_step (w_sched world_waiting) (sched_run (w_sched world_waiting))"
      by (rule env_step.run)
         (simp add: sample_waiting(2) work_started_def init_task_def new_scheduler_def)
  qed (simp add: sched_run_def)
  then have "world_reach False 3 world_running"
  proof (rule world_reach.step)
    let ?w = "world_waiting\<lparr>w_sched := sched_run (w_sched world_waiting)\<rparr>"
    have "pc (w_sched ?w) = Wants_Lock"
      by (simp add: sample_waiting(2) work_started_def init_task_def new_scheduler_def sched_run_def)
    then show "loop_step 3 ?w world_running"
      using loop_step.internal [of ?w, OF _ sched_step.lock, of 3] by (simp add: at_reactor_def world_running_def)
  qed
  then show ?thesis
    unfolding world_arrived_def Let_def by (rule world_reach.env [OF _ world_env.arrive])
qed

theorem event_loop_refines_scheduler_witness:
  "world_reach False 3 world_arrived
    \<and> outstanding_work (w_sched world_arrived) + priv_work (w_sched world_arrived) = 1"
  using event_loop_refines_scheduler [OF world_arrived_reach] world_arrived_reach sample_arrived
  by (simp add: waiting_in_def current_work_def in_handler_def)

lemma descriptor_queued_once_example:
  "in_task (w_sched world_arrived) \<and> descs (op_q (w_sched world_arrived)) = []"
  using descriptor_queued_once [OF world_arrived_reach] sample_arrived(7) by simp

theorem no_readiness_lost_witness:
  "in_task (w_sched world_arrived) \<and> d_queue (w_desc world_arrived 0) 0 \<noteq> [] \<and> w_edge world_arrived 0 0"
  using no_readiness_lost [OF world_arrived_reach _ sample_arrived(3,4)] sample_arrived(1,7) by simp

end
