(* ===== verification/Asio_Progress.thy ===== *)
theory Asio_Progress
  imports Asio_Readiness
begin

text \<open>
  The liveness side of the event loop of \<open>Asio_Event_Loop\<close>: from every reachable state the thread in
  \<open>run\<close> comes to the descriptor of an operation that waits for a socket which is ready, performs
  it, and completes it.
\<close>

section \<open>The task is always there\<close>

definition task_there :: "sched \<Rightarrow> bool" where
  "task_there s \<longleftrightarrow> (has_task s \<longrightarrow> Task_Op \<in> set (op_q s) \<or> in_task s)"

lemma task_there_run: "has_task s \<longrightarrow> Task_Op \<in> set (op_q s) \<Longrightarrow> task_there (do_run_one s)"
  by (auto simp: task_there_def in_task_def do_run_one_def wake_defs split: list.splits)

lemma task_there_step:
  assumes "task_there s" "sched_step s s'"
  shows "task_there s'"
  using assms(2)
proof cases
  case lock
  then have "has_task s \<longrightarrow> Task_Op \<in> set (op_q s)" using assms(1) by (auto simp: task_there_def in_task_def)
  then show ?thesis unfolding lock(1) by (rule task_there_run)
next
  case resume
  then have "has_task s \<longrightarrow> Task_Op \<in> set (op_q s)" using assms(1) by (auto simp: task_there_def in_task_def)
  then show ?thesis
    using resume by (auto simp: resume_wait_def case_prod_beta Let_def task_there_def
        intro!: task_there_run [unfolded task_there_def])
next
  case (task b cs ds)
  then show ?thesis
    unfolding task(1) task_returns_def by (intro task_there_run) (simp add: task_cleanup_def Let_def)
next
  case flush
  then show ?thesis
    using assms(1) by (auto simp: flush_private_def task_there_def in_task_def
        intro!: task_there_run [unfolded task_there_def in_task_def])
next
  case complete
  then show ?thesis
    using assms(1) by (auto simp: task_there_def in_task_def work_cleanup_def in_handler_def split: runner.splits)
next
  case (io d cs)
  then show ?thesis
    using assms(1) by (auto simp: task_there_def in_task_def perform_io_cleanup_def
        post_deferred_completions_def compensating_work_started_def split: list.splits)
qed (use assms(1) in \<open>auto simp: task_there_def in_task_def\<close>)

lemma task_there_env:
  assumes "task_there s" "env_step s s'"
  shows "task_there s'"
  using assms(2)
proof cases
  case run
  then show ?thesis using assms(1) by (auto simp: task_there_def in_task_def sched_run_def)
qed (use assms(1) in \<open>auto simp: task_there_def in_task_def restart_def init_task_def
    post_immediate_completion_def post_immediate_completions_def do_dispatch_def work_started_def
    post_deferred_completion_def post_deferred_completions_def\<close>)

lemma task_there_reach: "sched_reach one s \<Longrightarrow> task_there s"
proof (induction rule: sched_reach.induct)
  case new
  show ?case by (simp add: task_there_def new_scheduler_def)
qed (auto intro: task_there_step task_there_env)

section \<open>Steps that leave an operation alone\<close>

text \<open>What matters of the operations of one type at one descriptor.\<close>

definition same_at :: "nat \<Rightarrow> op_type \<Rightarrow> world \<Rightarrow> world \<Rightarrow> bool" where
  "same_at i t w w' \<longleftrightarrow> d_queue (w_desc w' i) t = d_queue (w_desc w i) t
     \<and> (\<forall>u. map ro_id (d_queue (w_desc w' i) u) = map ro_id (d_queue (w_desc w i) u))
     \<and> w_ready w' i t = w_ready w i t \<and> w_edge w' i t = w_edge w i t \<and> w_missed w' i t = w_missed w i t
     \<and> w_result w' i = w_result w i"

lemma same_at_refl [simp]: "same_at i t w w"
  by (simp add: same_at_def)

lemma same_at_trans: "same_at i t w w' \<Longrightarrow> same_at i t w' w'' \<Longrightarrow> same_at i t w w''"
  by (simp add: same_at_def)

lemma same_at_sched [simp]: "same_at i t w (w\<lparr>w_sched := s\<rparr>)"
  by (simp add: same_at_def)

text \<open>A round of the task without events, and a descriptor at which every call would block.\<close>

definition blocks :: performer where
  "blocks x = (Not_Done, None, 0)"

lemma perform_blocks: "perform blocks x = (Not_Done, x\<lparr>ro_ec := None, ro_bytes := 0\<rparr>)"
  by (simp add: perform_def blocks_def)

lemma loop_blocks:
  "fst (perform_loop blocks q spec) = []" "map ro_id (fst (snd (perform_loop blocks q spec))) = map ro_id q"
  by (cases q; simp add: perform_blocks)+

lemma type_blocks: "snd (perform_type blocks m t (d, cs)) = cs"
  using loop_blocks(1) [of "d_queue d t" True] by (auto simp: perform_type_def split: prod.splits)

lemma io_blocks: "snd (perform_io blocks m d) = []"
  unfolding perform_io_def by (metis type_blocks prod.collapse)

lemma quiet_report:
  assumes "world_inv one w" "pc (w_sched w) = In_Task b"
  shows "\<exists>w'. loop_step timer_fd w w' \<and> w_sched w' = task_returns [] (w_sched w) \<and> same_at i t w w'"
proof -
  note r = report_round [OF world_task(1,2) [OF assms], of "[]"]
  have "loop_step timer_fd w (world_report timer_fd [] w)"
    by (rule loop_step.report [OF assms(2)]) (simp add: reportable_def)
  moreover have "same_at i t w (world_report timer_fd [] w)"
    using r by (simp add: same_at_def)
  ultimately show ?thesis using r(1) by fastforce
qed

lemma quiet_io:
  assumes "pc (w_sched w) = Running (Descriptor j)" "i = j \<longrightarrow> \<not> hits (w_result w j) t"
  shows "\<exists>w'. loop_step timer_fd w w' \<and> w_sched w' = perform_io_cleanup [] (w_sched w) \<and> same_at i t w w'"
proof -
  let ?m = "\<lambda>u. w_missed w j u \<or> hits (w_result w j) u \<and> d_queue (w_desc w j) u \<noteq> []"
  let ?w = "(world_io blocks j w)\<lparr>w_ready := (w_ready w)(j := w_ready w j), w_missed := (w_missed w)(j := ?m)\<rparr>"
  obtain d where p: "perform_io blocks (w_result w j) (w_desc w j) = (d, [])"
    using io_blocks by (metis prod.collapse)
  have at: "attempts blocks q (r, m) (r, m \<or> q \<noteq> [])" for q r m
    by (cases q) (auto intro: attempts.intros simp: perform_blocks)
  have st: "loop_step timer_fd w ?w"
    by (rule loop_step.io [OF assms(1)]) (use at in \<open>auto simp: conj_commute\<close>)
  have q: "map ro_id (d_queue d u) = map ro_id (d_queue (w_desc w j) u)" for u
    using perform_io_simps(3) [OF p, of u] loop_blocks(2) [of "d_queue (w_desc w j) u" True]
    by (auto simp: io_result_def prod_eq_iff split: if_splits)
  have "d_queue d t = d_queue (w_desc w j) t" if "i = j"
    using perform_io_simps(3) [OF p, of t] assms(2) that by (simp add: io_result_def)
  then have "same_at i t w ?w" using q assms(2) by (auto simp: same_at_def world_io_def p Let_def)
  then show ?thesis using st by (intro exI [of _ ?w]) (simp add: world_io_def p)
qed

lemma quiet_lift:
  assumes "quiet_step (\<lambda>d. d \<noteq> i) (w_sched w) s'" "world_inv one w"
  shows "\<exists>w'. loop_step timer_fd w w' \<and> w_sched w' = s' \<and> same_at i t w w'"
proof -
  have internal: ?thesis if "\<not> at_reactor (w_sched w)"
    using loop_step.internal [OF that quiet_sched [OF assms(1)]] by fastforce
  from assms(1) show ?thesis
  proof cases
    case signal
    then show ?thesis using loop_step.signal [OF signal(2)] by fastforce
  next
    case (task b)
    then show ?thesis using quiet_report [OF assms(2)] by simp
  next
    case (io d)
    then show ?thesis using quiet_io [OF io(2)] by simp
  qed (rule internal; auto simp: at_reactor_def in_handler_def split: runner.splits sop.splits)+
qed

lemma quiet_path:
  assumes "(quiet_step (\<lambda>d. d \<noteq> i))\<^sup>*\<^sup>* s s'" "w_sched w = s" "world_inv one w"
  shows "\<exists>w'. (loop_step timer_fd)\<^sup>*\<^sup>* w w' \<and> w_sched w' = s' \<and> same_at i t w w' \<and> world_inv one w'"
  using assms
proof (induction rule: rtranclp_induct)
  case (step s1 s2)
  then obtain w1 where w1: "(loop_step timer_fd)\<^sup>*\<^sup>* w w1" "w_sched w1 = s1" "same_at i t w w1" "world_inv one w1"
    by blast
  from quiet_lift [of i w1 s2 one timer_fd t] step.hyps(2) w1
  obtain w2 where w2: "loop_step timer_fd w1 w2" "w_sched w2 = s2" "same_at i t w1 w2" by auto
  then show ?case
    using same_at_trans [OF w1(3) w2(3)] world_loop [OF w1(4) w2(1)] rtranclp.rtrancl_into_rtrancl [OF w1(1) w2(1)]
    by blast
qed fastforce

section \<open>The way of an operation to its handler\<close>

lemma do_run_one_has_task [simp]: "has_task (do_run_one s) = has_task s"
  by (auto simp: do_run_one_def wake_defs split: list.splits)

lemma step_has_task:
  assumes "sched_step s s'"
  shows "has_task s' = has_task s"
  using assms
  by cases
     (simp_all add: resume_wait_def task_returns_def task_cleanup_def work_cleanup_def flush_private_def
       perform_io_cleanup_def post_deferred_completions_def compensating_work_started_def Let_def
       case_prod_beta split: list.splits)

lemma quiet_has_task: "(quiet_step P)\<^sup>*\<^sup>* s s' \<Longrightarrow> has_task s' = has_task s"
  by (induction rule: rtranclp_induct) (auto dest!: quiet_sched step_has_task)

text \<open>A world in which the thread runs and the operation \<open>x\<close> is the next of its type.\<close>

definition waits_for :: "bool \<Rightarrow> nat \<Rightarrow> op_type \<Rightarrow> reactor_op \<Rightarrow> world \<Rightarrow> bool" where
  "waits_for one i t x w \<longleftrightarrow> world_inv one w \<and> live one (w_sched w) \<and> has_task (w_sched w)
     \<and> (\<exists>q. d_queue (w_desc w i) t = x # q) \<and> t < max_ops
     \<and> distinct (map ro_id (d_queue (w_desc w i) 0 @ d_queue (w_desc w i) 1 @ d_queue (w_desc w i) 2))
     \<and> w_ready w i t \<and> \<not> w_missed w i t"

lemma waits_for_same:
  assumes "waits_for one i t x w" "same_at i t w w'" "world_inv one w'" "live one (w_sched w')"
    "has_task (w_sched w')"
  shows "waits_for one i t x w'"
  using assms by (simp add: waits_for_def same_at_def map_append)

lemma waits_for_io: "waits_for one i t x w \<Longrightarrow> 0 < s_io (w_sched w)"
proof -
  assume w: "waits_for one i t x w"
  have t: "t = 0 \<or> t = 1 \<or> t = 2" using w by (auto simp: waits_for_def max_ops_def)
  have "0 < waiting_in (w_desc w i)" using w t by (auto simp: waits_for_def waiting_in_def)
  moreover from this have "i \<in> set (p_live (w_pool w))" using w by (force simp: waits_for_def world_inv_def)
  ultimately show ?thesis
    using waiting_le_total [of i "p_live (w_pool w)" "w_desc w"] w
    by (simp add: waits_for_def world_inv_def io_total_def)
qed

text \<open>The thread comes to an operation of the scheduler before which the descriptor is not run.\<close>

lemma waits_path:
  assumes "waits_for one i t x w" "op_q (w_sched w) = xs @ y # ys"
    "i \<notin> set (descs xs)" "pc (w_sched w) \<noteq> Running (Descriptor i)"
  shows "\<exists>w'. (loop_step timer_fd)\<^sup>*\<^sup>* w w' \<and> same_at i t w w' \<and> waits_for one i t x w' \<and> at_op y (w_sched w')"
proof -
  have w: "world_inv one w" "live one (w_sched w)" "has_task (w_sched w)"
    using assms(1) by (simp_all add: waits_for_def)
  have "\<forall>d. Descriptor d \<in> set xs \<or> pc (w_sched w) = Running (Descriptor d) \<longrightarrow> d \<noteq> i"
    using assms(3,4) by (auto simp: set_descs)
  from comes_to [OF assms(2) w(2) waits_for_io [OF assms(1)] this]
  obtain s' where s: "(quiet_step (\<lambda>d. d \<noteq> i))\<^sup>*\<^sup>* (w_sched w) s'" "at_op y s'" "live one s'" by blast
  from quiet_path [OF s(1) refl w(1)] obtain w' where "(loop_step timer_fd)\<^sup>*\<^sup>* w w'" "w_sched w' = s'"
    "same_at i t w w'" "world_inv one w'" by blast
  then show ?thesis
    using waits_for_same [OF assms(1), of w'] s(2,3) quiet_has_task [OF s(1)] w(3) by auto
qed

lemma waits_to_descriptor:
  assumes "waits_for one i t x w" "i \<in> set (upcoming (w_sched w))"
  shows "\<exists>w'. (loop_step timer_fd)\<^sup>*\<^sup>* w w' \<and> same_at i t w w' \<and> waits_for one i t x w'
    \<and> pc (w_sched w') = Running (Descriptor i)"
proof (cases "pc (w_sched w) = Running (Descriptor i)")
  case False
  have d: "distinct (upcoming (w_sched w))" using assms(1) by (simp add: waits_for_def world_inv_def desc_inv_def)
  have "i \<in> set (descs (op_q (w_sched w)))"
  proof -
    have "i \<notin> set (descs [y])" if "pc (w_sched w) = Running y" for y
      using False that by (cases y) auto
    then show ?thesis using assms(2) by (auto simp: upcoming_def split: runner.splits)
  qed
  then obtain xs ys where q: "op_q (w_sched w) = xs @ Descriptor i # ys" "Descriptor i \<notin> set xs"
    unfolding set_descs by (meson split_list_first)
  from waits_path [OF assms(1) q(1) _ False] q(2) show ?thesis by (force simp: set_descs at_op_def)
qed (use assms(1) in auto)

lemma waits_to_task:
  assumes "waits_for one i t x w" "i \<notin> set (upcoming (w_sched w))"
  shows "\<exists>w'. (loop_step timer_fd)\<^sup>*\<^sup>* w w' \<and> same_at i t w w' \<and> waits_for one i t x w' \<and> in_task (w_sched w')"
proof (cases "in_task (w_sched w)")
  case False
  have w: "has_task (w_sched w)" "sched_reach one (w_sched w)"
    using assms(1) by (simp_all add: waits_for_def world_inv_def)
  have n: "pc (w_sched w) \<noteq> Running (Descriptor i)" "i \<notin> set (descs (op_q (w_sched w)))"
    using assms(2) by (auto simp: upcoming_def)
  have "Task_Op \<in> set (op_q (w_sched w))"
    using task_there_reach [OF w(2)] w(1) False by (simp add: task_there_def)
  then obtain xs ys where q: "op_q (w_sched w) = xs @ Task_Op # ys" by (meson split_list)
  from waits_path [OF assms(1) q _ n(1)] n(2) q show ?thesis
    by (fastforce simp: at_op_def in_task_iff)
qed (use assms(1) in auto)

text \<open>The task reports the event.\<close>

definition all_events :: "nat \<Rightarrow> epoll_event" where
  "all_events i = \<lparr>ee_events = EPOLLIN OR EPOLLOUT OR EPOLLPRI, ee_ptr = Of_Descriptor i\<rparr>"

lemma all_events_hit: "t < max_ops \<Longrightarrow> hits (ee_events (all_events i)) t"
  by (auto simp: hits_def all_events_def less_max_ops io_flag_simps EPOLLIN_def EPOLLOUT_def EPOLLPRI_def
      EPOLLERR_def EPOLLHUP_def)

lemma waits_reported:
  assumes "waits_for one i t x w" "in_task (w_sched w)" "w_edge w i t"
  shows "\<exists>w'. loop_step timer_fd w w' \<and> waits_for one i t x w' \<and> i \<in> set (upcoming (w_sched w'))
    \<and> hits (w_result w' i) t"
proof -
  let ?w = "world_report timer_fd [all_events i] w" and ?s = "w_sched w"
  have w: "world_inv one w" "live one ?s" "has_task ?s" "t < max_ops"
    using assms(1) by (simp_all add: waits_for_def)
  obtain b where b: "pc ?s = In_Task b" using assms(2) by (auto simp: in_task_iff)
  have e: "reported [all_events i] = [i]" "ee_ptr (all_events i) = Of_Descriptor i"
    by (simp_all add: all_events_def)
  note r = report_round [OF world_task(1,2) [OF w(1) b], of "[all_events i]", unfolded e, simplified]
  have rep: "reportable [all_events i] w"
    using all_events_hit by (simp add: reportable_def e)
  have st: "loop_step timer_fd w ?w" by (rule loop_step.report [OF b rep])
  have q: "priv_q ?s = []" "desc_inv ?s" using world_task(2) [OF w(1) b] w(1) by (simp_all add: world_inv_def)
  have u: "upcoming (w_sched ?w) = [i]"
    using desc_task_returns(2) [OF q(2) assms(2) q(1), of "[i]"] r(1) by simp
  have ss: "sched_step ?s (w_sched ?w)"
    using sched_step.task [OF b, of "[]" "[i]"] r(1) by simp
  define c where "c = task_cleanup (?s\<lparr>priv_q := priv_q ?s @ map Descriptor [i], poked := False\<rparr>)"
  have c: "w_sched ?w = do_run_one c" "\<not> is_stopped c" "\<exists>y q. op_q c = y # q"
    using r(1) w(2) by (auto simp: c_def task_returns_def task_cleanup_def Let_def live_def neq_Nil_conv [symmetric])
  then obtain y q' where c': "op_q c = y # q'" by blast
  have "live one (w_sched ?w)"
    using do_run_one_pops [OF c(2) c'] at_op_pc [of y "do_run_one c"] sched_reach.step [OF _ ss] w(2) c(1)
    by (simp add: live_def)
  moreover have "has_task (w_sched ?w)" using step_has_task [OF ss] w(3) by simp
  ultimately have "waits_for one i t x ?w"
    using assms(1) world_loop [OF w(1) st] r(4-) by (simp add: waits_for_def)
  moreover have "hits (w_result ?w i) t" using r(2) [OF refl e(2)] all_events_hit [OF w(4)] by simp
  ultimately show ?thesis using st u by auto
qed

text \<open>The descriptor performs the operation, and only that.\<close>

definition performs_only :: "nat \<Rightarrow> performer" where
  "performs_only n y = (if ro_id y = n then Done else Not_Done, None, 0)"

lemma loop_only_other:
  "n \<notin> set (map ro_id q) \<Longrightarrow> fst (perform_loop (performs_only n) q spec) = []"
  by (cases q) (auto simp: perform_def performs_only_def)

lemma loop_only:
  "n \<notin> set (map ro_id q) \<Longrightarrow> ro_id x = n
    \<Longrightarrow> fst (perform_loop (performs_only n) (x # q) spec) = [x\<lparr>ro_ec := None, ro_bytes := 0\<rparr>]"
  using loop_only_other [of n q spec]
  by (auto simp: perform_def performs_only_def split: prod.splits)

lemma type_only:
  "snd (perform_type pf m t (d, cs)) = cs @ (if hits m t then fst (perform_loop pf (d_queue d t) True) else [])"
  by (auto simp: perform_type_def hits_def split: prod.splits)

lemma perform_io_split:
  "snd (perform_io pf m d) = concat (map (\<lambda>t. if hits m t then fst (perform_loop pf (d_queue d t) True) else [])
    [2, 1, 0])"
proof -
  obtain d2 c2 where p2: "perform_type pf m 2 (d, []) = (d2, c2)" by (metis surj_pair)
  obtain d1 c1 where p1: "perform_type pf m 1 (d2, c2) = (d1, c1)" by (metis surj_pair)
  show ?thesis
    using type_only [of pf m 2 d "[]"] type_only [of pf m 1 d2 c2] type_only [of pf m 0 d1 c1]
      perform_type_simps(4) [OF p2, of 1] perform_type_simps(4) [OF p2, of 0]
      perform_type_simps(4) [OF p1, of 0] p1 p2
    by (simp add: perform_io_def)
qed

lemma attempts_only_other:
  "n \<notin> set (map ro_id q) \<Longrightarrow> attempts (performs_only n) q (r, m) (r, m \<or> q \<noteq> [])"
  by (cases q) (auto intro: attempts.intros simp: perform_def performs_only_def)

lemma waits_performed:
  assumes "waits_for one i t x w" "pc (w_sched w) = Running (Descriptor i)" "hits (w_result w i) t"
  shows "\<exists>w'. loop_step timer_fd w w' \<and> pc (w_sched w') = Running (Completed (ro_id x))"
proof -
  let ?pf = "performs_only (ro_id x)" and ?d = "w_desc w i"
  obtain q where q: "d_queue ?d t = x # q" using assms(1) by (auto simp: waits_for_def)
  have d: "distinct (map ro_id (d_queue ?d 0) @ map ro_id (d_queue ?d 1) @ map ro_id (d_queue ?d 2))"
    "t = 0 \<or> t = 1 \<or> t = 2" "w_ready w i t"
    using assms(1) by (auto simp: waits_for_def max_ops_def)
  have o: "ro_id x \<notin> set (map ro_id (d_queue ?d u))" if "u \<noteq> t" "u = 0 \<or> u = 1 \<or> u = 2" for u
    using d(1,2) q that by auto
  have nq: "ro_id x \<notin> set (map ro_id q)" using d(1,2) q by auto
  have cs: "snd (perform_io ?pf (w_result w i) ?d) = [x\<lparr>ro_ec := None, ro_bytes := 0\<rparr>]"
    unfolding perform_io_split
    using d(2) assms(3) q loop_only [OF nq refl] loop_only_other [OF o] by auto
  then obtain d' where p: "perform_io ?pf (w_result w i) ?d = (d', [x\<lparr>ro_ec := None, ro_bytes := 0\<rparr>])"
    by (metis prod.collapse)
  define m where "m = (\<lambda>u. if u = t then w_missed w i t \<or> q \<noteq> []
    else w_missed w i u \<or> hits (w_result w i) u \<and> d_queue ?d u \<noteq> [])"
  have "fst (perform ?pf x) = Done" by (simp add: perform_def performs_only_def)
  from attempts.finished [OF this d(3) attempts_only_other [OF nq, of True "w_missed w i t"]] d(3)
  have at: "attempts ?pf (d_queue ?d t) (w_ready w i t, w_missed w i t) (w_ready w i t, m t)"
    by (simp add: q m_def)
  have "if hits (w_result w i) u then attempts ?pf (d_queue ?d u) (w_ready w i u, w_missed w i u) (w_ready w i u, m u)
      else w_ready w i u = w_ready w i u \<and> m u = w_missed w i u" if "u < max_ops" for u
  proof (cases "u = t")
    case True
    then show ?thesis using at assms(3) by simp
  next
    case False
    have "u = 0 \<or> u = 1 \<or> u = 2" using that by (auto simp: max_ops_def)
    from attempts_only_other [OF o [OF False this]] show ?thesis using False by (simp add: m_def)
  qed
  then have "loop_step timer_fd w ((world_io ?pf i w)\<lparr>w_ready := (w_ready w)(i := w_ready w i),
      w_missed := (w_missed w)(i := m)\<rparr>)"
    by (intro loop_step.io [OF assms(2)]) blast
  moreover have "pc (w_sched (world_io ?pf i w)) = Running (Completed (ro_id x))"
    by (simp add: world_io_def p perform_io_cleanup_def Let_def)
  ultimately show ?thesis by fastforce
qed

text \<open>The descriptor is run for another event; after that it is no longer in the queue.\<close>

lemma waits_passed:
  assumes "waits_for one i t x w" "pc (w_sched w) = Running (Descriptor i)" "\<not> hits (w_result w i) t"
  shows "\<exists>w'. loop_step timer_fd w w' \<and> same_at i t w w' \<and> waits_for one i t x w'
    \<and> i \<notin> set (upcoming (w_sched w'))"
proof -
  let ?s = "w_sched w"
  have w: "world_inv one w" "live one ?s" "has_task ?s" "desc_inv ?s"
    using assms(1) by (simp_all add: waits_for_def world_inv_def)
  from quiet_io [OF assms(2), of i t timer_fd] assms(3)
  obtain w' where w': "loop_step timer_fd w w'" "w_sched w' = perform_io_cleanup [] ?s" "same_at i t w w'"
    by blast
  have st: "sched_step ?s (w_sched w')" using quiet_sched [OF quiet_step.io [OF assms(2) TrueI]] w'(2) by simp
  have f: "pc (w_sched w') = Compensated" "is_stopped (w_sched w') = is_stopped ?s"
    by (simp_all add: w'(2) perform_io_cleanup_def compensating_work_started_def)
  have "live one (w_sched w')"
    using w(2) f sched_reach.step [OF _ st] by (simp add: live_def)
  then have "waits_for one i t x w'"
    using waits_for_same [OF assms(1) w'(3) world_loop [OF w(1) w'(1)]] step_has_task [OF st] w(3) by simp
  moreover have "i \<notin> set (upcoming (w_sched w'))"
  proof -
    have "upcoming ?s = i # upcoming (w_sched w')"
      using desc_io(2) [OF w(4) assms(2), of "[]" "s_io ?s"] w'(2) by simp
    then show ?thesis using w(4) by (simp add: desc_inv_def)
  qed
  ultimately show ?thesis using w'(1,3) by blast
qed

lemma waits_edge:
  assumes "waits_for one i t x w" "i \<notin> set (upcoming (w_sched w))" "w_edge w i t"
  shows "\<exists>w'. (loop_step timer_fd)\<^sup>*\<^sup>* w w' \<and> pc (w_sched w') = Running (Completed (ro_id x))"
proof -
  from waits_to_task [OF assms(1,2)] obtain w1 where w1: "(loop_step timer_fd)\<^sup>*\<^sup>* w w1"
    "same_at i t w w1" "waits_for one i t x w1" "in_task (w_sched w1)" by blast
  have "w_edge w1 i t" using w1(2) assms(3) by (simp add: same_at_def)
  from waits_reported [OF w1(3,4) this] obtain w2 where w2: "loop_step timer_fd w1 w2"
    "waits_for one i t x w2" "i \<in> set (upcoming (w_sched w2))" "hits (w_result w2 i) t" by blast
  from waits_to_descriptor [OF w2(2,3)] obtain w3 where w3: "(loop_step timer_fd)\<^sup>*\<^sup>* w2 w3"
    "same_at i t w2 w3" "waits_for one i t x w3" "pc (w_sched w3) = Running (Descriptor i)" by blast
  have "hits (w_result w3 i) t" using w3(2) w2(4) by (simp add: same_at_def)
  from waits_performed [OF w3(3,4) this] obtain w4 where w4: "loop_step timer_fd w3 w4"
    "pc (w_sched w4) = Running (Completed (ro_id x))" by blast
  have "(loop_step timer_fd)\<^sup>*\<^sup>* w w2" using w1(1) w2(1) by (rule rtranclp.rtrancl_into_rtrancl)
  from rtranclp_trans [OF this w3(1)] w4(1) have "(loop_step timer_fd)\<^sup>*\<^sup>* w w4"
    by (rule rtranclp.rtrancl_into_rtrancl)
  with w4(2) show ?thesis by blast
qed

lemma waits_completes:
  assumes "waits_for one i t x w" "aware w"
  shows "\<exists>w'. (loop_step timer_fd)\<^sup>*\<^sup>* w w' \<and> pc (w_sched w') = Running (Completed (ro_id x))"
proof (cases "i \<in> set (upcoming (w_sched w))")
  case True
  from waits_to_descriptor [OF assms(1) True] obtain w1 where w1: "(loop_step timer_fd)\<^sup>*\<^sup>* w w1"
    "same_at i t w w1" "waits_for one i t x w1" "pc (w_sched w1) = Running (Descriptor i)" by blast
  show ?thesis
  proof (cases "hits (w_result w1 i) t")
    case True
    from waits_performed [OF w1(3,4) True] w1(1) show ?thesis
      by (meson rtranclp.rtrancl_into_rtrancl)
  next
    case False
    have e: "w_edge w i t"
    proof -
      have "desc_ok (w_desc w i)" "d_queue (w_desc w i) t \<noteq> []" "w_ready w i t" "\<not> w_missed w i t" "t < max_ops"
        using assms(1) by (auto simp: waits_for_def world_inv_def)
      moreover from this have "needs (w_desc w i) t" by (simp add: needs_def desc_ok_def)
      ultimately show ?thesis
        using awareD [OF assms(2), of t i] False w1(2) by (auto simp: same_at_def)
    qed
    from waits_passed [OF w1(3,4) False] obtain w2 where w2: "loop_step timer_fd w1 w2" "same_at i t w1 w2"
      "waits_for one i t x w2" "i \<notin> set (upcoming (w_sched w2))" by blast
    have "w_edge w2 i t" using e w1(2) w2(2) by (simp add: same_at_def)
    from waits_edge [OF w2(3,4) this] obtain w3 where w3: "(loop_step timer_fd)\<^sup>*\<^sup>* w2 w3"
      "pc (w_sched w3) = Running (Completed (ro_id x))" by blast
    have "(loop_step timer_fd)\<^sup>*\<^sup>* w w2" using w1(1) w2(1) by (rule rtranclp.rtrancl_into_rtrancl)
    with w3 show ?thesis by (meson rtranclp_trans)
  qed
next
  case False
  have "desc_ok (w_desc w i)" "d_queue (w_desc w i) t \<noteq> []" "w_ready w i t" "\<not> w_missed w i t" "t < max_ops"
    using assms(1) by (auto simp: waits_for_def world_inv_def)
  moreover from this have "needs (w_desc w i) t" by (simp add: needs_def desc_ok_def)
  ultimately have "w_edge w i t" using awareD [OF assms(2), of t i] False by auto
  then show ?thesis using waits_edge [OF assms(1) False] by blast
qed



end
