(* ===== verification/Asio_Connect.thy ===== *)
theory Asio_Connect
  imports Asio_Socket
begin

text \<open>
  Connecting to the first of several endpoints that can be reached, \<open>asio/impl/connect.hpp\<close>: the
  blocking loop and the two composed operations, of which \<open>ConnectToServer\<close> uses the one over a
  range. An iterator is the list of the endpoints from it to the end.
\<close>

section \<open>Conditions\<close>

datatype 'e connect_condition = Default_Condition | Condition "error_code \<Rightarrow> 'e \<Rightarrow> bool"

fun call_connect_condition :: "(error_code \<Rightarrow> 'e \<Rightarrow> bool) \<Rightarrow> error_code \<Rightarrow> 'e list \<Rightarrow> 'e list" where
  "call_connect_condition cond ec [] = []"
| "call_connect_condition cond ec (e # es) =
     (if cond ec e then e # es else call_connect_condition cond ec es)"

definition default_connect_condition :: "error_code \<Rightarrow> 'e \<Rightarrow> bool" where
  "default_connect_condition ec e \<longleftrightarrow> True"

fun check_condition :: "'e connect_condition \<Rightarrow> error_code \<Rightarrow> 'e list \<Rightarrow> 'e list" where
  "check_condition (Condition cond) ec iter = call_connect_condition cond ec iter"
| "check_condition Default_Condition ec iter = iter"

definition condition_of :: "'e connect_condition \<Rightarrow> error_code \<Rightarrow> 'e \<Rightarrow> bool" where
  "condition_of cond = (case cond of Default_Condition \<Rightarrow> default_connect_condition | Condition c \<Rightarrow> c)"

text \<open>The specialisation for the default condition is the general case at this condition.\<close>

lemma check_condition_eq: "check_condition cond ec iter = call_connect_condition (condition_of cond) ec iter"
  by (cases cond; cases iter) (simp_all add: condition_of_def default_connect_condition_def)

lemma call_connect_condition_suffix: "suffix (call_connect_condition cond ec iter) iter"
  by (induction iter) (auto intro: suffix_ConsI)

section \<open>The blocking loop\<close>

text \<open>\<open>attempt e s\<close> closes the socket \<open>s\<close> and connects it to \<open>e\<close>; it is \<open>None\<close> if this does not return.\<close>

function connect_loop :: "('e \<Rightarrow> 's \<Rightarrow> (error_code \<times> 's) option) \<Rightarrow> (error_code \<Rightarrow> 'e \<Rightarrow> bool)
    \<Rightarrow> 'e list \<Rightarrow> error_code \<Rightarrow> 's \<Rightarrow> (error_code \<times> 'e list \<times> 's) option" where
  "connect_loop attempt cond iter ec s =
     (case call_connect_condition cond ec iter of [] \<Rightarrow> Some (ec, [], s)
      | e # es \<Rightarrow>
          case attempt e s of None \<Rightarrow> None
          | Some (ec1, s1) \<Rightarrow>
              if ec1 = None then Some (ec1, e # es, s1) else connect_loop attempt cond es ec1 s1)"
  by auto

termination connect_loop
proof (relation "measure (\<lambda>(attempt, cond, iter, ec, s). length iter)"; clarsimp)
  fix cond :: "error_code \<Rightarrow> 'e \<Rightarrow> bool" and ec iter e es
  assume "call_connect_condition cond ec iter = e # es"
  then show "length es < length iter"
    using suffix_length_le [OF call_connect_condition_suffix [of cond ec iter]] by simp
qed

declare connect_loop.simps [simp del]

definition connect_iter_ec :: "('e \<Rightarrow> 's \<Rightarrow> (error_code \<times> 's) option) \<Rightarrow> (error_code \<Rightarrow> 'e \<Rightarrow> bool)
    \<Rightarrow> 'e list \<Rightarrow> 's \<Rightarrow> (error_code \<times> 'e list \<times> 's) option" where
  "connect_iter_ec attempt cond begin s =
     map_option (\<lambda>(ec, iter, s1).
       (if iter = [] \<and> ec = None then Some Not_Found else ec, iter, s1))
       (connect_loop attempt cond begin None s)"

definition deref_connect_result :: "'e list \<Rightarrow> error_code \<Rightarrow> 'e option" where
  "deref_connect_result iter ec = (if ec \<noteq> None then None else Some (hd iter))"

text \<open>Over a sequence of endpoints; \<open>None\<close> is the default endpoint.\<close>

definition connect_ec :: "('e \<Rightarrow> 's \<Rightarrow> (error_code \<times> 's) option) \<Rightarrow> (error_code \<Rightarrow> 'e \<Rightarrow> bool)
    \<Rightarrow> 'e list \<Rightarrow> 's \<Rightarrow> (error_code \<times> 'e option \<times> 's) option" where
  "connect_ec attempt cond endpoints s =
     map_option (\<lambda>(ec, iter, s1). (ec, deref_connect_result iter ec, s1))
       (connect_iter_ec attempt cond endpoints s)"

definition connect_throws :: "('e \<Rightarrow> 's \<Rightarrow> (error_code \<times> 's) option) \<Rightarrow> (error_code \<Rightarrow> 'e \<Rightarrow> bool)
    \<Rightarrow> 'e list \<Rightarrow> 's \<Rightarrow> (asio_error + 'e option \<times> 's) option" where
  "connect_throws attempt cond endpoints s =
     map_option (\<lambda>(ec, result, s1). case ec of Some e \<Rightarrow> Inl e | None \<Rightarrow> Inr (result, s1))
       (connect_ec attempt cond endpoints s)"

section \<open>The composed operations\<close>

text \<open>
  A call of \<open>iterator_connect_op\<close>, first to start it and then as the handler of each attempt. It
  closes the socket and starts an attempt on the first endpoint, posts itself with \<open>not_found\<close>, or
  calls the handler.
\<close>

datatype 'e connect_effect =
  Start_Connect "'e list"
| Post_Not_Found "'e list"
| Connected error_code "'e list"

definition next_attempt :: "'e connect_condition \<Rightarrow> error_code \<Rightarrow> nat \<Rightarrow> 'e list \<Rightarrow> 'e connect_effect" where
  "next_attempt cond ec start iter0 =
     (let iter = check_condition cond ec iter0 in
      if iter \<noteq> [] then Start_Connect iter
      else if start \<noteq> 0 then Post_Not_Found iter
      else Connected ec iter)"

definition iterator_connect_call :: "'e connect_condition \<Rightarrow> bool \<Rightarrow> bool \<Rightarrow> error_code \<Rightarrow> nat \<Rightarrow> 'e list
    \<Rightarrow> 'e connect_effect" where
  "iterator_connect_call cond still_open cancelled ec start iter =
     (if start = 1 then next_attempt cond ec start iter
      else if iter = [] then Connected ec iter
      else if \<not> still_open then Connected (Some Operation_Aborted) iter
      else if ec = None then Connected ec iter
      else if cancelled then Connected (Some Operation_Aborted) iter
      else next_attempt cond ec start (List.tl iter))"

text \<open>\<open>range_connect_op\<close> keeps its own copy of the endpoints and an index into it.\<close>

datatype 'e range_effect =
  R_Start nat
| R_Post_Not_Found nat
| R_Connected error_code "'e option"

definition range_result :: "error_code \<Rightarrow> 'e list \<Rightarrow> 'e option" where
  "range_result ec iter = (if ec \<noteq> None \<or> iter = [] then None else Some (hd iter))"

definition range_attempt :: "'e connect_condition \<Rightarrow> 'e list \<Rightarrow> error_code \<Rightarrow> nat \<Rightarrow> 'e list
    \<Rightarrow> 'e range_effect" where
  "range_attempt cond endpoints ec start iter0 =
     (let iter = check_condition cond ec iter0;
          index = length endpoints - length iter
      in if iter \<noteq> [] then R_Start index
         else if start \<noteq> 0 then R_Post_Not_Found index
         else R_Connected ec (range_result ec iter))"

definition range_connect_call :: "'e connect_condition \<Rightarrow> 'e list \<Rightarrow> bool \<Rightarrow> bool \<Rightarrow> error_code \<Rightarrow> nat \<Rightarrow> nat
    \<Rightarrow> 'e range_effect" where
  "range_connect_call cond endpoints still_open cancelled ec start index =
     (let iter = drop index endpoints in
      if start = 1 then range_attempt cond endpoints ec start iter
      else if iter = [] then R_Connected ec (range_result ec iter)
      else if \<not> still_open
      then R_Connected (Some Operation_Aborted) (range_result (Some Operation_Aborted) iter)
      else if ec = None then R_Connected ec (range_result ec iter)
      else if cancelled
      then R_Connected (Some Operation_Aborted) (range_result (Some Operation_Aborted) iter)
      else range_attempt cond endpoints ec start (List.tl iter))"

section \<open>Runs\<close>

text \<open>
  What happens to the attempts: the error each reports, and whether the socket is open and the
  operation has been asked to stop when the handler of the attempt runs. The endpoints attempted,
  and the last effect.
\<close>

type_synonym connect_outcomes = "(error_code \<times> bool \<times> bool) list"

fun iterator_run :: "'e connect_condition \<Rightarrow> connect_outcomes \<Rightarrow> 'e connect_effect
    \<Rightarrow> 'e list \<times> 'e connect_effect" where
  "iterator_run cond ((ec, still_open, cancelled) # os) (Start_Connect iter) =
     (let (tried, eff) = iterator_run cond os (iterator_connect_call cond still_open cancelled ec 0 iter)
      in (hd iter # tried, eff))"
| "iterator_run cond ((ec, still_open, cancelled) # os) (Post_Not_Found iter) =
     iterator_run cond os (iterator_connect_call cond still_open cancelled (Some Not_Found) 0 iter)"
| "iterator_run cond os eff = ([], eff)"

fun range_run :: "'e connect_condition \<Rightarrow> 'e list \<Rightarrow> connect_outcomes \<Rightarrow> 'e range_effect
    \<Rightarrow> 'e list \<times> 'e range_effect" where
  "range_run cond endpoints ((ec, still_open, cancelled) # os) (R_Start index) =
     (let (tried, eff) = range_run cond endpoints os
            (range_connect_call cond endpoints still_open cancelled ec 0 index)
      in ((endpoints ! index) # tried, eff))"
| "range_run cond endpoints ((ec, still_open, cancelled) # os) (R_Post_Not_Found index) =
     range_run cond endpoints os
       (range_connect_call cond endpoints still_open cancelled (Some Not_Found) 0 index)"
| "range_run cond endpoints os eff = ([], eff)"

definition async_connect_range :: "'e connect_condition \<Rightarrow> 'e list \<Rightarrow> 'e range_effect" where
  "async_connect_range cond endpoints = range_connect_call cond endpoints True False None 1 0"

definition async_connect_iter :: "'e connect_condition \<Rightarrow> 'e list \<Rightarrow> 'e connect_effect" where
  "async_connect_iter cond iter = iterator_connect_call cond True False None 1 iter"

text \<open>The two operations agree: an index stands for the rest of the endpoints from it.\<close>

fun to_range :: "'e list \<Rightarrow> 'e connect_effect \<Rightarrow> 'e range_effect" where
  "to_range endpoints (Start_Connect iter) = R_Start (length endpoints - length iter)"
| "to_range endpoints (Post_Not_Found iter) = R_Post_Not_Found (length endpoints - length iter)"
| "to_range endpoints (Connected ec iter) = R_Connected ec (range_result ec iter)"

fun rest :: "'e connect_effect \<Rightarrow> 'e list" where
  "rest (Start_Connect iter) = iter"
| "rest (Post_Not_Found iter) = iter"
| "rest (Connected ec iter) = iter"

lemma drop_suffix: "suffix iter endpoints \<Longrightarrow> drop (length endpoints - length iter) endpoints = iter"
  by (auto simp: suffix_def)

lemma suffix_tl: "suffix iter endpoints \<Longrightarrow> suffix (List.tl iter) endpoints"
  by (cases iter) (auto dest: suffix_ConsD)

lemma next_attempt_range:
  "range_attempt cond endpoints ec start iter = to_range endpoints (next_attempt cond ec start iter)"
  "suffix iter endpoints \<Longrightarrow> suffix (rest (next_attempt cond ec start iter)) endpoints"
  using suffix_order.trans [OF call_connect_condition_suffix]
  by (auto simp: range_attempt_def next_attempt_def check_condition_eq Let_def range_result_def)

lemma call_range:
  assumes "suffix iter endpoints"
  shows "range_connect_call cond endpoints still_open cancelled ec start (length endpoints - length iter)
      = to_range endpoints (iterator_connect_call cond still_open cancelled ec start iter)"
    and "suffix (rest (iterator_connect_call cond still_open cancelled ec start iter)) endpoints"
  using assms suffix_tl [OF assms]
  by (auto simp: range_connect_call_def iterator_connect_call_def drop_suffix Let_def next_attempt_range)

lemma hd_suffix: "suffix iter endpoints \<Longrightarrow> iter \<noteq> [] \<Longrightarrow> endpoints ! (length endpoints - length iter) = hd iter"
  by (metis drop_suffix hd_drop_conv_nth drop_eq_Nil2 not_le)

text \<open>The effects that occur do not start an attempt without an endpoint.\<close>

fun proper :: "'e connect_effect \<Rightarrow> bool" where
  "proper (Start_Connect iter) \<longleftrightarrow> iter \<noteq> []"
| "proper (Post_Not_Found iter) \<longleftrightarrow> iter = []"
| "proper (Connected ec iter) \<longleftrightarrow> True"

lemma proper_call: "proper (iterator_connect_call cond still_open cancelled ec start iter)"
  by (simp add: iterator_connect_call_def next_attempt_def Let_def)

lemma range_run_iterator:
  "suffix (rest eff) endpoints \<Longrightarrow> proper eff \<Longrightarrow> range_run cond endpoints os (to_range endpoints eff)
    = (case iterator_run cond os eff of (tried, eff') \<Rightarrow> (tried, to_range endpoints eff'))"
proof (induction cond os eff rule: iterator_run.induct)
  case (1 cond ec still_open cancelled os iter)
  then show ?case
    using call_range [of iter endpoints cond still_open cancelled ec 0] hd_suffix [of iter endpoints]
    by (auto simp: proper_call split: prod.splits)
next
  case (2 cond ec still_open cancelled os iter)
  then show ?case
    using call_range [of iter endpoints cond still_open cancelled "Some Not_Found" 0]
    by (auto simp: proper_call split: prod.splits)
qed simp_all

section \<open>The blocking and the asynchronous operation\<close>

text \<open>Attempts whose results are those of a script, with a record of the endpoints tried.\<close>

fun scripted :: "'e \<Rightarrow> error_code list \<times> 'e list \<Rightarrow> (error_code \<times> error_code list \<times> 'e list) option" where
  "scripted e ([], tried) = None"
| "scripted e (r # rs, tried) = Some (r, rs, tried @ [e])"

text \<open>
  Attempts in which the socket could be opened and nobody closes it or cancels the operation. Where
  \<open>open\<close> fails, the two ways to connect differ: the blocking loop goes on to the next endpoint, and
  \<open>async_connect\<close> finds the socket closed and ends with \<open>operation_aborted\<close>.
\<close>

definition undisturbed :: "error_code list \<Rightarrow> connect_outcomes" where
  "undisturbed rs = map (\<lambda>r. (r, True, False)) rs"

lemma loop_iterator:
  "connect_loop scripted (condition_of cond) iter ec (rs, tried) = Some (ec', iter', rs', tried')
    \<Longrightarrow> \<exists>att. iterator_run cond (undisturbed rs @ os) (next_attempt cond ec 0 iter) = (att, Connected ec' iter')
      \<and> tried' = tried @ att \<and> (iter' \<noteq> [] \<longrightarrow> ec' = None)
      \<and> (iter' = [] \<and> (ec \<noteq> None \<or> call_connect_condition (condition_of cond) ec iter \<noteq> [])
        \<longrightarrow> ec' \<noteq> None)"
proof (induction rs arbitrary: iter ec tried)
  case Nil
  then show ?case
    by (subst (asm) connect_loop.simps)
      (auto simp: next_attempt_def check_condition_eq Let_def undisturbed_def split: list.splits)
next
  case (Cons r rs)
  show ?case
  proof (cases "call_connect_condition (condition_of cond) ec iter")
    case Nil
    then show ?thesis
      using Cons.prems by (subst (asm) connect_loop.simps)
        (auto simp: next_attempt_def check_condition_eq)
  next
    case c: (Cons e es)
    have n: "next_attempt cond ec 0 iter = Start_Connect (e # es)"
      by (simp add: next_attempt_def check_condition_eq c)
    show ?thesis
    proof (cases r)
      case None
      then show ?thesis
        using Cons.prems n
        by (subst (asm) connect_loop.simps) (auto simp: c undisturbed_def iterator_connect_call_def)
    next
      case (Some x)
      then have l: "connect_loop scripted (condition_of cond) es r (rs, tried @ [e])
          = Some (ec', iter', rs', tried')"
        using Cons.prems by (subst (asm) connect_loop.simps) (auto simp: c)
      have "iterator_connect_call cond True False r 0 (e # es) = next_attempt cond r 0 es"
        by (simp add: iterator_connect_call_def Some)
      then show ?thesis
        using Cons.IH [OF l] n Some by (auto simp: undisturbed_def)
    qed
  qed
qed

text \<open>The blocking \<open>connect\<close> and \<open>async_connect\<close> agree, for every condition and every result of
  the attempts in which the socket can be opened, when nobody closes it or cancels: they try the same
  endpoints in the same order and report the same error and the same endpoint.\<close>

lemma connect_equals_async_connect:
  assumes "connect_ec scripted (condition_of cond) endpoints (rs, []) = Some (ec, result, rs', tried)"
  shows "range_run cond endpoints (undisturbed rs @ [x]) (async_connect_range cond endpoints)
    = (tried, R_Connected ec result)"
proof -
  obtain ec1 iter where l: "connect_loop scripted (condition_of cond) endpoints None (rs, [])
      = Some (ec1, iter, rs', tried)"
    and ec: "ec = (if iter = [] \<and> ec1 = None then Some Not_Found else ec1)"
      "result = deref_connect_result iter ec"
    using assms by (auto simp: connect_ec_def connect_iter_ec_def)
  have run: "iterator_run cond (undisturbed rs @ [x]) (async_connect_iter cond endpoints)
      = (tried, Connected ec iter)"
  proof (cases "call_connect_condition (condition_of cond) None endpoints")
    case Nil
    then have "async_connect_iter cond endpoints = Post_Not_Found []"
      by (simp add: async_connect_iter_def iterator_connect_call_def next_attempt_def check_condition_eq)
    moreover have "ec = Some Not_Found" "iter = []" "tried = []"
      using l Nil ec(1) by (auto simp: connect_loop.simps)
    ultimately show ?thesis
      by (cases rs; cases x) (simp_all add: undisturbed_def iterator_connect_call_def)
  next
    case (Cons e es)
    then have "async_connect_iter cond endpoints = next_attempt cond None 0 endpoints"
      by (simp add: async_connect_iter_def iterator_connect_call_def next_attempt_def check_condition_eq)
    then show ?thesis
      using loop_iterator [OF l, of "[x]"] ec Cons by auto
  qed
  have s: "suffix (rest (async_connect_iter cond endpoints)) endpoints"
    "to_range endpoints (async_connect_iter cond endpoints) = async_connect_range cond endpoints"
    using call_range [of endpoints endpoints] by (simp_all add: async_connect_iter_def async_connect_range_def)
  show ?thesis
    using range_run_iterator [OF s(1), of cond "undisturbed rs @ [x]"] run s(2) ec
    by (auto simp: async_connect_iter_def proper_call range_result_def deref_connect_result_def)
qed

lemma connect_equals_async_connect_example:
  "range_run (Condition (\<lambda>ec e. e \<noteq> 7)) [7, 8, 7, 9] (undisturbed [Some Would_Block, None] @ [(None, True, False)])
      (async_connect_range (Condition (\<lambda>ec e. e \<noteq> 7)) [7, 8, 7, 9 :: nat])
    = ([8, 9], R_Connected None (Some 9))"
proof -
  have "connect_ec scripted (condition_of (Condition (\<lambda>ec e. e \<noteq> 7))) [7, 8, 7, 9 :: nat]
      ([Some Would_Block, None], []) = Some (None, Some 9, [], [8, 9])"
    by (simp add: connect_ec_def connect_iter_ec_def condition_of_def connect_loop.simps
        deref_connect_result_def)
  from connect_equals_async_connect [OF this] show ?thesis .
qed

section \<open>The first endpoint that can be reached\<close>

text \<open>A started attempt, without a condition. An attempt is told to fail with \<open>operation_aborted\<close> when
  the socket has been closed or the operation cancelled.\<close>

lemma default_run:
  assumes "iterator_run Default_Condition os (Start_Connect iter) = (tried, eff)" "iter \<noteq> []"
  shows "prefix tried iter \<and> (length iter \<le> length os \<longrightarrow> (\<exists>ec it. eff = Connected ec it))
    \<and> (\<forall>it. eff = Connected None it \<longrightarrow> (\<exists>n < length iter. tried = take (Suc n) iter \<and> it = drop n iter
        \<and> (\<forall>i < n. fst (os ! i) \<noteq> None) \<and> fst (os ! n) = None \<and> fst (snd (os ! n))))
    \<and> (\<forall>e it. eff = Connected (Some e) it \<longrightarrow> e = Operation_Aborted
        \<or> tried = iter \<and> fst (os ! (length iter - 1)) = Some e)"
  using assms
proof (induction iter arbitrary: os tried)
  case (Cons x iter)
  show ?case
  proof (cases os)
    case (Cons a os1)
    obtain ec still_open cancelled where a: "a = (ec, still_open, cancelled)" by (cases a)
    let ?call = "iterator_connect_call Default_Condition still_open cancelled ec 0 (x # iter)"
    obtain tried1 where r: "iterator_run Default_Condition os1 ?call = (tried1, eff)" "tried = x # tried1"
      using Cons.prems(1) by (auto simp: Cons a split: prod.splits)
    show ?thesis
    proof (cases "still_open \<and> ec \<noteq> None \<and> \<not> cancelled \<and> iter \<noteq> []")
      case True
      then have "?call = Start_Connect iter" by (auto simp: iterator_connect_call_def next_attempt_def)
      note IH = Cons.IH [OF r(1) [unfolded this]]
      have none: "\<exists>n < length (x # iter). tried = take (Suc n) (x # iter) \<and> it = drop n (x # iter)
          \<and> (\<forall>i < n. fst (os ! i) \<noteq> None) \<and> fst (os ! n) = None \<and> fst (snd (os ! n))"
        if e: "eff = Connected None it" for it
      proof -
        obtain n where "n < length iter" "tried1 = take (Suc n) iter" "it = drop n iter"
          "\<forall>i < n. fst (os1 ! i) \<noteq> None" "fst (os1 ! n) = None" "fst (snd (os1 ! n))"
          using IH True e by blast
        then show ?thesis
          using True by (intro exI [of _ "Suc n"]) (auto simp: Cons a r(2) nth_Cons split: nat.splits)
      qed
      have some: "e = Operation_Aborted \<or> tried = x # iter \<and> fst (os ! length iter) = Some e"
        if "eff = Connected (Some e) it" for e it
        using IH True that by (cases iter) (auto simp: Cons r(2))
      show ?thesis
        using none some IH True by (auto simp: Cons r(2))
    next
      case False
      then have "?call = Connected (Some Operation_Aborted) (x # iter)
          \<or> ec = None \<and> still_open \<and> ?call = Connected None (x # iter)
          \<or> iter = [] \<and> ec \<noteq> None \<and> ?call = Connected ec []"
        by (auto simp: iterator_connect_call_def next_attempt_def)
      then obtain ec1 it where call: "?call = Connected ec1 it" and
        "ec1 = Some Operation_Aborted \<or> ec1 = None \<and> ec = None \<and> still_open \<and> it = x # iter
          \<or> iter = [] \<and> ec1 = ec \<and> ec \<noteq> None"
        by blast
      moreover have "eff = Connected ec1 it" "tried = [x]"
        using r by (auto simp: call)
      ultimately show ?thesis by (auto simp: Cons a)
    qed
  qed (use Cons.prems in auto)
qed simp

text \<open>C31: \<open>ConnectToServer\<close> connects to the first endpoint of the resolver that can be reached.
  Whatever the attempts report, and whoever closes the socket meanwhile: the endpoints are tried
  in order, each at most once; asio calls the handler after at most one attempt for each (or one
  turn of the loop if there is none). It reports no error only if the last attempt succeeded, all
  before it failed, and the socket is open; otherwise it reports no endpoint, and the error of the
  last attempt after all have failed, unless the connection was given up before.\<close>

theorem async_connect_first_reachable:
  assumes "range_run Default_Condition endpoints os (async_connect_range Default_Condition endpoints)
    = (tried, eff)"
  shows "prefix tried endpoints
    \<and> (max 1 (length endpoints) \<le> length os \<longrightarrow> (\<exists>ec result. eff = R_Connected ec result))
    \<and> (\<forall>result. eff = R_Connected None result \<longrightarrow> (\<exists>n < length endpoints.
        tried = take (Suc n) endpoints \<and> result = Some (endpoints ! n)
        \<and> (\<forall>i < n. fst (os ! i) \<noteq> None) \<and> fst (os ! n) = None \<and> fst (snd (os ! n))))
    \<and> (\<forall>e result. eff = R_Connected (Some e) result \<longrightarrow> result = None
        \<and> (endpoints = [] \<and> e = Not_Found \<or> e = Operation_Aborted
          \<or> tried = endpoints \<and> fst (os ! (length endpoints - 1)) = Some e))"
proof (cases "endpoints = []")
  case True
  have "async_connect_range Default_Condition ([] :: 'a list) = R_Post_Not_Found 0"
    by (simp add: async_connect_range_def range_connect_call_def range_attempt_def)
  then show ?thesis
    using assms True by (cases os) (auto simp: range_connect_call_def range_result_def)
next
  case False
  have start: "async_connect_iter Default_Condition endpoints = Start_Connect endpoints"
    using False by (simp add: async_connect_iter_def iterator_connect_call_def next_attempt_def)
  have range: "async_connect_range Default_Condition endpoints = to_range endpoints (Start_Connect endpoints)"
    using call_range(1) [of endpoints endpoints] start
    by (simp add: async_connect_range_def async_connect_iter_def)
  obtain eff' where run: "iterator_run Default_Condition os (Start_Connect endpoints) = (tried, eff')"
    and eff: "eff = to_range endpoints eff'"
    using range_run_iterator [of "Start_Connect endpoints" endpoints Default_Condition os] assms False
    by (auto simp: range split: prod.splits)
  have none: "\<exists>n < length endpoints. tried = take (Suc n) endpoints \<and> result = Some (endpoints ! n)
      \<and> (\<forall>i < n. fst (os ! i) \<noteq> None) \<and> fst (os ! n) = None \<and> fst (snd (os ! n))"
    if e: "eff = R_Connected None result" for result
  proof -
    obtain it where it: "eff' = Connected None it" "result = range_result None it"
      using e by (cases eff') (auto simp: eff)
    then obtain n where n: "n < length endpoints" "it = drop n endpoints"
      "tried = take (Suc n) endpoints" "\<forall>i < n. fst (os ! i) \<noteq> None" "fst (os ! n) = None"
      "fst (snd (os ! n))"
      using default_run [OF run False] by blast
    then show ?thesis by (auto simp: it range_result_def hd_drop_conv_nth)
  qed
  have some: "result = None \<and> (e = Operation_Aborted \<or> tried = endpoints
      \<and> fst (os ! (length endpoints - 1)) = Some e)" if e: "eff = R_Connected (Some e) result" for e result
  proof -
    obtain it where "eff' = Connected (Some e) it" "result = range_result (Some e) it"
      using e by (cases eff') (auto simp: eff)
    then show ?thesis using default_run [OF run False] by (auto simp: range_result_def)
  qed
  show ?thesis
    using default_run [OF run False] none some by (auto simp: eff)
qed

theorem async_connect_first_reachable_witness:
  "range_run Default_Condition [7, 8, 9 :: nat] [(Some Would_Block, True, False), (None, True, False)]
      (async_connect_range Default_Condition [7, 8, 9]) = ([7, 8], R_Connected None (Some 8))
    \<and> prefix [7, 8] [7, 8, 9 :: nat]"
proof -
  have run: "range_run Default_Condition [7, 8, 9 :: nat]
      [(Some Would_Block, True, False), (None, True, False)]
      (async_connect_range Default_Condition [7, 8, 9]) = ([7, 8], R_Connected None (Some 8))"
    by (simp add: async_connect_range_def range_connect_call_def range_attempt_def range_result_def)
  show ?thesis using run async_connect_first_reachable [OF run] by blast
qed

end
