(* ===== verification/Asio_Service.thy ===== *)
theory Asio_Service
  imports Asio_Connect
begin

text \<open>
  The sockets and acceptors that the program sees: \<open>asio/detail/reactive_socket_service.hpp\<close> over
  \<open>Asio_Socket\<close>, and what \<open>basic_socket\<close> and \<open>basic_socket_acceptor\<close> add. The results are what the
  program relies on for its connections: a socket that asio hands to the server is open, no
  descriptor is lost, and the acceptor of a server that has been constructed is listening.
\<close>

section \<open>Options and owners of a descriptor\<close>

datatype socket_option = Always_Fail | Enable_Connection_Aborted bool | Linger_Option | Reuse_Address bool

definition so_setsockopt :: "socket_type \<Rightarrow> state_type \<Rightarrow> socket_option \<Rightarrow> script
    \<Rightarrow> ((error_code \<times> state_type) \<times> script) option" where
  "so_setsockopt s state opt os =
     (if s = invalid_socket then Some ((Some Bad_Descriptor, state), os)
      else case opt of
        Always_Fail \<Rightarrow> Some ((Some Invalid_Argument, state), os)
      | Enable_Connection_Aborted value \<Rightarrow>
          Some ((None, if value then state OR enable_connection_aborted
                       else state AND NOT enable_connection_aborted), os)
      | _ \<Rightarrow>
          let state1 = (if opt = Linger_Option then state OR user_set_linger else state)
          in case os of [] \<Rightarrow> None
          | r # os1 \<Rightarrow> Some ((get_last_error (sys_value r \<noteq> 0) (errno r), state1), os1))"

text \<open>The end of a \<open>socket_holder\<close>, with the descriptors it closes.\<close>

definition holder_destroy :: "socket_type \<Rightarrow> script \<Rightarrow> (socket_type list \<times> script) option" where
  "holder_destroy s os =
     (if s \<noteq> invalid_socket then map_option (\<lambda>(_, os'). ([s], os')) (so_close s 0 True os)
      else Some ([], os))"

section \<open>The service\<close>

record service_impl =
  sv_base :: socket_impl
  sv_protocol :: sock_type

text \<open>\<open>endpoint_type().protocol()\<close> is the protocol of a default endpoint, a stream for TCP.\<close>

definition sv_construct :: service_impl where
  "sv_construct = \<lparr>sv_base = construct, sv_protocol = SOCK_STREAM\<rparr>"

definition sv_move_construct :: "service_impl \<Rightarrow> service_impl \<times> service_impl" where
  "sv_move_construct other =
     (let (b, other_b) = base_move_construct (sv_base other)
      in (\<lparr>sv_base = b, sv_protocol = sv_protocol other\<rparr>,
          \<lparr>sv_base = other_b, sv_protocol = SOCK_STREAM\<rparr>))"

definition sv_move_assign :: "service_impl \<Rightarrow> service_impl \<Rightarrow> script
    \<Rightarrow> ((service_impl \<times> service_impl \<times> reactor_op list) \<times> script) option" where
  "sv_move_assign v other os =
     map_option (\<lambda>((b, other_b, ops), os').
       ((\<lparr>sv_base = b, sv_protocol = sv_protocol other\<rparr>,
         \<lparr>sv_base = other_b, sv_protocol = SOCK_STREAM\<rparr>, ops), os'))
       (base_move_assign (sv_base v) (sv_base other) os)"

definition sv_is_open :: "service_impl \<Rightarrow> bool" where
  "sv_is_open v \<longleftrightarrow> is_open (sv_base v)"

definition sv_open :: "service_impl \<Rightarrow> sock_type \<Rightarrow> error_code \<Rightarrow> script
    \<Rightarrow> ((service_impl \<times> error_code) \<times> script) option" where
  "sv_open v ty ctl os =
     map_option (\<lambda>((b, ec), os').
       ((if ec = None then v\<lparr>sv_base := b, sv_protocol := ty\<rparr> else v\<lparr>sv_base := b\<rparr>, ec), os'))
       (do_open (sv_base v) ty ctl os)"

definition sv_assign :: "service_impl \<Rightarrow> sock_type \<Rightarrow> socket_type \<Rightarrow> error_code \<Rightarrow> service_impl \<times> error_code"
  where
  "sv_assign v ty native_socket ctl =
     (let (b, ec) = do_assign (sv_base v) ty native_socket ctl
      in (if ec = None then v\<lparr>sv_base := b, sv_protocol := ty\<rparr> else v\<lparr>sv_base := b\<rparr>, ec))"

definition sv_bind :: "service_impl \<Rightarrow> script \<Rightarrow> (error_code \<times> script) option" where
  "sv_bind v os = map_option (\<lambda>((_, ec), os'). (ec, os')) (so_bind (si_socket (sv_base v)) os)"

definition sv_listen :: "service_impl \<Rightarrow> script \<Rightarrow> (error_code \<times> script) option" where
  "sv_listen v os = map_option (\<lambda>((_, ec), os'). (ec, os')) (so_listen (si_socket (sv_base v)) os)"

definition sv_shutdown :: "service_impl \<Rightarrow> script \<Rightarrow> (error_code \<times> script) option" where
  "sv_shutdown v os = map_option (\<lambda>((_, ec), os'). (ec, os')) (so_shutdown (si_socket (sv_base v)) os)"

definition sv_set_option :: "service_impl \<Rightarrow> socket_option \<Rightarrow> script
    \<Rightarrow> ((service_impl \<times> error_code) \<times> script) option" where
  "sv_set_option v opt os =
     map_option (\<lambda>((ec, state), os'). ((v\<lparr>sv_base := (sv_base v)\<lparr>si_state := state\<rparr>\<rparr>, ec), os'))
       (so_setsockopt (si_socket (sv_base v)) (si_state (sv_base v)) opt os)"

text \<open>\<open>accept\<close>: the new socket is in a holder until the peer has taken it. The result is the peer,
  the error code and the descriptors that the holder has closed.\<close>

definition sv_accept :: "service_impl \<Rightarrow> service_impl \<Rightarrow> error_code \<Rightarrow> script
    \<Rightarrow> ((service_impl \<times> error_code \<times> socket_type list) \<times> script) option" where
  "sv_accept v peer ctl os =
     (if sv_is_open peer then Some ((peer, Some Already_Open, []), os)
      else case sync_accept (si_socket (sv_base v)) (si_state (sv_base v)) os of None \<Rightarrow> None
      | Some ((new_socket, ec), os1) \<Rightarrow>
          if new_socket \<noteq> invalid_socket then
            let (peer1, ec1) = sv_assign peer (sv_protocol v) new_socket ctl in
            if ec1 = None then Some ((peer1, None, []), os1)
            else map_option (\<lambda>(closed, os2). ((peer1, ec1, closed), os2))
                   (holder_destroy new_socket os1)
          else Some ((peer, ec, []), os1))"

text \<open>\<open>do_assign\<close> of an asynchronous accept, and the end of the operation with its holder.\<close>

definition accept_do_assign :: "service_impl \<Rightarrow> sock_type \<Rightarrow> socket_type \<Rightarrow> error_code \<Rightarrow> error_code
    \<Rightarrow> service_impl \<times> error_code \<times> socket_type" where
  "accept_do_assign peer ty new_socket ec ctl =
     (if new_socket \<noteq> invalid_socket then
        let (peer1, ec1) = sv_assign peer ty new_socket ctl
        in (peer1, ec1, if ec1 = None then invalid_socket else new_socket)
      else (peer, ec, new_socket))"

definition accept_do_complete :: "bool \<Rightarrow> service_impl \<Rightarrow> sock_type \<Rightarrow> socket_type \<Rightarrow> error_code \<Rightarrow> error_code
    \<Rightarrow> script \<Rightarrow> ((service_impl \<times> error_code \<times> socket_type list) \<times> script) option" where
  "accept_do_complete owner peer ty new_socket ec ctl os =
     (let (peer1, ec1, held) = (if owner then accept_do_assign peer ty new_socket ec ctl
                                else (peer, ec, new_socket))
      in map_option (\<lambda>(closed, os'). ((peer1, ec1, closed), os')) (holder_destroy held os))"

text \<open>Starting it; the peer of \<open>async_move_accept\<close> is a new socket within the operation.\<close>

definition sv_async_accept :: "service_impl \<Rightarrow> service_impl \<Rightarrow> nat \<Rightarrow> nat \<Rightarrow> performer \<Rightarrow> error_code \<Rightarrow> script
    \<Rightarrow> ((service_impl \<times> start_effect) \<times> script) option" where
  "sv_async_accept v peer i key pf ctl os =
     map_option (\<lambda>((b, eff), os'). ((v\<lparr>sv_base := b\<rparr>, eff), os'))
       (do_start_accept_op (sv_base v) (new_reactor_op i key) (sv_is_open peer) pf ctl os)"

definition sv_async_move_accept :: "service_impl \<Rightarrow> nat \<Rightarrow> nat \<Rightarrow> performer \<Rightarrow> error_code \<Rightarrow> script
    \<Rightarrow> ((service_impl \<times> start_effect) \<times> script) option" where
  "sv_async_move_accept v i key pf ctl os =
     map_option (\<lambda>((b, eff), os'). ((v\<lparr>sv_base := b\<rparr>, eff), os'))
       (do_start_accept_op (sv_base v) (new_reactor_op i key) False pf ctl os)"

definition sv_connect :: "service_impl \<Rightarrow> bool \<Rightarrow> script \<Rightarrow> (error_code \<times> script) option" where
  "sv_connect v is_unix os = sync_connect (si_socket (sv_base v)) is_unix os"

definition sv_async_connect :: "service_impl \<Rightarrow> nat \<Rightarrow> nat \<Rightarrow> bool \<Rightarrow> performer \<Rightarrow> error_code \<Rightarrow> script
    \<Rightarrow> ((service_impl \<times> start_effect) \<times> script) option" where
  "sv_async_connect v i key is_unix pf ctl os =
     map_option (\<lambda>((b, eff), os'). ((v\<lparr>sv_base := b\<rparr>, eff), os'))
       (do_start_connect_op (sv_base v) (new_reactor_op i key) is_unix pf ctl os)"

section \<open>Sockets and acceptors\<close>

text \<open>\<open>basic_socket::connect\<close> and \<open>async_connect\<close> open a closed socket for the protocol of the endpoint.\<close>

definition bs_connect :: "service_impl \<Rightarrow> sock_type \<Rightarrow> bool \<Rightarrow> error_code \<Rightarrow> script
    \<Rightarrow> ((service_impl \<times> error_code) \<times> script) option" where
  "bs_connect v ty is_unix ctl os =
     (if \<not> sv_is_open v then
        case sv_open v ty ctl os of None \<Rightarrow> None
        | Some ((v1, Some e), os1) \<Rightarrow> Some ((v1, Some e), os1)
        | Some ((v1, None), os1) \<Rightarrow>
            map_option (\<lambda>(ec, os2). ((v1, ec), os2)) (sv_connect v1 is_unix os1)
      else map_option (\<lambda>(ec, os2). ((v, ec), os2)) (sv_connect v is_unix os))"

text \<open>The handler is posted with the error of \<open>open\<close>, or the operation is started.\<close>

definition bs_async_connect :: "service_impl \<Rightarrow> sock_type \<Rightarrow> nat \<Rightarrow> nat \<Rightarrow> bool \<Rightarrow> performer \<Rightarrow> error_code
    \<Rightarrow> error_code \<Rightarrow> script \<Rightarrow> ((service_impl \<times> (asio_error + start_effect)) \<times> script) option" where
  "bs_async_connect v ty i key is_unix pf add_ctl ctl os =
     (case (if \<not> sv_is_open v then sv_open v ty add_ctl os else Some ((v, None), os)) of None \<Rightarrow> None
      | Some ((v1, Some open_ec), os1) \<Rightarrow> Some ((v1, Inl open_ec), os1)
      | Some ((v1, None), os1) \<Rightarrow>
          map_option (\<lambda>((v2, eff), os2). ((v2, Inr eff), os2))
            (sv_async_connect v1 i key is_unix pf ctl os1))"

text \<open>An exception in the constructor of an acceptor destroys its socket.\<close>

definition acceptor_throw :: "service_impl \<Rightarrow> asio_error \<Rightarrow> script
    \<Rightarrow> ((asio_error + service_impl) \<times> script) option" where
  "acceptor_throw v e os = map_option (\<lambda>(_, os'). (Inl e, os')) (si_destroy (sv_base v) os)"

definition acceptor_finish :: "service_impl \<Rightarrow> script \<Rightarrow> ((asio_error + service_impl) \<times> script) option" where
  "acceptor_finish v os =
     (case sv_bind v os of None \<Rightarrow> None
      | Some (Some e, os1) \<Rightarrow> acceptor_throw v e os1
      | Some (None, os1) \<Rightarrow>
          case sv_listen v os1 of None \<Rightarrow> None
          | Some (Some e, os2) \<Rightarrow> acceptor_throw v e os2
          | Some (None, os2) \<Rightarrow> Some (Inr v, os2))"

definition new_acceptor :: "bool \<Rightarrow> error_code \<Rightarrow> script \<Rightarrow> ((asio_error + service_impl) \<times> script) option" where
  "new_acceptor reuse_addr ctl os =
     (case sv_open sv_construct SOCK_STREAM ctl os of None \<Rightarrow> None
      | Some ((v, Some e), os1) \<Rightarrow> acceptor_throw v e os1
      | Some ((v, None), os1) \<Rightarrow>
          if reuse_addr then
            case sv_set_option v (Reuse_Address True) os1 of None \<Rightarrow> None
            | Some ((v1, Some e), os2) \<Rightarrow> acceptor_throw v1 e os2
            | Some ((v1, None), os2) \<Rightarrow> acceptor_finish v1 os2
          else acceptor_finish v os1)"

section \<open>What the program relies on\<close>

lemma construct_closed_service: "\<not> sv_is_open sv_construct"
  by (simp add: sv_is_open_def sv_construct_def construct_closed)

lemma assign_open:
  assumes "sv_assign v ty s ctl = (v', ec)" "\<not> sv_is_open v" "s \<noteq> invalid_socket"
  shows "(ec = None \<longleftrightarrow> sv_is_open v') \<and> (ec = None \<longrightarrow> si_socket (sv_base v') = s)"
  using assms by (auto simp: sv_assign_def do_assign_def sv_is_open_def is_open_def Let_def
      split: prod.splits option.splits if_splits)

lemma holder_closes: "holder_destroy s os = Some (closed, os') \<Longrightarrow> closed = (if s = invalid_socket then [] else [s])"
  by (auto simp: holder_destroy_def split: if_splits)

lemma so_accept_result:
  "so_accept s os = Some ((new_socket, ec), os') \<Longrightarrow> (ec = None \<longleftrightarrow> new_socket \<noteq> invalid_socket)"
  by (auto simp: so_accept_def invalid_socket_def get_last_error_def sys_value_def
      split: if_splits list.splits sum.splits)

declare non_blocking_accept.simps [simp del]

lemma non_blocking_accept_result:
  "non_blocking_accept s state os = Some ((finished, ec, new_socket), os')
    \<Longrightarrow> (finished \<longrightarrow> (ec = None \<longleftrightarrow> new_socket \<noteq> invalid_socket)) \<and> (\<not> finished \<longrightarrow> new_socket = invalid_socket)"
proof (induction s state os rule: non_blocking_accept.induct)
  case (1 s state os)
  obtain sock ec1 os1 where a: "so_accept s os = Some ((sock, ec1), os1)"
    using "1.prems" by (subst (asm) non_blocking_accept.simps) (auto split: option.splits)
  show ?case
  proof (cases "sock = invalid_socket \<and> ec1 = Some Interrupted")
    case True
    then have "non_blocking_accept s state os1 = Some ((finished, ec, new_socket), os')"
      using "1.prems" by (subst (asm) non_blocking_accept.simps) (simp add: a)
    then show ?thesis using "1.IH" [OF a refl refl] True by auto
  next
    case False
    then show ?thesis
      using "1.prems" so_accept_result [OF a] by (subst (asm) non_blocking_accept.simps) (auto simp: a split: if_splits)
  qed
qed

text \<open>C32: An asynchronous accept loses no descriptor and never hands over a closed socket. When it
  completes, the handler is told of no error exactly if the peer is open, with the accepted
  descriptor in it; in every other case, also when the operation is destroyed without its handler,
  the accepted descriptor has been closed, once.\<close>

theorem accept_hands_over:
  assumes "accept_do_perform s state os = Some ((Done, ec, new_socket), os1)"
    and "accept_do_complete owner sv_construct ty new_socket ec ctl os1 = Some ((peer, ec1, closed), os2)"
  shows "(owner \<longrightarrow> (ec1 = None \<longleftrightarrow> sv_is_open peer))
    \<and> (owner \<and> ec1 = None \<longrightarrow> si_socket (sv_base peer) = new_socket \<and> closed = [])
    \<and> (\<not> (owner \<and> ec1 = None) \<longrightarrow> \<not> sv_is_open peer
        \<and> closed = (if new_socket = invalid_socket then [] else [new_socket]))"
proof -
  have r: "ec = None \<longleftrightarrow> new_socket \<noteq> invalid_socket"
    using assms(1)
    by (auto simp: accept_do_perform_def split: if_splits dest!: non_blocking_accept_result)
  show ?thesis
  proof (cases "owner \<and> new_socket \<noteq> invalid_socket")
    case True
    obtain peer1 ec2 where a: "sv_assign sv_construct ty new_socket ctl = (peer1, ec2)"
      by (cases "sv_assign sv_construct ty new_socket ctl")
    have "peer = peer1" "ec1 = ec2" "closed = (if ec2 = None then [] else [new_socket])"
      using assms(2) True
      by (auto simp: accept_do_complete_def accept_do_assign_def a dest!: holder_closes)
    then show ?thesis using assign_open [OF a construct_closed_service] True by auto
  next
    case False
    then have "peer = sv_construct" "ec1 = ec" "closed = (if new_socket = invalid_socket then [] else [new_socket])"
      using assms(2)
      by (auto simp: accept_do_complete_def accept_do_assign_def split: if_splits dest!: holder_closes)
    then show ?thesis using False r construct_closed_service by auto
  qed
qed

theorem accept_hands_over_witness:
  "\<exists>peer. accept_do_complete True sv_construct SOCK_STREAM 9 None None [] = Some ((peer, None, []), [])
    \<and> sv_is_open peer \<and> si_socket (sv_base peer) = 9"
proof -
  have a: "accept_do_perform 5 0 [Inr 9] = Some ((Done, None, 9), [])"
    by (simp add: accept_do_perform_def non_blocking_accept.simps so_accept_def invalid_socket_def
        sys_value_def get_last_error_def)
  obtain peer where c: "accept_do_complete True sv_construct SOCK_STREAM 9 None None []
      = Some ((peer, None, []), [])"
    by (simp add: accept_do_complete_def accept_do_assign_def sv_assign_def do_assign_def sv_construct_def
        construct_closed register_descriptor_def holder_destroy_def invalid_socket_def Let_def)
  show ?thesis using accept_hands_over [OF a c] c by auto
qed

text \<open>The constructor of an acceptor returns only with an open socket for which all four system calls
  have succeeded.\<close>

lemma open_result:
  "sv_open v ty ctl os = Some ((v', None), os') \<Longrightarrow> \<exists>s. os = Inr s # os' \<and> sv_is_open v' \<and> si_socket (sv_base v') = int s"
  by (auto simp: sv_open_def do_open_def sv_is_open_def is_open_def invalid_socket_def sys_return_def sys_value_def
      get_last_error_def Let_def split: if_splits list.splits sum.splits prod.splits option.splits)

lemma call_results:
  "sv_bind v os = Some (None, os') \<Longrightarrow> os = Inr 0 # os'"
  "sv_listen v os = Some (None, os') \<Longrightarrow> os = Inr 0 # os'"
  "sv_set_option v (Reuse_Address b) os = Some ((v', None), os') \<Longrightarrow> os = Inr 0 # os'
    \<and> si_socket (sv_base v') = si_socket (sv_base v)"
  by (auto simp: sv_bind_def so_bind_def sv_listen_def so_listen_def sv_set_option_def so_setsockopt_def sys_value_def
      get_last_error_def Let_def split: if_splits list.splits sum.splits)

lemma new_acceptor_listens:
  assumes "new_acceptor True ctl os = Some (Inr v, os')"
  shows "sv_is_open v \<and> (\<exists>s. os = [Inr s, Inr 0, Inr 0, Inr 0] @ os' \<and> si_socket (sv_base v) = int s)"
proof -
  obtain v1 os1 where o: "sv_open sv_construct SOCK_STREAM ctl os = Some ((v1, None), os1)"
    and r1: "(case sv_set_option v1 (Reuse_Address True) os1 of None \<Rightarrow> None
      | Some ((v2, Some e), os2) \<Rightarrow> acceptor_throw v2 e os2
      | Some ((v2, None), os2) \<Rightarrow> acceptor_finish v2 os2) = Some (Inr v, os')"
    using assms by (auto simp: new_acceptor_def acceptor_throw_def split: option.splits)
  obtain os2 where opt: "sv_set_option v1 (Reuse_Address True) os1 = Some ((v, None), os2)"
    and f: "acceptor_finish v os2 = Some (Inr v, os')"
    using r1 by (auto simp: acceptor_throw_def acceptor_finish_def split: option.splits)
  obtain os3 where "sv_bind v os2 = Some (None, os3)" "sv_listen v os3 = Some (None, os')"
    using f by (auto simp: acceptor_throw_def acceptor_finish_def split: option.splits)
  then have "os2 = [Inr 0, Inr 0] @ os'" using call_results(1,2) by fastforce
  then show ?thesis
    using open_result [OF o] call_results(3) [OF opt] by (auto simp: sv_is_open_def is_open_def)
qed

text \<open>
  An attempt to connect leaves the socket open if it could be opened, whatever becomes of the
  attempt: the socket of \<open>ConnectToServer\<close> counts as connected from then on.
\<close>

lemma start_connect_socket:
  "start_connect impl x is_unix pf ctl os = Some ((impl', eff), os') \<Longrightarrow> si_socket impl' = si_socket impl"
  by (auto simp: start_connect_def with_start_def split: if_splits)

lemma do_start_connect_socket:
  "do_start_connect_op impl x is_unix pf ctl os = Some ((impl', eff), os') \<Longrightarrow> si_socket impl' = si_socket impl"
  by (auto simp: do_start_connect_op_def split: if_splits option.splits dest!: start_connect_socket)

lemma async_connect_opens:
  assumes "bs_async_connect v ty i key is_unix pf add_ctl ctl os = Some ((v', Inr eff), os')"
  shows "sv_is_open v'"
proof -
  obtain v1 os1 where v1: "sv_is_open v1"
    and c: "sv_async_connect v1 i key is_unix pf ctl os1 = Some ((v', eff), os')"
    using assms open_result
    by (fastforce simp: bs_async_connect_def split: option.splits if_splits)
  show ?thesis
    using v1 c by (auto simp: sv_async_connect_def sv_is_open_def is_open_def dest!: do_start_connect_socket)
qed

end
