(* ===== verification/Asio_Op_Queue.thy ===== *)
theory Asio_Op_Queue
  imports Prelude
begin

text \<open>
  \<open>asio/detail/op_queue.hpp\<close>: the intrusive queue of operations of the scheduler. An operation is
  known by its address, \<open>0\<close> is the null pointer, and \<open>next_\<close> of all operations is one store, as
  operations of one queue move to another without being copied. The main result is a refinement:
  the queue behaves as a list, and leaves the operations of other queues alone.
\<close>

section \<open>The code\<close>

type_synonym op = nat

type_synonym next_store = "op \<Rightarrow> op"

record op_queue =
  oq_first :: op
  oq_last :: op

definition new_op_queue :: op_queue where
  "new_op_queue = \<lparr>oq_first = 0, oq_last = 0\<rparr>"

definition op_next :: "next_store \<Rightarrow> op \<Rightarrow> op" where
  "op_next nx o1 = nx o1"

definition set_next :: "next_store \<Rightarrow> op \<Rightarrow> op \<Rightarrow> next_store" where
  "set_next nx o1 o2 = nx(o1 := o2)"

definition oq_front :: "op_queue \<Rightarrow> op" where
  "oq_front q = oq_first q"

definition oq_pop :: "next_store \<times> op_queue \<Rightarrow> next_store \<times> op_queue" where
  "oq_pop nq =
     (let (nx, q) = nq
      in if oq_first q \<noteq> 0 then
           let tmp = oq_first q;
               q1 = q\<lparr>oq_first := op_next nx (oq_first q)\<rparr>;
               q2 = (if oq_first q1 = 0 then q1\<lparr>oq_last := 0\<rparr> else q1)
           in (set_next nx tmp 0, q2)
         else (nx, q))"

definition oq_push :: "op \<Rightarrow> next_store \<times> op_queue \<Rightarrow> next_store \<times> op_queue" where
  "oq_push h nq =
     (let (nx0, q) = nq; nx = set_next nx0 h 0
      in if oq_last q \<noteq> 0 then (set_next nx (oq_last q) h, q\<lparr>oq_last := h\<rparr>)
         else (nx, q\<lparr>oq_first := h, oq_last := h\<rparr>))"

text \<open>\<open>push(q)\<close> of another queue: returns the store and both queues.\<close>

definition oq_push_queue :: "op_queue \<Rightarrow> next_store \<times> op_queue \<Rightarrow> next_store \<times> op_queue \<times> op_queue"
  where
  "oq_push_queue other nq =
     (let (nx, q) = nq; other_front = oq_first other
      in if other_front \<noteq> 0 then
           let (nx1, q1) = (if oq_last q \<noteq> 0 then (set_next nx (oq_last q) other_front, q)
                            else (nx, q\<lparr>oq_first := other_front\<rparr>));
               q2 = q1\<lparr>oq_last := oq_last other\<rparr>
           in (nx1, q2, other\<lparr>oq_first := 0, oq_last := 0\<rparr>)
         else (nx, q, other))"

definition oq_empty :: "op_queue \<Rightarrow> bool" where
  "oq_empty q \<longleftrightarrow> oq_first q = 0"

definition oq_is_enqueued :: "next_store \<Rightarrow> op_queue \<Rightarrow> op \<Rightarrow> bool" where
  "oq_is_enqueued nx q o1 \<longleftrightarrow> op_next nx o1 \<noteq> 0 \<or> oq_last q = o1"

text \<open>The destructor, with the operations it destroys; \<open>n\<close> bounds the number of rounds.\<close>

fun oq_destroy :: "nat \<Rightarrow> next_store \<times> op_queue \<Rightarrow> (next_store \<times> op list) option" where
  "oq_destroy n (nx, q) =
     (if oq_first q = 0 then Some (nx, [])
      else case n of
        0 \<Rightarrow> None
      | Suc n' \<Rightarrow> map_option (\<lambda>(nx', ds). (nx', oq_first q # ds)) (oq_destroy n' (oq_pop (nx, q))))"

section \<open>The queue as a list\<close>

fun chain :: "next_store \<Rightarrow> op \<Rightarrow> op list \<Rightarrow> bool" where
  "chain nx p [] \<longleftrightarrow> p = 0"
| "chain nx p (x # xs) \<longleftrightarrow> p = x \<and> x \<noteq> 0 \<and> chain nx (nx x) xs"

definition represents :: "next_store \<Rightarrow> op_queue \<Rightarrow> op list \<Rightarrow> bool" where
  "represents nx q xs \<longleftrightarrow> chain nx (oq_first q) xs \<and> distinct xs \<and> oq_last q = (if xs = [] then 0 else last xs)"

text \<open>Operations that are in no queue have no successor.\<close>

definition unlinked :: "next_store \<Rightarrow> op set \<Rightarrow> bool" where
  "unlinked nx A \<longleftrightarrow> (\<forall>x. x \<notin> A \<longrightarrow> nx x = 0)"

lemma chain_upd: "x \<notin> set xs \<Longrightarrow> chain (nx(x := y)) p xs = chain nx p xs"
  by (induction xs arbitrary: p) auto

lemma chain_last_0: "chain nx p xs \<Longrightarrow> xs \<noteq> [] \<Longrightarrow> nx (last xs) = 0"
  by (induction xs arbitrary: p) auto

lemma chain_no_0: "chain nx p xs \<Longrightarrow> 0 \<notin> set xs"
  by (induction xs arbitrary: p) auto

lemma chain_inner: "chain nx p xs \<Longrightarrow> x \<in> set xs \<Longrightarrow> x \<noteq> last xs \<Longrightarrow> nx x \<noteq> 0"
proof (induction xs arbitrary: p)
  case (Cons y ys)
  then show ?case by (cases ys) auto
qed simp

lemma chain_append:
  assumes "chain nx p xs" "chain nx r ys" "xs \<noteq> []" "distinct xs" "set xs \<inter> set ys = {}"
  shows "chain (nx(last xs := r)) p (xs @ ys)"
  using assms
proof (induction xs arbitrary: p)
  case (Cons x xs)
  then have "last (x # xs) \<notin> set ys" by (metis disjoint_iff last_in_set)
  then have r: "chain (nx(last (x # xs) := r)) r ys" using Cons.prems(2) by (simp add: chain_upd)
  show ?case
  proof (cases "xs = []")
    case False
    then have "chain (nx(last xs := r)) (nx x) (xs @ ys)" "last xs \<noteq> x"
      using Cons by (auto simp del: fun_upd_apply)
    moreover have "last (x # xs) = last xs" using False by simp
    ultimately show ?thesis using Cons.prems(1) by (simp del: fun_upd_apply add: fun_upd_other)
  qed (use Cons.prems r in \<open>simp del: fun_upd_apply add: fun_upd_same\<close>)
qed simp

lemma represents_cases:
  assumes "represents nx q xs"
  obtains "xs = []" "oq_first q = 0" "oq_last q = 0"
  | y ys where "xs = y # ys" "oq_first q = y" "y \<noteq> 0" "oq_last q = last xs" "oq_last q \<noteq> 0"
      "chain nx (nx y) ys" "y \<notin> set ys" "distinct ys"
proof (cases xs)
  case (Cons y ys)
  then have "last xs \<noteq> 0"
    using assms chain_no_0 unfolding represents_def by (metis last_in_set list.distinct(1))
  with Cons assms show ?thesis by (intro that(2) [OF Cons]) (auto simp: represents_def)
qed (use assms that(1) in \<open>simp add: represents_def\<close>)

lemma represents_other:
  assumes "represents nx q xs" "x \<notin> set xs"
  shows "represents (nx(x := y)) q xs"
  using assms by (simp add: represents_def chain_upd)

lemma push_represents:
  assumes "represents nx q xs" "h \<noteq> 0" "h \<notin> set xs" "oq_push h (nx, q) = (nx', q')"
  shows "represents nx' q' (xs @ [h])"
  using assms(1)
proof (cases rule: represents_cases)
  case 1
  with assms show ?thesis
    by (auto simp: oq_push_def set_next_def represents_def Let_def)
next
  case (2 y ys)
  have c: "chain (nx(h := 0)) (oq_first q) xs" "chain (nx(h := 0)) h [h]"
    using assms(1-3) by (simp_all add: represents_def chain_upd)
  have "chain ((nx(h := 0))(last xs := h)) (oq_first q) (xs @ [h])"
    using chain_append [OF c] assms(1,3) 2(1) by (simp add: represents_def)
  then show ?thesis
    using assms 2 by (auto simp: oq_push_def set_next_def represents_def Let_def)
qed

lemma pop_represents:
  assumes "represents nx q (x # xs)" "oq_pop (nx, q) = (nx', q')"
  shows "represents nx' q' xs" "oq_first q = x" "nx' x = 0"
  using assms
  by (auto simp: represents_def oq_pop_def Let_def op_next_def set_next_def chain_upd
      split: if_splits elim: chain.elims)


lemma pop_empty: "represents nx q [] \<Longrightarrow> oq_pop (nx, q) = (nx, q)"
  by (simp add: represents_def oq_pop_def)

lemma push_queue_represents:
  assumes "represents nx q xs" "represents nx other ys" "set xs \<inter> set ys = {}"
    and "oq_push_queue other (nx, q) = (nx', q', other')"
  shows "represents nx' q' (xs @ ys)" "represents nx' other' []"
proof -
  have "represents nx' q' (xs @ ys) \<and> represents nx' other' []"
    using assms(2)
  proof (cases rule: represents_cases)
    case 1
    with assms show ?thesis
      by (auto simp: oq_push_queue_def represents_def Let_def)
  next
    case o: (2 y ys')
    show ?thesis
      using assms(1)
    proof (cases rule: represents_cases)
      case 1
      with assms o show ?thesis
        by (auto simp: oq_push_queue_def represents_def Let_def)
    next
      case (2 x xs')
      have "chain (nx(last xs := oq_first other)) (oq_first q) (xs @ ys)"
        using chain_append [of nx "oq_first q" xs "oq_first other" ys] assms(1-3) 2(1)
        by (simp add: represents_def)
      then show ?thesis
        using assms o 2 by (auto simp: oq_push_queue_def set_next_def represents_def Let_def)
    qed
  qed
  then show "represents nx' q' (xs @ ys)" "represents nx' other' []" by auto
qed

lemma empty_represents: "represents nx q xs \<Longrightarrow> oq_empty q \<longleftrightarrow> xs = []"
  by (cases xs) (auto simp: represents_def oq_empty_def)

lemma front_represents: "represents nx q xs \<Longrightarrow> oq_front q = (if xs = [] then 0 else hd xs)"
  by (cases xs) (auto simp: represents_def oq_front_def)

lemma is_enqueued_represents:
  assumes "represents nx q xs" "x \<notin> set xs \<Longrightarrow> nx x = 0" "x \<noteq> 0"
  shows "oq_is_enqueued nx q x \<longleftrightarrow> x \<in> set xs"
proof
  assume "oq_is_enqueued nx q x"
  then show "x \<in> set xs"
    using assms by (cases "x \<in> set xs")
      (auto simp: oq_is_enqueued_def op_next_def represents_def split: if_splits)
next
  assume "x \<in> set xs"
  then show "oq_is_enqueued nx q x"
    using assms chain_inner [of nx "oq_first q" xs x]
    by (auto simp: oq_is_enqueued_def op_next_def represents_def split: if_splits)
qed

lemma destroy_represents:
  "represents nx q xs \<Longrightarrow> length xs \<le> n \<Longrightarrow> \<exists>nx'. oq_destroy n (nx, q) = Some (nx', xs)"
proof (induction xs arbitrary: nx q n)
  case (Cons x xs)
  obtain nx1 q1 where pop: "oq_pop (nx, q) = (nx1, q1)" by (cases "oq_pop (nx, q)")
  note P = pop_represents [OF Cons.prems(1) pop]
  obtain n' where n: "n = Suc n'" using Cons.prems(2) by (cases n) auto
  obtain nx' where "oq_destroy n' (nx1, q1) = Some (nx', xs)"
    using Cons.IH [OF P(1)] Cons.prems(2) n by auto
  moreover have "x \<noteq> 0" using Cons.prems(1) by (simp add: represents_def)
  ultimately show ?case using P(2) pop n by simp
qed (simp add: represents_def)

section \<open>Two queues\<close>

text \<open>
  The scheduler keeps the ready operations in one queue and the private ones of a thread in
  another. Commands on two queues that share the store, and what they do on lists.
\<close>

datatype oq_cmd = Oq_Push bool op | Oq_Pop bool | Oq_Move bool

fun oq_exec :: "oq_cmd \<Rightarrow> next_store \<times> (bool \<Rightarrow> op_queue) \<Rightarrow> next_store \<times> (bool \<Rightarrow> op_queue)" where
  "oq_exec (Oq_Push b h) (nx, Q) = (let (nx', q) = oq_push h (nx, Q b) in (nx', Q(b := q)))"
| "oq_exec (Oq_Pop b) (nx, Q) = (let (nx', q) = oq_pop (nx, Q b) in (nx', Q(b := q)))"
| "oq_exec (Oq_Move b) (nx, Q) =
     (let (nx', q, r) = oq_push_queue (Q (\<not> b)) (nx, Q b) in (nx', Q(b := q, (\<not> b) := r)))"

fun list_exec :: "oq_cmd \<Rightarrow> (bool \<Rightarrow> op list) \<Rightarrow> (bool \<Rightarrow> op list)" where
  "list_exec (Oq_Push b h) L = L(b := L b @ [h])"
| "list_exec (Oq_Pop b) L = L(b := List.tl (L b))"
| "list_exec (Oq_Move b) L = L(b := L b @ L (\<not> b), (\<not> b) := [])"

text \<open>An operation is pushed only if it is in no queue.\<close>

fun legal_cmd :: "oq_cmd \<Rightarrow> (bool \<Rightarrow> op list) \<Rightarrow> bool" where
  "legal_cmd (Oq_Push b h) L \<longleftrightarrow> h \<noteq> 0 \<and> h \<notin> set (L True) \<union> set (L False)"
| "legal_cmd c L \<longleftrightarrow> True"

fun legal_cmds :: "oq_cmd list \<Rightarrow> (bool \<Rightarrow> op list) \<Rightarrow> bool" where
  "legal_cmds [] L \<longleftrightarrow> True"
| "legal_cmds (c # cs) L \<longleftrightarrow> legal_cmd c L \<and> legal_cmds cs (list_exec c L)"

definition both_represent :: "next_store \<Rightarrow> (bool \<Rightarrow> op_queue) \<Rightarrow> (bool \<Rightarrow> op list) \<Rightarrow> bool" where
  "both_represent nx Q L \<longleftrightarrow> (\<forall>b. represents nx (Q b) (L b)) \<and> set (L True) \<inter> set (L False) = {}
     \<and> unlinked nx (set (L True) \<union> set (L False))"

lemma both_represent_alt:
  "both_represent nx Q L \<longleftrightarrow> represents nx (Q b) (L b) \<and> represents nx (Q (\<not> b)) (L (\<not> b))
     \<and> set (L b) \<inter> set (L (\<not> b)) = {} \<and> unlinked nx (set (L b) \<union> set (L (\<not> b)))"
  by (cases b; simp add: both_represent_def all_bool_eq Un_commute Int_commute; blast)

lemma push_frame:
  assumes "oq_push h (nx, q) = (nx', q')" "x \<noteq> h" "x \<noteq> oq_last q \<or> oq_last q = 0"
  shows "nx' x = nx x"
  using assms by (auto simp: oq_push_def set_next_def Let_def split: if_splits)

lemma pop_frame: "oq_pop (nx, q) = (nx', q') \<Longrightarrow> x \<noteq> oq_first q \<Longrightarrow> nx' x = nx x"
  by (auto simp: oq_pop_def set_next_def Let_def split: if_splits)

lemma push_queue_frame:
  "oq_push_queue r (nx, q) = (nx', q', r') \<Longrightarrow> x \<noteq> oq_last q \<or> oq_last q = 0 \<Longrightarrow> nx' x = nx x"
  by (auto simp: oq_push_queue_def set_next_def Let_def split: if_splits)

lemma chain_cong: "(\<And>x. x \<in> set xs \<Longrightarrow> nx' x = nx x) \<Longrightarrow> chain nx' p xs = chain nx p xs"
  by (induction xs arbitrary: p) auto

lemma represents_cong:
  "(\<And>x. x \<in> set xs \<Longrightarrow> nx' x = nx x) \<Longrightarrow> represents nx' q xs = represents nx q xs"
  unfolding represents_def using chain_cong [of xs nx' nx "oq_first q"] by blast

lemma last_in: "represents nx q xs \<Longrightarrow> oq_last q = 0 \<or> oq_last q \<in> set xs"
  by (auto simp: represents_def)

lemma exec_push:
  assumes R: "both_represent nx Q L" and legal: "legal_cmd (Oq_Push b h) L"
    and "oq_push h (nx, Q b) = (nx', q')"
  shows "both_represent nx' (Q(b := q')) (L(b := L b @ [h]))"
proof -
  have h: "h \<noteq> 0" "h \<notin> set (L b)" "h \<notin> set (L (\<not> b))" using legal by (cases b; auto)+
  have r: "represents nx (Q b) (L b)" "represents nx (Q (\<not> b)) (L (\<not> b))"
    "set (L b) \<inter> set (L (\<not> b)) = {}" "unlinked nx (set (L b) \<union> set (L (\<not> b)))"
    using R both_represent_alt by blast+
  have f: "nx' x = nx x" if "x \<notin> set (L b)" "x \<noteq> h" for x
    using push_frame [OF assms(3)] last_in [OF r(1)] that by metis
  have "unlinked nx' (insert h (set (L b) \<union> set (L (\<not> b))))"
    using r(4) assms(3) last_in [OF r(1)] unfolding unlinked_def
    by (auto simp: oq_push_def set_next_def Let_def split: if_splits)
  moreover have "represents nx' (Q (\<not> b)) (L (\<not> b))"
    using r(2,3) f h(3) by (subst represents_cong [where nx = nx]) auto
  ultimately show ?thesis
    using push_represents [OF r(1) h(1,2) assms(3)] r(3) h
    unfolding both_represent_alt [where b = b] by auto
qed

lemma exec_pop:
  assumes R: "both_represent nx Q L" and "oq_pop (nx, Q b) = (nx', q')"
  shows "both_represent nx' (Q(b := q')) (L(b := List.tl (L b)))"
proof -
  have r: "represents nx (Q b) (L b)" "represents nx (Q (\<not> b)) (L (\<not> b))"
    "set (L b) \<inter> set (L (\<not> b)) = {}" "unlinked nx (set (L b) \<union> set (L (\<not> b)))"
    using R both_represent_alt by blast+
  show ?thesis
  proof (cases "L b")
    case Nil
    then have "nx' = nx" "q' = Q b" using pop_empty [of nx "Q b"] r(1) assms(2) by auto
    with Nil R show ?thesis by (simp add: fun_upd_idem)
  next
    case (Cons x xs)
    note P = pop_represents [OF r(1) [unfolded Cons] assms(2)]
    have "unlinked nx' (set xs \<union> set (L (\<not> b)))"
      using r(4) P(2,3) pop_frame [OF assms(2)] Cons unfolding unlinked_def by (metis Un_iff set_ConsD)
    moreover have "represents nx' (Q (\<not> b)) (L (\<not> b))"
      using r(2,3) P(2) Cons
      by (subst represents_cong [where nx = nx]) (auto simp: disjoint_iff intro!: pop_frame [OF assms(2)])
    ultimately show ?thesis
      using P(1) r(3) Cons unfolding both_represent_alt [where b = b] by auto
  qed
qed

lemma exec_move:
  assumes R: "both_represent nx Q L" and "oq_push_queue (Q (\<not> b)) (nx, Q b) = (nx', q', r')"
  shows "both_represent nx' (Q(b := q', (\<not> b) := r')) (L(b := L b @ L (\<not> b), (\<not> b) := []))"
proof -
  have r: "represents nx (Q b) (L b)" "represents nx (Q (\<not> b)) (L (\<not> b))"
    "set (L b) \<inter> set (L (\<not> b)) = {}" "unlinked nx (set (L b) \<union> set (L (\<not> b)))"
    using R both_represent_alt by blast+
  have "unlinked nx' (set (L b) \<union> set (L (\<not> b)))"
    using r(4) push_queue_frame [OF assms(2)] last_in [OF r(1)] unfolding unlinked_def by (metis Un_iff)
  then show ?thesis
    using push_queue_represents [OF r(1,2,3) assms(2)] unfolding both_represent_alt [where b = b]
    by auto
qed

lemma exec_represents:
  assumes "both_represent nx Q L" "legal_cmd c L" "oq_exec c (nx, Q) = (nx', Q')"
  shows "both_represent nx' Q' (list_exec c L)"
  using assms exec_push exec_pop exec_move
  by (cases c) (auto simp del: fun_upd_apply split: prod.splits)

lemma runs_represent:
  "both_represent nx Q L \<Longrightarrow> legal_cmds cs L \<Longrightarrow> fold oq_exec cs (nx, Q) = (nx', Q')
    \<Longrightarrow> both_represent nx' Q' (fold list_exec cs L)"
proof (induction cs arbitrary: nx Q L)
  case (Cons c cs)
  obtain nx1 Q1 where e: "oq_exec c (nx, Q) = (nx1, Q1)" by (cases "oq_exec c (nx, Q)")
  then show ?case
    using Cons exec_represents [OF Cons.prems(1) _ e] by simp
qed simp

text \<open>C40: Whatever operations are pushed to and popped from two queues and moved between them, the
  queues are the lists that the same commands give: \<open>front\<close>, \<open>empty\<close> and \<open>is_enqueued\<close> answer as
  for lists, and the destructor destroys exactly the operations of its queue, in order.\<close>

theorem op_queue_refines_list:
  assumes "legal_cmds cs (\<lambda>b. [])"
    and "fold oq_exec cs (\<lambda>x. 0, \<lambda>b. new_op_queue) = (nx, Q)"
    and "L = fold list_exec cs (\<lambda>b. [])"
  shows "oq_front (Q b) = (if L b = [] then 0 else hd (L b)) \<and> (oq_empty (Q b) \<longleftrightarrow> L b = [])
    \<and> (x \<noteq> 0 \<and> x \<notin> set (L (\<not> b)) \<longrightarrow> (oq_is_enqueued nx (Q b) x \<longleftrightarrow> x \<in> set (L b)))
    \<and> (\<exists>nx'. oq_destroy (length (L b)) (nx, Q b) = Some (nx', L b))"
proof (intro conjI)
  have "both_represent (\<lambda>x. 0) (\<lambda>b. new_op_queue) (\<lambda>b. [])"
    by (simp add: both_represent_def represents_def unlinked_def new_op_queue_def)
  from runs_represent [OF this assms(1,2)] have B: "both_represent nx Q L" by (simp add: assms(3))
  then have R: "represents nx (Q b) (L b)" "unlinked nx (set (L b) \<union> set (L (\<not> b)))"
    using both_represent_alt by blast+
  show "oq_front (Q b) = (if L b = [] then 0 else hd (L b))" by (rule front_represents [OF R(1)])
  show "oq_empty (Q b) \<longleftrightarrow> L b = []" by (rule empty_represents [OF R(1)])
  show "x \<noteq> 0 \<and> x \<notin> set (L (\<not> b)) \<longrightarrow> (oq_is_enqueued nx (Q b) x \<longleftrightarrow> x \<in> set (L b))"
    using R(2) is_enqueued_represents [OF R(1)] by (auto simp: unlinked_def)
  show "\<exists>nx'. oq_destroy (length (L b)) (nx, Q b) = Some (nx', L b)"
    by (rule destroy_represents [OF R(1)]) simp
qed

definition sample_cmds :: "oq_cmd list" where
  "sample_cmds = [Oq_Push False 1, Oq_Push False 2, Oq_Push True 3, Oq_Move True, Oq_Pop True]"

theorem op_queue_refines_list_witness:
  "case fold oq_exec sample_cmds (\<lambda>x. 0, \<lambda>b. new_op_queue) of (nx, Q) \<Rightarrow>
     oq_front (Q True) = 1 \<and> oq_empty (Q False) \<and> oq_is_enqueued nx (Q True) 2
     \<and> (\<exists>nx'. oq_destroy 2 (nx, Q True) = Some (nx', [1, 2]))"
proof -
  obtain nx Q where e: "fold oq_exec sample_cmds (\<lambda>x. 0, \<lambda>b. new_op_queue) = (nx, Q)"
    by (cases "fold oq_exec sample_cmds (\<lambda>x. 0, \<lambda>b. new_op_queue)")
  have legal: "legal_cmds sample_cmds (\<lambda>b. [])" by (simp add: sample_cmds_def)
  have l: "fold list_exec sample_cmds (\<lambda>b. []) True = [1, 2]"
    "fold list_exec sample_cmds (\<lambda>b. []) False = []"
    by (simp_all add: sample_cmds_def)
  note C = op_queue_refines_list [OF legal e refl]
  show ?thesis
    using C [where b = True and x = 2] C [where b = False and x = 2]
    by (simp add: e l numeral_2_eq_2)
qed

end
