(* ===== verification/Spec2Isabelle.thy ===== *)
theory Spec2Isabelle
  imports Protocol Server_Run Server_Race Asio_Delivery Asio_Overlap Asio_Progress Asio_Service Asio_Op_Queue Asio_Scheduler_Facts
begin

text \<open>
  SnekCpp: a networked multi-player snake game in C++, verified in a shallow embedding.

  The program has three parts. \<open>src/Networking\<close> is a small framework over asio: messages with a
  header and a body of bytes, a thread-safe queue, one end of a connection with its asynchronous
  reads and writes, and the base classes of a client and of a server. \<open>src/SnekServer\<close> derives
  the game server: it keeps the players and powerups, relays what the clients report, finds
  collisions and tells the clients. \<open>src/Snek\<close> derives the game client, with the movement of the
  snakes, the key handler, the drawing and the main loop. Client and server share the message
  types and the layout of the bodies, which each side writes with \<open>operator<<\<close> and reads back,
  in reverse, with \<open>operator>>\<close>.

  Theories, in the order of their imports, and the files they model:

  \<open>Prelude\<close>: errors as values (\<open>err\<close>, \<open>'a res\<close>, \<open>ebind\<close>), signed 32-bit arithmetic whose overflow
  is an error (\<open>c_add\<close> and its companions), the little-endian bytes of words, deques and
  association lists. Every case that is undefined in C++ (front of an empty deque, index out
  of bounds, null pointer, signed overflow, an invalid iterator, a stack overflow) is a branch
  \<open>Inl e\<close> of the model, and so is every exception that leaves the code.

  \<open>Common\<close> (\<open>Snek/common.h\<close>), \<open>Message\<close> (\<open>Networking/message.h\<close>; locale \<open>wire_codec\<close>: what a
  standard-layout type promises, interpreted on all six types that are sent), \<open>Grid_Base\<close>
  (data and getters of \<open>Snek/grid.cpp\<close>), \<open>Player\<close> (\<open>Snek/player.cpp\<close>), \<open>Powerups\<close>
  (\<open>Snek/powerups.cpp\<close>).

  \<open>Queue\<close> (\<open>Networking/queue.h\<close>): the operations, the contract \<open>fifo_queue\<close> its clients use, and
  \<open>Wait\<close> against \<open>PushBack\<close> as a step relation in which every lock, notification and sleep is
  a step of its own.

  \<open>Connection\<close>, \<open>Connection_Write\<close>, \<open>Connection_Read\<close>, \<open>Handshake\<close> (\<open>Networking/connection.h\<close>): the
  operations and handlers; the write side as a step relation \<open>wreach\<close> over sends, disconnects,
  posted lambdas and completions that may fail after any number of bytes, refined to a byte
  stream; the read loop \<open>recv\<close>, which recovers the messages from that stream; the validation. The
  results over \<open>wreach\<close> are about a connection past the handshake, whose write of the challenge has
  completed.

  \<open>Client_Interface\<close> (\<open>Networking/client.h\<close>), \<open>Server_Interface\<close> and \<open>Broadcast\<close>
  (\<open>Networking/server.h\<close>): the base classes as extensible records. The virtual functions are
  parameters; the locales \<open>disconnect_hook\<close> and \<open>message_handler\<close> state what the proofs about
  \<open>MessageAllClients\<close> and \<open>Update\<close> need of a derived class.

  \<open>Game_Server\<close>, \<open>Server_Disconnect\<close>, \<open>Server_Grid\<close>, \<open>Server_Messages\<close>, \<open>Server_Game\<close>
  (\<open>SnekServer/server.cpp\<close>, \<open>main.cpp\<close>): the game server; the interpretation of the two locales
  on its functions; free cells and powerups; collisions and updates; the invariant \<open>game_ok\<close> of
  a running game and what each message does to it.

  \<open>Snake_Client\<close> (\<open>Snek/snakeclient.cpp\<close>), \<open>Input\<close> (\<open>Snek/inputhandler.cpp\<close>), \<open>Render\<close>
  (\<open>Snek/grid.cpp\<close>), \<open>Client_Main\<close> (\<open>Snek/main.cpp\<close>): the game client, its well-formedness
  \<open>client_ok\<close>, and one tick of its main loop.

  \<open>Protocol\<close>: client and server together, message by message. \<open>Server_Run\<close>: all reachable states of
  the running server, its connections and its players. A handler runs there only while a shared pointer
  to its connection is left (\<open>referenced\<close>); that the server can reach states in which a handler has
  outlived its connection, a use after free, is a theorem. \<open>Server_Race\<close>: the loop of
  \<open>MessageAllClients\<close> step by step, against the thread that accepts clients.

  The program runs over asio 1.28, whose sources are in the repository
  (\<open>src/lib/asio-1.28.0/include/asio\<close>); the parts the program stands on are modelled, on Linux:

  \<open>Asio_Buffers\<close> (\<open>buffer.hpp\<close>), \<open>Asio_Consuming\<close> (\<open>completion_condition.hpp\<close>,
  \<open>detail/consuming_buffers.hpp\<close>; locale \<open>consumer\<close>, interpreted on all three consumers) and
  \<open>Asio_Composed\<close> (\<open>impl/write.hpp\<close>, \<open>impl/read.hpp\<close>): \<open>async_write\<close> and \<open>async_read\<close> as the state
  machines they are. \<open>Asio_Socket_Ops\<close> (\<open>detail/impl/socket_ops.ipp\<close>), \<open>Asio_Reactor\<close> and
  \<open>Asio_Reactor_Facts\<close> (\<open>detail/impl/epoll_reactor.ipp\<close>), \<open>Asio_Socket\<close>
  (\<open>detail/impl/reactive_socket_service_base.ipp\<close>), \<open>Asio_Service\<close>
  (\<open>detail/reactive_socket_service.hpp\<close> and the public sockets and acceptors), \<open>Asio_Connect\<close>
  (\<open>impl/connect.hpp\<close>): from the system calls up to the operations the program calls. A system call
  is the next result of a script. \<open>Asio_Op_Queue\<close> (\<open>detail/op_queue.hpp\<close>) is the intrusive queue of
  operations over an explicit store; \<open>Asio_Scheduler\<close> and \<open>Asio_Scheduler_Facts\<close>
  (\<open>detail/impl/scheduler.ipp\<close>, \<open>detail/posix_event.hpp\<close>) are \<open>io_context::run\<close> with one thread, as the
  program calls it, against any other threads: its first-in first-out order is what \<open>tasks\<close> of
  \<open>Connection\<close> assumes. \<open>Asio_Event_Loop\<close> puts the scheduler and the reactor together, with the loop
  over \<open>epoll_wait\<close>, the pool of descriptors and a kernel that reports every change of readiness
  once. \<open>Asio_Event_Loop_Facts\<close>, \<open>Asio_World\<close>, \<open>Asio_Readiness\<close> and \<open>Asio_Progress\<close> show that it refines
  the scheduler with exact counts, that no descriptor is in two queues, that no readiness is lost
  unless an operation gives up on a ready socket (a read at the end of the stream, an aborted accept;
  \<open>w_missed\<close>), and that otherwise the first operation waiting for a ready socket can get to its handler.

  \<open>Asio_Connection\<close> and \<open>Asio_Stack\<close> put the two together: the environment that completes the
  operations of \<open>Connection\<close> is what asio does, and messages pass unchanged from \<open>Send\<close> at one end to
  the incoming queue at the other through sockets that accept and deliver bytes in any pieces.
  \<open>Asio_Delivery\<close> is the liveness side of it, on the locale \<open>drainable\<close> of \<open>Connection_Write\<close>, which is
  interpreted on the environment of \<open>Connection_Write\<close> and on sockets. \<open>Asio_Overlap\<close> is the case they
  leave out: the write of the challenge and that of a message on one socket.

  What the lemmas show. The transport: past the handshake, the bytes written are always a prefix of
  the frames of the messages sent and, while nothing fails, can become all of them; the reader
  recovers exactly these messages, except that one without a body gets the body of its predecessor. The game: the update of a client reaches the server and every other
  client unchanged, a newcomer gets the server's state, powerups appear on free cells and are
  replicated, well-formed messages never make the server fail, a tick does not make a living client
  with an open socket fail. Where the code does not do what it means to, the theorem says so: a wake-up of the
  server's loop can be lost, two lost connections make a broadcast recurse for ever,
  \<open>StartGame\<close> is relayed with a body its header does not announce and desynchronises every
  client, a killed player crashes its client and then the server, the two threads of the server race on its deque of connections,
  handlers outlive their connections, the write of the challenge can be torn apart by that of a
  message, and some smaller ones.

  Bounds and parameters. \<open>OnClientDisconnect\<close> and \<open>MessageAllClients\<close> call each other; the number
  \<open>d\<close> is the depth the stack has left, and the result is \<open>Stack_Overflow\<close> only when it is used
  up. Depth one is enough whenever the calls return at all, for every number of connections
  (\<open>broadcast_returns_iff_one_lost\<close>). All other recursions terminate without fuel. Random numbers,
  colours, the clock, the results of the operating system, the key events and the
  timer of the main loop are arguments. In the theories of the game the results of asio are
  arguments, too, and \<open>Asio_Stack\<close> shows that asio gives them. Of the system calls on a connected
  stream socket it is assumed that they transfer no more than the buffer holds and that a successful
  send sends something (\<open>transfers_at_most\<close>, \<open>sends_some\<close>), which POSIX documents. The order of an unordered map is the order of an
  association list; no result depends on it. Sizes of 64 bits appear as the hypothesis that a
  list is shorter than 2^64, those of a message body as 2^32.

  Not modelled: the window and GUI set-up (\<open>Snek/gui.cpp\<close>), console output (but for the calls in
  it that can fail), the other vendored code under \<open>src/lib\<close> (GLFW, GLAD, Dear ImGui; of asio the
  executor framework, handler allocation, timers, name resolution, datagrams, SSL, the other
  platforms), the conversion of coordinates to \<open>float\<close>, the failure of memory allocation. Handlers
  of the asio thread and the main thread of the server are atomic with respect to each other except
  in \<open>Queue\<close> and \<open>Server_Race\<close>; the code has no lock that would make them so.
\<close>

end
